(* ===== verification/Nixl_Prelude.thy ===== *)
theory Nixl_Prelude
  imports Main "HOL-Library.Word" "HOL-Library.Multiset" "HOL-Library.Product_Lexorder"
begin

text \<open>
  Shared vocabulary of the development: the machine types of the C++ code, the little-endian
  byte images that \<open>memcpy\<close> and \<open>reinterpret_cast\<close> produce on the supported 64-bit hosts, the
  standard-library algorithms the code calls on sorted vectors (\<open>std::lower_bound\<close>,
  \<open>std::upper_bound\<close>), ordered association lists for \<open>std::map\<close>, and two generic contracts:
  \<open>fixed_codec\<close> for fixed-width byte images and \<open>invariant_system\<close> for step relations.
\<close>

named_theorems nixl_word \<comment> \<open>64-bit arithmetic that does not wrap\<close>
named_theorems nixl_step \<comment> \<open>one-step equations of the components' operations\<close>

subsection \<open>Machine types\<close>

type_synonym u32 = "32 word"
type_synonym u64 = "64 word"
type_synonym blob = string

abbreviation SIZE_MAX :: u64 where
  "SIZE_MAX \<equiv> - 1"

definition size_of :: "'a list \<Rightarrow> u64" where
  "size_of xs = word_of_nat (length xs)"

text \<open>The length bound \<open>std::string::max_size\<close> and \<open>std::vector::max_size\<close> enforce on a
  64-bit host: no container holds \<open>2 ^ 63\<close> or more elements.\<close>

definition fits :: "'a list \<Rightarrow> bool" where
  "fits xs \<longleftrightarrow> length xs < 2 ^ 63"

lemma unat_size_of [nixl_word]: "fits xs \<Longrightarrow> unat (size_of xs) = length xs"
  by (simp add: size_of_def fits_def unat_of_nat take_bit_nat_eq_self)

lemma size_of_Nil [simp]: "size_of [] = 0"
  by (simp add: size_of_def)

lemma size_of_append: "size_of (xs @ ys) = size_of xs + size_of ys"
  by (simp add: size_of_def)

lemma fits_append_left: "fits (xs @ ys) \<Longrightarrow> fits xs"
  by (simp add: fits_def)

lemma fits_append_right: "fits (xs @ ys) \<Longrightarrow> fits ys"
  by (simp add: fits_def)

lemma unat_word_of_nat_64: "n < 2 ^ 64 \<Longrightarrow> unat (word_of_nat n :: u64) = n"
  by (simp add: unat_of_nat take_bit_nat_eq_self)

lemma unat_add_u64: "unat a + unat b < 2 ^ 64 \<Longrightarrow> unat (a + b :: u64) = unat a + unat b"
  by (simp add: unat_word_ariths)

lemma unat_sub_u64: "b \<le> a \<Longrightarrow> unat (a - b :: u64) = unat a - unat b"
  by (simp add: unat_sub)

lemma unat_lt_u64: "unat (a :: u64) < 2 ^ 64"
  using unsigned_less [of a, where ?'a = nat] by simp

lemma unat_SIZE_MAX: "unat SIZE_MAX = 2 ^ 64 - 1"
  by (simp add: unsigned_minus_1_eq_mask mask_eq_exp_minus_1)

subsection \<open>Byte images\<close>

text \<open>\<open>le_bytes k n\<close> is the \<open>k\<close>-byte little-endian image of \<open>n\<close>; \<open>le_val\<close> reads one back.\<close>

fun le_bytes :: "nat \<Rightarrow> nat \<Rightarrow> string" where
  "le_bytes 0 n = []"
| "le_bytes (Suc k) n = char_of (n mod 256) # le_bytes k (n div 256)"

fun le_val :: "string \<Rightarrow> nat" where
  "le_val [] = 0"
| "le_val (c # cs) = of_char c + 256 * le_val cs"

lemma length_le_bytes [simp]: "length (le_bytes k n) = k"
  by (induction k arbitrary: n) simp_all

lemma le_val_le_bytes: "le_val (le_bytes k n) = n mod 256 ^ k"
proof (induction k arbitrary: n)
  case 0
  then show ?case by simp
next
  case (Suc k)
  have "n mod 256 ^ Suc k = 256 * (n div 256 mod 256 ^ k) + n mod 256"
    by (simp add: mod_mult2_eq)
  with Suc show ?case by simp
qed

lemma le_val_bound: "le_val cs < 256 ^ length cs"
proof (induction cs)
  case Nil
  then show ?case by simp
next
  case (Cons c cs)
  have "(of_char c :: nat) < 256"
    by (rule nat_of_char_less_256)
  moreover have "256 + 256 * le_val cs \<le> 256 * 256 ^ length cs"
    using mult_le_mono2 [of "Suc (le_val cs)" "256 ^ length cs" 256] Cons by simp
  ultimately have "of_char c + 256 * le_val cs < 256 * 256 ^ length cs" by linarith
  then show ?case by simp
qed

lemma le_bytes_le_val: "le_bytes (length cs) (le_val cs) = cs"
proof (induction cs)
  case Nil
  then show ?case by simp
next
  case (Cons c cs)
  have c: "(of_char c :: nat) < 256"
    by (rule nat_of_char_less_256)
  then have "(of_char c + 256 * le_val cs) mod 256 = of_char c"
    and "(of_char c + 256 * le_val cs) div 256 = le_val cs"
    by simp_all
  with Cons show ?case by simp
qed

definition u64_bytes :: "u64 \<Rightarrow> string" where
  "u64_bytes w = le_bytes 8 (unat w)"

definition bytes_u64 :: "string \<Rightarrow> u64" where
  "bytes_u64 bs = word_of_nat (le_val bs)"

definition u32_bytes :: "u32 \<Rightarrow> string" where
  "u32_bytes w = le_bytes 4 (unat w)"

definition bytes_u32 :: "string \<Rightarrow> u32" where
  "bytes_u32 bs = word_of_nat (le_val bs)"

lemma length_u64_bytes [simp]: "length (u64_bytes w) = 8"
  by (simp add: u64_bytes_def)

lemma length_u32_bytes [simp]: "length (u32_bytes w) = 4"
  by (simp add: u32_bytes_def)

lemma bytes_u64_bytes [simp]: "bytes_u64 (u64_bytes w) = w"
proof -
  have "unat w mod 256 ^ 8 = unat w"
    using unat_lt_u64 [of w] by simp
  then show ?thesis
    by (simp add: bytes_u64_def u64_bytes_def le_val_le_bytes)
qed

lemma bytes_u32_bytes [simp]: "bytes_u32 (u32_bytes w) = w"
proof -
  have "unat w mod 256 ^ 4 = unat w"
    using unsigned_less [of w, where ?'a = nat] by simp
  then show ?thesis
    by (simp add: bytes_u32_def u32_bytes_def le_val_le_bytes)
qed

subsection \<open>Fixed-width codecs\<close>

text \<open>
  The contract of a trivially copyable C++ type that is written to a buffer and read back:
  every value has an image of the same width, and reading the image gives the value. A client
  that lays values out contiguously recovers the list chunk by chunk.
\<close>

fun chunks :: "nat \<Rightarrow> nat \<Rightarrow> 'a list \<Rightarrow> 'a list list" where
  "chunks w 0 bs = []"
| "chunks w (Suc n) bs = take w bs # chunks w n (drop w bs)"

lemma length_chunks [simp]: "length (chunks w n bs) = n"
  by (induction n arbitrary: bs) simp_all

locale fixed_codec =
  fixes enc :: "'a \<Rightarrow> string"
    and dec :: "string \<Rightarrow> 'a"
    and width :: nat
  assumes enc_width: "length (enc x) = width"
    and dec_enc: "dec (enc x) = x"
begin

lemma enc_inject: "enc x = enc y \<Longrightarrow> x = y"
  by (metis dec_enc)

lemma length_concat_enc: "length (concat (map enc xs)) = length xs * width"
  by (induction xs) (simp_all add: enc_width)

lemma dec_chunks: "map dec (chunks width (length xs) (concat (map enc xs))) = xs"
  by (induction xs) (simp_all add: enc_width dec_enc)

lemma dec_prefix: "dec (take width (enc x @ bs)) = x"
  by (simp add: enc_width dec_enc)

end

interpretation u64_codec: fixed_codec u64_bytes bytes_u64 8
  by unfold_locales simp_all

interpretation u32_codec: fixed_codec u32_bytes bytes_u32 4
  by unfold_locales simp_all

subsection \<open>Searching a sorted vector\<close>

text \<open>
  \<open>std::lower_bound\<close> and \<open>std::upper_bound\<close> halve an interval; on a vector that a predicate
  partitions they return the partition point. \<open>part_search\<close> is the halving loop, with the first
  candidate and the number of remaining elements as its state.
\<close>

function part_search :: "('a \<Rightarrow> bool) \<Rightarrow> 'a list \<Rightarrow> nat \<Rightarrow> nat \<Rightarrow> nat" where
  "part_search p xs lo cnt =
     (if cnt = 0 then lo
      else let half = cnt div 2; mid = lo + half
           in if p (xs ! mid) then part_search p xs (mid + 1) (cnt - half - 1)
              else part_search p xs lo half)"
  by pat_completeness auto
termination
  by (relation "measure (\<lambda>(p, xs, lo, cnt). cnt)") auto

declare part_search.simps [simp del]

definition lower_bound :: "('a \<Rightarrow> 'k::linorder) \<Rightarrow> 'a list \<Rightarrow> 'k \<Rightarrow> nat" where
  "lower_bound f xs k = part_search (\<lambda>x. f x < k) xs 0 (length xs)"

definition upper_bound :: "('a \<Rightarrow> 'k::linorder) \<Rightarrow> 'a list \<Rightarrow> 'k \<Rightarrow> nat" where
  "upper_bound f xs k = part_search (\<lambda>x. \<not> k < f x) xs 0 (length xs)"

lemma part_search_point:
  assumes "lo + cnt \<le> length xs"
    and "\<And>i. i < lo \<Longrightarrow> p (xs ! i)"
    and "\<And>i. lo + cnt \<le> i \<Longrightarrow> i < length xs \<Longrightarrow> \<not> p (xs ! i)"
    and "\<And>i j. i < j \<Longrightarrow> j < length xs \<Longrightarrow> p (xs ! j) \<Longrightarrow> p (xs ! i)"
  shows "part_search p xs lo cnt \<le> length xs
    \<and> (\<forall>i < part_search p xs lo cnt. p (xs ! i))
    \<and> (\<forall>i < length xs. part_search p xs lo cnt \<le> i \<longrightarrow> \<not> p (xs ! i))"
  using assms
proof (induction p xs lo cnt rule: part_search.induct)
  case (1 p xs lo cnt)
  define half where "half = cnt div 2"
  define mid where "mid = lo + half"
  show ?case
  proof (cases "cnt = 0")
    case True
    with "1.prems" show ?thesis by (auto simp: part_search.simps [of p xs lo 0])
  next
    case False
    then have half: "half < cnt" and mid: "mid < length xs"
      using "1.prems"(1) by (auto simp: half_def mid_def)
    show ?thesis
    proof (cases "p (xs ! mid)")
      case True
      have below: "\<And>i. i < mid + 1 \<Longrightarrow> p (xs ! i)"
        using True "1.prems"(4) mid by (metis less_SucE Suc_eq_plus1)
      have eq: "mid + 1 + (cnt - half - 1) = lo + cnt"
        using half by (simp add: mid_def)
      have step: "part_search p xs lo cnt = part_search p xs (mid + 1) (cnt - half - 1)"
        using True \<open>cnt \<noteq> 0\<close> by (simp add: part_search.simps [of p xs lo cnt] half_def mid_def Let_def)
      show ?thesis
        unfolding step
        by (rule "1.IH"(1) [OF \<open>cnt \<noteq> 0\<close> half_def mid_def True])
          (use below eq "1.prems" in auto)
    next
      case False
      have above: "\<And>i. lo + half \<le> i \<Longrightarrow> i < length xs \<Longrightarrow> \<not> p (xs ! i)"
        using False "1.prems"(4) by (metis le_neq_implies_less mid_def)
      have step: "part_search p xs lo cnt = part_search p xs lo half"
        using False \<open>cnt \<noteq> 0\<close> by (simp add: part_search.simps [of p xs lo cnt] half_def mid_def Let_def)
      show ?thesis
        unfolding step
        by (rule "1.IH"(2) [OF \<open>cnt \<noteq> 0\<close> half_def mid_def False])
          (use above half "1.prems" in auto)
    qed
  qed
qed

lemma lower_bound_point:
  assumes "sorted (map f xs)"
  shows "lower_bound f xs k \<le> length xs"
    and "i < lower_bound f xs k \<Longrightarrow> f (xs ! i) < k"
    and "lower_bound f xs k \<le> i \<Longrightarrow> i < length xs \<Longrightarrow> k \<le> f (xs ! i)"
proof -
  have mono: "\<And>i j. i < j \<Longrightarrow> j < length xs \<Longrightarrow> f (xs ! i) \<le> f (xs ! j)"
    using assms by (simp add: sorted_iff_nth_mono_less)
  then have part: "\<And>i j. i < j \<Longrightarrow> j < length xs \<Longrightarrow> f (xs ! j) < k \<Longrightarrow> f (xs ! i) < k"
    using le_less_trans by blast
  have "lower_bound f xs k \<le> length xs
    \<and> (\<forall>i < lower_bound f xs k. f (xs ! i) < k)
    \<and> (\<forall>i < length xs. lower_bound f xs k \<le> i \<longrightarrow> \<not> f (xs ! i) < k)"
    unfolding lower_bound_def
    by (rule part_search_point) (use part in auto)
  then show "lower_bound f xs k \<le> length xs"
    and "i < lower_bound f xs k \<Longrightarrow> f (xs ! i) < k"
    and "lower_bound f xs k \<le> i \<Longrightarrow> i < length xs \<Longrightarrow> k \<le> f (xs ! i)"
    by (auto simp: not_less)
qed

lemma upper_bound_point:
  assumes "sorted (map f xs)"
  shows "upper_bound f xs k \<le> length xs"
    and "i < upper_bound f xs k \<Longrightarrow> f (xs ! i) \<le> k"
    and "upper_bound f xs k \<le> i \<Longrightarrow> i < length xs \<Longrightarrow> k < f (xs ! i)"
proof -
  have mono: "\<And>i j. i < j \<Longrightarrow> j < length xs \<Longrightarrow> f (xs ! i) \<le> f (xs ! j)"
    using assms by (simp add: sorted_iff_nth_mono_less)
  then have part: "\<And>i j. i < j \<Longrightarrow> j < length xs \<Longrightarrow> \<not> k < f (xs ! j) \<Longrightarrow> \<not> k < f (xs ! i)"
    using less_le_trans by blast
  have "upper_bound f xs k \<le> length xs
    \<and> (\<forall>i < upper_bound f xs k. \<not> k < f (xs ! i))
    \<and> (\<forall>i < length xs. upper_bound f xs k \<le> i \<longrightarrow> \<not> \<not> k < f (xs ! i))"
    unfolding upper_bound_def
    by (rule part_search_point) (use part in auto)
  then show "upper_bound f xs k \<le> length xs"
    and "i < upper_bound f xs k \<Longrightarrow> f (xs ! i) \<le> k"
    and "upper_bound f xs k \<le> i \<Longrightarrow> i < length xs \<Longrightarrow> k < f (xs ! i)"
    by (auto simp: not_less)
qed

text \<open>Inserting at any position that separates the smaller from the larger keys keeps a vector
  sorted, and adds exactly the new element.\<close>

lemma sorted_insert_at:
  assumes "sorted (map f xs)" and "n \<le> length xs"
    and "\<And>i. i < n \<Longrightarrow> f (xs ! i) \<le> f x"
    and "\<And>i. n \<le> i \<Longrightarrow> i < length xs \<Longrightarrow> f x \<le> f (xs ! i)"
  shows "sorted (map f (take n xs @ x # drop n xs))"
proof -
  have "sorted (map f (take n xs))" "sorted (map f (drop n xs))"
    using assms(1) by (simp_all add: take_map [symmetric] drop_map [symmetric] sorted_wrt_take sorted_wrt_drop)
  moreover have "\<forall>y \<in> set (take n xs). f y \<le> f x"
    using assms(2,3) by (auto simp: in_set_conv_nth)
  moreover have "\<forall>y \<in> set (drop n xs). f x \<le> f y"
    using assms(2,4) by (auto simp: in_set_conv_nth)
  ultimately show ?thesis
    by (force simp: sorted_append)
qed

lemma mset_insert_at: "mset (take n xs @ x # drop n xs) = add_mset x (mset xs)"
proof -
  have "mset (take n xs @ x # drop n xs) = add_mset x (mset (take n xs @ drop n xs))"
    by (simp del: append_take_drop_id)
  then show ?thesis by simp
qed

subsection \<open>Ordered and insertion-ordered maps\<close>

text \<open>
  A \<open>std::map\<close> is an association list kept in key order, so that iterating over the list is
  iterating over the map. A \<open>std::unordered_map\<close> is an association list whose order stands for
  the container's iteration order, which the standard leaves open.
\<close>

fun om_update :: "'k::linorder \<Rightarrow> 'v \<Rightarrow> ('k \<times> 'v) list \<Rightarrow> ('k \<times> 'v) list" where
  "om_update k v [] = [(k, v)]"
| "om_update k v ((k', v') # m) =
     (if k < k' then (k, v) # (k', v') # m
      else if k = k' then (k, v) # m
      else (k', v') # om_update k v m)"

fun um_update :: "'k \<Rightarrow> 'v \<Rightarrow> ('k \<times> 'v) list \<Rightarrow> ('k \<times> 'v) list" where
  "um_update k v [] = [(k, v)]"
| "um_update k v ((k', v') # m) = (if k = k' then (k, v) # m else (k', v') # um_update k v m)"

definition al_delete :: "'k \<Rightarrow> ('k \<times> 'v) list \<Rightarrow> ('k \<times> 'v) list" where
  "al_delete k m = filter (\<lambda>(k', _). k' \<noteq> k) m"

definition om_ordered :: "('k::linorder \<times> 'v) list \<Rightarrow> bool" where
  "om_ordered m \<longleftrightarrow> sorted_wrt (<) (map fst m)"

lemma map_of_om_update [simp]: "map_of (om_update k v m) = (map_of m)(k \<mapsto> v)"
  by (induction m rule: om_update.induct) (auto simp: fun_eq_iff)

lemma map_of_um_update [simp]: "map_of (um_update k v m) = (map_of m)(k \<mapsto> v)"
  by (induction k v m rule: um_update.induct) (auto simp: fun_eq_iff)

lemma map_of_al_delete [simp]: "map_of (al_delete k m) = (map_of m)(k := None)"
  by (induction m) (auto simp: al_delete_def fun_eq_iff)

lemma keys_om_update [simp]: "fst ` set (om_update k v m) = insert k (fst ` set m)"
  by (induction k v m rule: om_update.induct) auto

lemma keys_um_update [simp]: "fst ` set (um_update k v m) = insert k (fst ` set m)"
  by (induction k v m rule: um_update.induct) auto

lemma keys_al_delete [simp]: "fst ` set (al_delete k m) = fst ` set m - {k}"
  by (auto simp: al_delete_def)

lemma om_ordered_update [intro]: "om_ordered m \<Longrightarrow> om_ordered (om_update k v m)"
proof (induction k v m rule: om_update.induct)
  case (1 k v)
  then show ?case by (simp add: om_ordered_def)
next
  case (2 k v k' v' m)
  have keys: "set (map fst (om_update k v m)) = insert k (set (map fst m))"
    by simp
  from 2 show ?case
    by (auto simp: om_ordered_def keys simp flip: set_map split: if_splits)
qed

lemma om_ordered_delete [intro]: "om_ordered m \<Longrightarrow> om_ordered (al_delete k m)"
  unfolding om_ordered_def al_delete_def
  by (induction m) (auto split: prod.splits)

lemma om_ordered_distinct: "om_ordered m \<Longrightarrow> distinct (map fst m)"
  by (simp add: om_ordered_def strict_sorted_iff)

lemma distinct_um_update [intro]: "distinct (map fst m) \<Longrightarrow> distinct (map fst (um_update k v m))"
  by (induction k v m rule: um_update.induct) (auto simp del: set_map simp: keys_um_update [folded set_map])

lemma distinct_al_delete [intro]: "distinct (map fst m) \<Longrightarrow> distinct (map fst (al_delete k m))"
  by (simp add: al_delete_def distinct_map_filter)

lemma replicate_two: "replicate 2 x = [x, x]"
  by (simp add: numeral_2_eq_2)

subsection \<open>Step systems and their invariants\<close>

inductive reach :: "('s \<Rightarrow> bool) \<Rightarrow> ('s \<Rightarrow> 's \<Rightarrow> bool) \<Rightarrow> 's \<Rightarrow> bool"
  for start :: "'s \<Rightarrow> bool" and step :: "'s \<Rightarrow> 's \<Rightarrow> bool" where
  reach_start: "start s \<Longrightarrow> reach start step s"
| reach_step: "reach start step s \<Longrightarrow> step s t \<Longrightarrow> reach start step t"

locale invariant_system =
  fixes start :: "'s \<Rightarrow> bool"
    and step :: "'s \<Rightarrow> 's \<Rightarrow> bool"
    and inv :: "'s \<Rightarrow> bool"
  assumes inv_start: "start s \<Longrightarrow> inv s"
    and inv_step: "inv s \<Longrightarrow> step s t \<Longrightarrow> inv t"
begin

lemma reach_inv: "reach start step s \<Longrightarrow> inv s"
  by (induction rule: reach.induct) (auto intro: inv_start inv_step)

end

end
