(* ===== verification/Nixl_Types.thy ===== *)
theory Nixl_Types
  imports Nixl_Prelude
begin

text \<open>
  The public enumerations of \<open>src/api/cpp/nixl_types.h\<close> and their printed names
  (\<open>src/core/nixl_enum_strings.cpp\<close>). \<open>nixl_mem_t\<close> is read from received bytes
  without a range check, so it is modelled at its width, a 32-bit word, with the five
  enumerators as constants.
\<close>

type_synonym nixl_mem_t = u32

definition DRAM_SEG :: nixl_mem_t where "DRAM_SEG = 0"
definition VRAM_SEG :: nixl_mem_t where "VRAM_SEG = 1"
definition BLK_SEG :: nixl_mem_t where "BLK_SEG = 2"
definition OBJ_SEG :: nixl_mem_t where "OBJ_SEG = 3"
definition FILE_SEG :: nixl_mem_t where "FILE_SEG = 4"

lemmas mem_seg_defs = DRAM_SEG_def VRAM_SEG_def BLK_SEG_def OBJ_SEG_def FILE_SEG_def

datatype nixl_xfer_op_t = NIXL_READ | NIXL_WRITE

datatype nixl_status_t =
    NIXL_IN_PROG | NIXL_SUCCESS | NIXL_ERR_NOT_POSTED | NIXL_ERR_INVALID_PARAM
  | NIXL_ERR_BACKEND | NIXL_ERR_NOT_FOUND | NIXL_ERR_MISMATCH | NIXL_ERR_NOT_ALLOWED
  | NIXL_ERR_REPOST_ACTIVE | NIXL_ERR_UNKNOWN | NIXL_ERR_NOT_SUPPORTED
  | NIXL_ERR_REMOTE_DISCONNECT | NIXL_ERR_CANCELED | NIXL_ERR_NO_TELEMETRY

fun status_code :: "nixl_status_t \<Rightarrow> int" where
  "status_code NIXL_IN_PROG = 1"
| "status_code NIXL_SUCCESS = 0"
| "status_code NIXL_ERR_NOT_POSTED = -1"
| "status_code NIXL_ERR_INVALID_PARAM = -2"
| "status_code NIXL_ERR_BACKEND = -3"
| "status_code NIXL_ERR_NOT_FOUND = -4"
| "status_code NIXL_ERR_MISMATCH = -5"
| "status_code NIXL_ERR_NOT_ALLOWED = -6"
| "status_code NIXL_ERR_REPOST_ACTIVE = -7"
| "status_code NIXL_ERR_UNKNOWN = -8"
| "status_code NIXL_ERR_NOT_SUPPORTED = -9"
| "status_code NIXL_ERR_REMOTE_DISCONNECT = -10"
| "status_code NIXL_ERR_CANCELED = -11"
| "status_code NIXL_ERR_NO_TELEMETRY = -12"

text \<open>The test \<open>status < 0\<close> of the source.\<close>

abbreviation is_err :: "nixl_status_t \<Rightarrow> bool" where
  "is_err st \<equiv> status_code st < 0"

lemma is_err_iff: "is_err st \<longleftrightarrow> st \<noteq> NIXL_IN_PROG \<and> st \<noteq> NIXL_SUCCESS"
  by (cases st) simp_all

lemma status_code_inject: "status_code a = status_code b \<longleftrightarrow> a = b"
  by (cases a; cases b) simp_all

definition memTypeStr :: "nixl_mem_t \<Rightarrow> string" where
  "memTypeStr mem =
     (if mem = DRAM_SEG then ''DRAM_SEG''
      else if mem = VRAM_SEG then ''VRAM_SEG''
      else if mem = BLK_SEG then ''BLK_SEG''
      else if mem = OBJ_SEG then ''OBJ_SEG''
      else if mem = FILE_SEG then ''FILE_SEG''
      else ''BAD_SEG'')"

fun xferOpStr :: "nixl_xfer_op_t \<Rightarrow> string" where
  "xferOpStr NIXL_READ = ''READ''"
| "xferOpStr NIXL_WRITE = ''WRITE''"

fun statusStr :: "nixl_status_t \<Rightarrow> string" where
  "statusStr NIXL_IN_PROG = ''NIXL_IN_PROG''"
| "statusStr NIXL_SUCCESS = ''NIXL_SUCCESS''"
| "statusStr NIXL_ERR_NOT_POSTED = ''NIXL_ERR_NOT_POSTED''"
| "statusStr NIXL_ERR_INVALID_PARAM = ''NIXL_ERR_INVALID_PARAM''"
| "statusStr NIXL_ERR_BACKEND = ''NIXL_ERR_BACKEND''"
| "statusStr NIXL_ERR_NOT_FOUND = ''NIXL_ERR_NOT_FOUND''"
| "statusStr NIXL_ERR_MISMATCH = ''NIXL_ERR_MISMATCH''"
| "statusStr NIXL_ERR_NOT_ALLOWED = ''NIXL_ERR_NOT_ALLOWED''"
| "statusStr NIXL_ERR_REPOST_ACTIVE = ''NIXL_ERR_REPOST_ACTIVE''"
| "statusStr NIXL_ERR_UNKNOWN = ''NIXL_ERR_UNKNOWN''"
| "statusStr NIXL_ERR_NOT_SUPPORTED = ''NIXL_ERR_NOT_SUPPORTED''"
| "statusStr NIXL_ERR_REMOTE_DISCONNECT = ''NIXL_ERR_REMOTE_DISCONNECT''"
| "statusStr NIXL_ERR_CANCELED = ''NIXL_ERR_CANCELED''"
| "statusStr NIXL_ERR_NO_TELEMETRY = ''NIXL_ERR_NO_TELEMETRY''"

lemma statusStr_inject: "statusStr a = statusStr b \<longleftrightarrow> a = b"
  by (cases a; cases b) simp_all

subsection \<open>Status-returning calls in sequence\<close>

text \<open>The pattern \<open>ret = f(); if (ret) return ret; ...\<close> over an explicit state.\<close>

definition st_then :: "nixl_status_t \<times> 's \<Rightarrow> ('s \<Rightarrow> nixl_status_t \<times> 's) \<Rightarrow> nixl_status_t \<times> 's" where
  "st_then r f = (case r of (st, s) \<Rightarrow> if st = NIXL_SUCCESS then f s else (st, s))"

lemma st_then_success [simp]: "st_then (NIXL_SUCCESS, s) f = f s"
  by (simp add: st_then_def)

lemma st_then_error: "st \<noteq> NIXL_SUCCESS \<Longrightarrow> st_then (st, s) f = (st, s)"
  by (simp add: st_then_def)

end
