(* ===== verification/Nixl_SerDes.thy ===== *)
theory Nixl_SerDes
  imports Nixl_Types
begin

text \<open>
  The metadata wire format, \<open>src/utils/serdes/serdes.cpp\<close>: a buffer that starts with
  \<open>nixlSerDes|\<close> and holds fields \<open>tag, 8-byte length, data, '|'\<close>. The read position and every
  length are 64-bit words, because the reader adds a received length to the position before
  it compares the sum with the buffer size. The reader's buffer and position are explicit
  state; \<open>getStr\<close> and \<open>getBuf\<close> return the new state. Log output is not part of the model.
\<close>

datatype ser_mode_t = SERIALIZE | DESERIALIZE

record nixlSerDes =
  workingStr :: string
  des_offset :: u64
  mode :: ser_mode_t

definition serdes_magic :: string where
  "serdes_magic = ''nixlSerDes|''"

definition serdes_new :: nixlSerDes where
  "serdes_new = \<lparr>workingStr = serdes_magic, des_offset = size_of serdes_magic, mode = SERIALIZE\<rparr>"

definition addStr :: "string \<Rightarrow> string \<Rightarrow> nixlSerDes \<Rightarrow> nixl_status_t \<times> nixlSerDes" where
  "addStr tag str sd =
     (NIXL_SUCCESS, sd\<lparr>workingStr := workingStr sd @ tag @ u64_bytes (size_of str) @ str @ ''|''\<rparr>)"

definition addBuf :: "string \<Rightarrow> string \<Rightarrow> nixlSerDes \<Rightarrow> nixl_status_t \<times> nixlSerDes" where
  "addBuf tag buf sd =
     (NIXL_SUCCESS,
      sd\<lparr>workingStr := (((workingStr sd @ tag) @ u64_bytes (size_of buf)) @ buf) @ ''|''\<rparr>)"

text \<open>The two guards every reader starts with: the header fits, and the tag matches.\<close>

definition header_fits :: "string \<Rightarrow> nixlSerDes \<Rightarrow> bool" where
  "header_fits tag sd \<longleftrightarrow> \<not> size_of (workingStr sd) < des_offset sd + size_of tag + 8"

definition tag_matches :: "string \<Rightarrow> nixlSerDes \<Rightarrow> bool" where
  "tag_matches tag sd \<longleftrightarrow> take (length tag) (drop (unat (des_offset sd)) (workingStr sd)) = tag"

definition field_len :: "string \<Rightarrow> nixlSerDes \<Rightarrow> u64" where
  "field_len tag sd = bytes_u64 (take 8 (drop (unat (des_offset sd + size_of tag)) (workingStr sd)))"

definition getStr :: "string \<Rightarrow> nixlSerDes \<Rightarrow> string \<times> nixlSerDes" where
  "getStr tag sd =
     (if \<not> header_fits tag sd then ('''', sd)
      else if \<not> tag_matches tag sd then ('''', sd)
      else let n = field_len tag sd;
               sd1 = sd\<lparr>des_offset := des_offset sd + (size_of tag + 8)\<rparr>
           in if size_of (workingStr sd1) < des_offset sd1 + n + 1 then ('''', sd1)
              else let ret = take (unat n) (drop (unat (des_offset sd1)) (workingStr sd1))
                   in (ret, sd1\<lparr>des_offset := des_offset sd1 + (n + 1)\<rparr>))"

definition peekBufLen :: "string \<Rightarrow> nixlSerDes \<Rightarrow> u64 option" where
  "peekBufLen tag sd =
     (let header_end = des_offset sd + size_of tag + 8
      in if size_of (workingStr sd) < header_end \<or> \<not> tag_matches tag sd then None
         else let n = field_len tag sd
              in if size_of (workingStr sd) - header_end \<le> n then None else Some n)"

definition getBufLen :: "string \<Rightarrow> nixlSerDes \<Rightarrow> int" where
  "getBufLen tag sd =
     (if \<not> header_fits tag sd then -1
      else if \<not> tag_matches tag sd then -1
      else sint (field_len tag sd))"

definition getBuf :: "string \<Rightarrow> u64 \<Rightarrow> nixlSerDes \<Rightarrow> nixl_status_t \<times> string \<times> nixlSerDes" where
  "getBuf tag n sd =
     (if \<not> header_fits tag sd then (NIXL_ERR_MISMATCH, '''', sd)
      else if \<not> tag_matches tag sd then (NIXL_ERR_MISMATCH, '''', sd)
      else let tmp = field_len tag sd;
               sd1 = sd\<lparr>des_offset := des_offset sd + (size_of tag + 8)\<rparr>
           in if n \<noteq> tmp then (NIXL_ERR_MISMATCH, '''', sd1)
              else if size_of (workingStr sd1) < des_offset sd1 + n + 1
              then (NIXL_ERR_MISMATCH, '''', sd1)
              else (NIXL_SUCCESS, take (unat n) (drop (unat (des_offset sd1)) (workingStr sd1)),
                    sd1\<lparr>des_offset := des_offset sd1 + (n + 1)\<rparr>))"

definition exportStr :: "nixlSerDes \<Rightarrow> string" where
  "exportStr sd = workingStr sd"

definition importStr :: "string \<Rightarrow> nixlSerDes \<Rightarrow> nixl_status_t \<times> nixlSerDes" where
  "importStr sdbuf sd =
     (if take 11 sdbuf \<noteq> ''nixlSerDes|'' then (NIXL_ERR_MISMATCH, sd)
      else (NIXL_SUCCESS, sd\<lparr>workingStr := sdbuf, mode := DESERIALIZE, des_offset := 11\<rparr>))"

subsection \<open>Well-formed readers\<close>

definition serdes_wf :: "nixlSerDes \<Rightarrow> bool" where
  "serdes_wf sd \<longleftrightarrow> fits (workingStr sd) \<and> unat (des_offset sd) \<le> length (workingStr sd)"

text \<open>Tags are string literals of the caller; the bound keeps position plus header in 64 bits.\<close>

definition short_tag :: "string \<Rightarrow> bool" where
  "short_tag tag \<longleftrightarrow> length tag < 2 ^ 32"

lemma short_tag_size [nixl_word]: "short_tag tag \<Longrightarrow> unat (size_of tag) = length tag"
  by (simp add: short_tag_def unat_size_of fits_def)

lemma header_end:
  assumes "serdes_wf sd" and "short_tag tag"
  shows "unat (des_offset sd + size_of tag) = unat (des_offset sd) + length tag"
    and "unat (des_offset sd + size_of tag + 8) = unat (des_offset sd) + length tag + 8"
proof -
  show 1: "unat (des_offset sd + size_of tag) = unat (des_offset sd) + length tag"
    using assms by (subst unat_add_u64) (auto simp: short_tag_size serdes_wf_def fits_def short_tag_def)
  show "unat (des_offset sd + size_of tag + 8) = unat (des_offset sd) + length tag + 8"
    using assms by (subst unat_add_u64) (auto simp: 1 serdes_wf_def fits_def short_tag_def)
qed

lemma header_fits_iff:
  assumes "serdes_wf sd" and "short_tag tag"
  shows "header_fits tag sd \<longleftrightarrow> unat (des_offset sd) + length tag + 8 \<le> length (workingStr sd)"
  using assms by (auto simp: header_fits_def word_less_nat_alt header_end unat_size_of serdes_wf_def)

text \<open>Whatever length a field declares, the position the reader stores never passes the end
  of the buffer: either the sum fits, or it wraps below the size it was compared with.\<close>

lemma size_check: "fits ws \<Longrightarrow> \<not> size_of ws < x \<Longrightarrow> unat x \<le> length ws"
  by (simp add: word_less_nat_alt unat_size_of not_less)

lemma header_end_in_buffer:
  assumes "serdes_wf sd" and "short_tag tag" and "header_fits tag sd"
  shows "unat (des_offset sd + (size_of tag + 8)) \<le> length (workingStr sd)"
  using assms by (simp add: header_fits_iff header_end add.assoc [symmetric])

lemma getStr_wf:
  assumes "serdes_wf sd" and "short_tag tag"
  shows "serdes_wf (snd (getStr tag sd))"
  using assms header_end_in_buffer [OF assms]
  by (auto simp: getStr_def Let_def serdes_wf_def ac_simps dest: size_check)

lemma getBuf_wf:
  assumes "serdes_wf sd" and "short_tag tag"
  shows "serdes_wf (snd (snd (getBuf tag n sd)))"
  using assms header_end_in_buffer [OF assms]
  by (auto simp: getBuf_def Let_def serdes_wf_def ac_simps dest: size_check)

lemma importStr_wf:
  assumes "importStr b sd = (NIXL_SUCCESS, sd')" and "fits b"
  shows "serdes_wf sd'"
proof -
  have "take 11 b = ''nixlSerDes|''" and sd': "sd' = sd\<lparr>workingStr := b, mode := DESERIALIZE, des_offset := 11\<rparr>"
    using assms(1) by (auto simp: importStr_def split: if_splits)
  then have "length (take 11 b) = 11" by simp
  then have "11 \<le> length b" by simp
  with assms(2) show ?thesis by (simp add: serdes_wf_def sd')
qed

text \<open>Any sequence of reads on any received buffer, as a step system.\<close>

definition serdes_import_of :: "string \<Rightarrow> nixlSerDes \<Rightarrow> bool" where
  "serdes_import_of b sd \<longleftrightarrow> fits b \<and> importStr b serdes_new = (NIXL_SUCCESS, sd)"

inductive serdes_read :: "nixlSerDes \<Rightarrow> nixlSerDes \<Rightarrow> bool" where
  read_str: "short_tag tag \<Longrightarrow> serdes_read sd (snd (getStr tag sd))"
| read_buf: "short_tag tag \<Longrightarrow> serdes_read sd (snd (snd (getBuf tag n sd)))"

interpretation serdes_reader: invariant_system "serdes_import_of b" serdes_read serdes_wf
proof unfold_locales
  fix s
  assume "serdes_import_of b s"
  then show "serdes_wf s"
    by (auto simp: serdes_import_of_def intro: importStr_wf)
next
  fix s t
  assume "serdes_wf s" and "serdes_read s t"
  then show "serdes_wf t"
    by (auto elim!: serdes_read.cases intro: getStr_wf getBuf_wf)
qed

subsection \<open>Fields\<close>

definition field_image :: "string \<Rightarrow> string \<Rightarrow> string" where
  "field_image tag str = tag @ u64_bytes (size_of str) @ str @ ''|''"

definition remaining :: "nixlSerDes \<Rightarrow> string" where
  "remaining sd = drop (unat (des_offset sd)) (workingStr sd)"

definition advance :: "string \<Rightarrow> nixlSerDes \<Rightarrow> nixlSerDes" where
  "advance f sd = sd\<lparr>des_offset := des_offset sd + size_of f\<rparr>"

lemma addStr_image [simp]:
  "addStr tag str sd = (NIXL_SUCCESS, sd\<lparr>workingStr := workingStr sd @ field_image tag str\<rparr>)"
  by (simp add: addStr_def field_image_def)

lemma addBuf_image [simp]:
  "addBuf tag buf sd = (NIXL_SUCCESS, sd\<lparr>workingStr := workingStr sd @ field_image tag buf\<rparr>)"
  by (simp add: addBuf_def field_image_def)

lemma length_field_image: "length (field_image tag str) = length tag + 8 + length str + 1"
  by (simp add: field_image_def)

lemma drop_remaining: "drop k (remaining sd) = drop (unat (des_offset sd) + k) (workingStr sd)"
  by (simp add: remaining_def add.commute)

lemma remaining_bounds:
  assumes "serdes_wf sd" and "remaining sd = f @ rest"
  shows "unat (des_offset sd) + length f \<le> length (workingStr sd)"
    and "unat (des_offset sd + size_of f) = unat (des_offset sd) + length f"
proof -
  have "length (remaining sd) = length f + length rest"
    using assms(2) by simp
  then show le: "unat (des_offset sd) + length f \<le> length (workingStr sd)"
    using assms(1) by (auto simp: remaining_def serdes_wf_def)
  have "fits f"
    using le assms(1) by (simp add: serdes_wf_def fits_def)
  then show "unat (des_offset sd + size_of f) = unat (des_offset sd) + length f"
    using le assms(1) by (subst unat_add_u64) (auto simp: unat_size_of serdes_wf_def fits_def)
qed

lemma advance_remaining:
  assumes "serdes_wf sd" and "remaining sd = f @ rest"
  shows "serdes_wf (advance f sd)" and "remaining (advance f sd) = rest"
proof -
  note b = remaining_bounds [OF assms]
  show "serdes_wf (advance f sd)"
    using b assms(1) by (simp add: serdes_wf_def advance_def)
  have "remaining (advance f sd) = drop (length f) (remaining sd)"
    using b by (simp add: drop_remaining) (simp add: remaining_def advance_def)
  then show "remaining (advance f sd) = rest"
    by (simp add: assms(2))
qed

lemma workingStr_advance [simp]: "workingStr (advance f sd) = workingStr sd"
  by (simp add: advance_def)

text \<open>Reading a field that is there: the header fits, the tag matches, the declared length is
  the length of the data, and the data and its terminator are in the buffer.\<close>

lemma field_header:
  assumes wf: "serdes_wf sd" and tag: "short_tag tag"
    and rem: "remaining sd = field_image tag str @ rest"
  shows "header_fits tag sd" and "tag_matches tag sd" and "field_len tag sd = size_of str"
proof -
  have b: "unat (des_offset sd) + length (field_image tag str) \<le> length (workingStr sd)"
    by (rule remaining_bounds [OF wf rem])
  show "header_fits tag sd"
    using b by (simp add: header_fits_iff [OF wf tag] length_field_image)
  show "tag_matches tag sd"
    using rem by (simp add: tag_matches_def remaining_def field_image_def)
  have "drop (unat (des_offset sd + size_of tag)) (workingStr sd) = drop (length tag) (remaining sd)"
    by (simp only: header_end [OF wf tag] drop_remaining)
  then show "field_len tag sd = size_of str"
    by (simp add: field_len_def rem field_image_def)
qed

lemma field_body:
  assumes wf: "serdes_wf sd" and tag: "short_tag tag"
    and rem: "remaining sd = field_image tag str @ rest"
  shows "\<not> size_of (workingStr sd) < des_offset sd + (size_of tag + 8) + size_of str + 1"
    and "take (unat (size_of str)) (drop (unat (des_offset sd + (size_of tag + 8))) (workingStr sd)) = str"
    and "des_offset sd + (size_of tag + 8) + (size_of str + 1) = des_offset sd + size_of (field_image tag str)"
proof -
  have sz: "size_of (field_image tag str) = size_of tag + 8 + size_of str + 1"
    by (simp add: size_of_def length_field_image)
  show end_eq: "des_offset sd + (size_of tag + 8) + (size_of str + 1) = des_offset sd + size_of (field_image tag str)"
    by (simp add: sz)
  note b = remaining_bounds [OF wf rem]
  have "\<not> size_of (workingStr sd) < des_offset sd + size_of (field_image tag str)"
    using b wf by (simp add: word_less_nat_alt unat_size_of serdes_wf_def)
  then show "\<not> size_of (workingStr sd) < des_offset sd + (size_of tag + 8) + size_of str + 1"
    using end_eq by (simp add: add.assoc)
  have "fits str"
    using b(1) wf by (simp add: serdes_wf_def fits_def length_field_image)
  moreover have "drop (unat (des_offset sd + (size_of tag + 8))) (workingStr sd)
      = drop (length tag + 8) (remaining sd)"
    by (simp only: header_end [OF wf tag] drop_remaining add.assoc [symmetric])
  ultimately show "take (unat (size_of str)) (drop (unat (des_offset sd + (size_of tag + 8))) (workingStr sd)) = str"
    by (simp add: unat_size_of rem field_image_def)
qed

lemma getStr_field:
  assumes "serdes_wf sd" and "short_tag tag" and "remaining sd = field_image tag str @ rest"
  shows "getStr tag sd = (str, advance (field_image tag str) sd)"
  using field_header [OF assms] field_body [OF assms]
  by (simp add: getStr_def Let_def advance_def)

lemma getBuf_field:
  assumes "serdes_wf sd" and "short_tag tag" and "remaining sd = field_image tag str @ rest"
  shows "getBuf tag (size_of str) sd = (NIXL_SUCCESS, str, advance (field_image tag str) sd)"
  using field_header [OF assms] field_body [OF assms]
  by (simp add: getBuf_def Let_def advance_def)

lemma peekBufLen_field:
  assumes "serdes_wf sd" and "short_tag tag" and "remaining sd = field_image tag str @ rest"
  shows "peekBufLen tag sd = Some (size_of str)"
proof -
  have hdr: "unat (des_offset sd) + length tag + 8 \<le> length (workingStr sd)"
    using field_header(1) [OF assms] assms(1,2) by (simp add: header_fits_iff)
  have le: "des_offset sd + size_of tag + 8 \<le> size_of (workingStr sd)"
    using hdr assms(1,2) by (simp add: word_le_nat_alt header_end unat_size_of serdes_wf_def)
  have "length str < length (workingStr sd) - (unat (des_offset sd) + length tag + 8)"
    using remaining_bounds(1) [OF assms(1,3)] by (simp add: length_field_image)
  moreover have "fits str"
    using remaining_bounds(1) [OF assms(1,3)] assms(1) by (simp add: serdes_wf_def fits_def length_field_image)
  ultimately have "\<not> size_of (workingStr sd) - (des_offset sd + size_of tag + 8) \<le> size_of str"
    using le assms(1,2) by (simp add: word_le_nat_alt unat_sub_u64 header_end unat_size_of serdes_wf_def)
  then show ?thesis
    using le field_header [OF assms] by (simp add: peekBufLen_def Let_def not_less)
qed

subsection \<open>Whole messages\<close>

fun write_fields :: "(string \<times> string) list \<Rightarrow> nixlSerDes \<Rightarrow> nixlSerDes" where
  "write_fields [] sd = sd"
| "write_fields ((tag, str) # fs) sd = write_fields fs (snd (addStr tag str sd))"

fun read_fields :: "string list \<Rightarrow> nixlSerDes \<Rightarrow> string list" where
  "read_fields [] sd = []"
| "read_fields (tag # tags) sd = (let (str, sd') = getStr tag sd in str # read_fields tags sd')"

lemma workingStr_write_fields:
  "workingStr (write_fields fs sd) = workingStr sd @ concat (map (\<lambda>(tag, str). field_image tag str) fs)"
  by (induction fs sd rule: write_fields.induct) simp_all

lemma read_fields_images:
  assumes "serdes_wf sd" and "\<forall>(tag, str) \<in> set fs. short_tag tag"
    and "remaining sd = concat (map (\<lambda>(tag, str). field_image tag str) fs) @ rest"
  shows "read_fields (map fst fs) sd = map snd fs"
  using assms
proof (induction fs arbitrary: sd)
  case Nil
  then show ?case by simp
next
  case (Cons f fs)
  obtain tag str where f: "f = (tag, str)" by (cases f)
  have rem: "remaining sd = field_image tag str @ (concat (map (\<lambda>(tag, str). field_image tag str) fs) @ rest)"
    using Cons.prems(3) by (simp add: f)
  have tag: "short_tag tag"
    using Cons.prems(2) by (simp add: f)
  have "read_fields (map fst fs) (advance (field_image tag str) sd) = map snd fs"
    by (rule Cons.IH) (use advance_remaining [OF Cons.prems(1) rem] Cons.prems(2) in auto)
  then show ?case
    by (simp add: f getStr_field [OF Cons.prems(1) tag rem])
qed

lemma importStr_magic:
  "importStr (serdes_magic @ bs) sd = (NIXL_SUCCESS, sd\<lparr>workingStr := serdes_magic @ bs, mode := DESERIALIZE, des_offset := 11\<rparr>)"
  by (simp add: importStr_def serdes_magic_def)

lemma remaining_import:
  "importStr (serdes_magic @ bs) sd = (NIXL_SUCCESS, sd') \<Longrightarrow> remaining sd' = bs"
  by (auto simp: importStr_magic remaining_def) (simp add: serdes_magic_def)


subsection \<open>Properties\<close>

text \<open>C36: A message is read back as it was written. The tagged strings put into a fresh
  serializer, exported and imported by a peer, are returned by the peer's reads in order, for
  every number of fields and every content, field separators included.\<close>

theorem serdes_round_trip:
  assumes "\<forall>(tag, str) \<in> set fs. short_tag tag"
    and "fits (workingStr (write_fields fs serdes_new))"
  shows "\<exists>sd. importStr (exportStr (write_fields fs serdes_new)) serdes_new = (NIXL_SUCCESS, sd) \<and>
    read_fields (map fst fs) sd = map snd fs"
proof -
  let ?bs = "concat (map (\<lambda>(tag, str). field_image tag str) fs)"
  let ?m = "exportStr (write_fields fs serdes_new)"
  have m: "?m = serdes_magic @ ?bs"
    unfolding exportStr_def workingStr_write_fields by (simp add: serdes_new_def)
  obtain sd where i: "importStr ?m serdes_new = (NIXL_SUCCESS, sd)"
    unfolding m importStr_magic by blast
  have "serdes_wf sd"
    by (rule importStr_wf [OF i]) (simp only: exportStr_def assms(2))
  moreover have "remaining sd = ?bs"
    using i unfolding m by (rule remaining_import)
  ultimately have "read_fields (map fst fs) sd = map snd fs"
    using assms(1) read_fields_images [where rest = "[]"] by (simp only: append_Nil2)
  with i show ?thesis by blast
qed

theorem serdes_round_trip_witness:
  "\<exists>sd. importStr (exportStr (write_fields [(''Agent'', ''a|b''), ([], ''|'')] serdes_new)) serdes_new = (NIXL_SUCCESS, sd) \<and>
    read_fields [''Agent'', []] sd = [''a|b'', ''|'']"
  using serdes_round_trip [of "[(''Agent'', ''a|b''), ([], ''|'')]"]
  by (simp add: short_tag_def fits_def workingStr_write_fields serdes_new_def serdes_magic_def length_field_image)



text \<open>The bounds check of \<open>getStr\<close> adds a received length to the position in 64 bits. A
  declared length so large that the sum wraps passes the check: the call returns the whole rest
  of the buffer as the field and moves the position back to the end of the field's header or
  before it, instead of rejecting the field.\<close>

theorem getStr_accepts_wrapping_length:
  assumes wf: "serdes_wf sd" and tag: "short_tag tag" "header_fits tag sd" "tag_matches tag sd"
    and n: "2 ^ 64 \<le> unat (des_offset sd) + length tag + 8 + unat (field_len tag sd) + 1"
  shows "fst (getStr tag sd) = drop (unat (des_offset sd) + length tag + 8) (workingStr sd) \<and>
    unat (des_offset (snd (getStr tag sd))) \<le> unat (des_offset sd) + length tag + 8"
proof -
  define p where "p = des_offset sd + size_of tag + 8"
  define m where "m = field_len tag sd"
  have p: "unat p = unat (des_offset sd) + length tag + 8" "unat p \<le> length (workingStr sd)"
    using header_end(2) [OF wf tag(1)] header_fits_iff [OF wf tag(1)] tag(2) by (simp_all only: p_def) 
  have f: "fits (workingStr sd)" "length (workingStr sd) < 2 ^ 63" using wf by (simp_all add: serdes_wf_def fits_def)
  have n': "2 ^ 64 \<le> unat p + unat m + 1" using n by (simp only: p m_def)
  have "unat (p + m + 1) \<le> unat p"
  proof -
    have a: "unat (p + m) = (if unat p + unat m < 2 ^ 64 then unat p + unat m else unat p + unat m - 2 ^ 64)"
      by (simp add: unat_plus_if')
    have b: "unat (p + m + 1) = (if unat (p + m) + 1 < 2 ^ 64 then unat (p + m) + 1 else unat (p + m) + 1 - 2 ^ 64)"
      using unat_plus_if' [of "p + m" 1] by simp
    show ?thesis using a b n' unat_lt_u64 [of m] by (simp split: if_splits)
  qed
  then have e: "unat (p + m + 1) \<le> unat p" "\<not> size_of (workingStr sd) < p + m + 1"
    using p f by (simp_all add: word_less_nat_alt unat_size_of)
  then have "\<not> size_of (workingStr sd) < des_offset sd + (size_of tag + 8) + m + 1"
    by (simp add: p_def add.assoc)
  then have "getStr tag sd = (take (unat m) (drop (unat (des_offset sd + (size_of tag + 8))) (workingStr sd)),
      sd\<lparr>des_offset := des_offset sd + (size_of tag + 8) + (m + 1)\<rparr>)"
    using tag by (simp add: getStr_def Let_def m_def)
  then have g: "getStr tag sd = (take (unat m) (drop (unat p) (workingStr sd)), sd\<lparr>des_offset := p + m + 1\<rparr>)"
    by (simp only: p_def add.assoc)
  have "length (drop (unat p) (workingStr sd)) \<le> unat m"
    using n' f by simp
  then show ?thesis
    using e(1) p(1) by (simp add: g)
qed

theorem getStr_accepts_wrapping_length_witness:
  "let sd = \<lparr>workingStr = ''nixlSerDes|t'' @ u64_bytes (-1) @ ''abc'', des_offset = 11, mode = DESERIALIZE\<rparr>
   in fst (getStr ''t'' sd) = ''abc'' \<and> unat (des_offset (snd (getStr ''t'' sd))) \<le> 20"
proof -
  define sd where "sd = \<lparr>workingStr = ''nixlSerDes|t'' @ u64_bytes (-1) @ ''abc'', des_offset = 11, mode = DESERIALIZE\<rparr>"
  have f: "field_len ''t'' sd = -1"
    by (simp add: field_len_def size_of_def sd_def)
  have "fst (getStr ''t'' sd) = drop (unat (des_offset sd) + length ''t'' + 8) (workingStr sd) \<and>
    unat (des_offset (snd (getStr ''t'' sd))) \<le> unat (des_offset sd) + length ''t'' + 8"
    by (rule getStr_accepts_wrapping_length)
      (simp_all only: f unat_SIZE_MAX,
       simp_all add: sd_def serdes_wf_def fits_def short_tag_def header_fits_def tag_matches_def size_of_def)
  then show ?thesis by (simp add: Let_def flip: sd_def) (simp add: sd_def)
qed

end
