(* ===== verification/Nixl_Descriptors.thy ===== *)
theory Nixl_Descriptors
  imports Nixl_SerDes
begin

text \<open>
  Descriptors and descriptor lists: \<open>src/api/cpp/nixl_descriptors.h\<close>,
  \<open>src/api/cpp/backend/backend_aux.h\<close> and \<open>src/infra/nixl_descriptors.cpp\<close>. C++ inheritance is
  record extension, so a function of \<open>nixlBasicDesc\<close> applies to every descriptor type, as
  the base-class methods do. Addresses, lengths and device ids are 64-bit words. A backend's
  metadata pointer is its address, 0 for a null pointer. The file also holds the byte images of
  the descriptors and the wire form of descriptor lists, with their round trips.
\<close>

type_synonym md_ptr = nat

record nixlBasicDesc =
  addr :: u64
  len :: u64
  devId :: u64

record nixlStrideDesc = nixlBasicDesc +
  stride :: u64
  count :: u64

record nixlBlobDesc = nixlBasicDesc +
  metaInfo :: blob

record nixlRemoteDesc = nixlBasicDesc +
  remoteAgent :: string

record nixlMetaDesc = nixlBasicDesc +
  metadataP :: md_ptr

record nixlSectionDesc = nixlMetaDesc +
  metaBlob :: blob

record nixlRemoteMetaDesc = nixlMetaDesc +
  metaRemoteAgent :: string

record nixlMetaStrideDesc = nixlStrideDesc +
  strideMetadataP :: md_ptr
  start_idx :: u64

abbreviation basic :: "'a nixlBasicDesc_scheme \<Rightarrow> nixlBasicDesc" where
  "basic d \<equiv> nixlBasicDesc.truncate d"

lemma basic_fields [simp]:
  "addr (basic d) = addr d" "len (basic d) = len d" "devId (basic d) = devId d"
  by (simp_all add: nixlBasicDesc.truncate_def)

lemma basic_basic [simp]: "basic (d :: nixlBasicDesc) = d"
  by (simp add: nixlBasicDesc.truncate_def)

lemma basic_eq_iff: "basic d = basic e \<longleftrightarrow> addr d = addr e \<and> len d = len e \<and> devId d = devId e"
  by (auto simp: nixlBasicDesc.truncate_def)

subsection \<open>Comparison\<close>

definition basic_less :: "'a nixlBasicDesc_scheme \<Rightarrow> 'b nixlBasicDesc_scheme \<Rightarrow> bool" where
  "basic_less d e =
     (if devId d \<noteq> devId e then devId d < devId e
      else if addr d \<noteq> addr e then addr d < addr e
      else len d < len e)"

definition basic_eq :: "'a nixlBasicDesc_scheme \<Rightarrow> 'b nixlBasicDesc_scheme \<Rightarrow> bool" where
  "basic_eq lhs rhs \<longleftrightarrow> addr lhs = addr rhs \<and> len lhs = len rhs \<and> devId lhs = devId rhs"

definition blob_desc_eq :: "nixlBlobDesc \<Rightarrow> nixlBlobDesc \<Rightarrow> bool" where
  "blob_desc_eq lhs rhs \<longleftrightarrow> basic_eq lhs rhs \<and> metaInfo lhs = metaInfo rhs"

definition meta_desc_eq :: "'a nixlMetaDesc_scheme \<Rightarrow> 'b nixlMetaDesc_scheme \<Rightarrow> bool" where
  "meta_desc_eq lhs rhs \<longleftrightarrow> basic_eq lhs rhs \<and> metadataP lhs = metadataP rhs"

definition section_desc_eq :: "nixlSectionDesc \<Rightarrow> nixlSectionDesc \<Rightarrow> bool" where
  "section_desc_eq lhs rhs \<longleftrightarrow> meta_desc_eq lhs rhs"

definition remote_desc_eq :: "nixlRemoteDesc \<Rightarrow> nixlRemoteDesc \<Rightarrow> bool" where
  "remote_desc_eq lhs rhs \<longleftrightarrow> basic_eq lhs rhs \<and> remoteAgent lhs = remoteAgent rhs"

definition stride_desc_eq :: "nixlStrideDesc \<Rightarrow> nixlStrideDesc \<Rightarrow> bool" where
  "stride_desc_eq lhs rhs \<longleftrightarrow> basic_eq lhs rhs \<and> stride lhs = stride rhs \<and> count lhs = count rhs"

text \<open>\<open>operator<\<close> is a linear order on \<open>nixlBasicDesc\<close>, which makes the library's notions of
  sorted lists and sorting available for section lists.\<close>

instantiation nixlBasicDesc_ext :: (linorder) linorder
begin

definition less_nixlBasicDesc_ext :: "'a nixlBasicDesc_scheme \<Rightarrow> 'a nixlBasicDesc_scheme \<Rightarrow> bool" where
  "less_nixlBasicDesc_ext d e \<longleftrightarrow>
     basic_less d e \<or> basic_eq d e \<and> nixlBasicDesc.more d < nixlBasicDesc.more e"

definition less_eq_nixlBasicDesc_ext :: "'a nixlBasicDesc_scheme \<Rightarrow> 'a nixlBasicDesc_scheme \<Rightarrow> bool" where
  "less_eq_nixlBasicDesc_ext d e \<longleftrightarrow>
     basic_less d e \<or> basic_eq d e \<and> nixlBasicDesc.more d \<le> nixlBasicDesc.more e"

instance
  by intro_classes
    (auto simp: less_nixlBasicDesc_ext_def less_eq_nixlBasicDesc_ext_def basic_less_def basic_eq_def
          split: if_splits)

end

lemma basic_less_iff: "basic_less d e \<longleftrightarrow> basic d < basic e"
  by (auto simp: less_nixlBasicDesc_ext_def basic_less_def basic_eq_def)

lemma basic_eq_iff_basic: "basic_eq d e \<longleftrightarrow> basic d = basic e"
  by (auto simp: basic_eq_def basic_eq_iff)

lemma basic_leD: "basic d \<le> basic e \<Longrightarrow> devId d = devId e \<Longrightarrow> addr d \<le> addr e"
  by (auto simp: less_eq_nixlBasicDesc_ext_def basic_less_def basic_eq_def split: if_splits)

lemma basic_le_devId: "basic d \<le> basic e \<Longrightarrow> devId d \<le> devId e"
  by (auto simp: less_eq_nixlBasicDesc_ext_def basic_less_def basic_eq_def split: if_splits)

lemma basic_le_iff:
  "basic d \<le> basic e \<longleftrightarrow>
     devId d < devId e \<or> devId d = devId e \<and> (addr d < addr e \<or> addr d = addr e \<and> len d \<le> len e)"
  by (auto simp: less_eq_nixlBasicDesc_ext_def basic_less_def basic_eq_def split: if_splits)

subsection \<open>Ranges\<close>

lemma query_le_iff:
  "q \<le> basic e \<longleftrightarrow> devId q < devId e \<or> devId q = devId e \<and> (addr q < addr e \<or> addr q = addr e \<and> len q \<le> len e)"
  "basic e \<le> q \<longleftrightarrow> devId e < devId q \<or> devId e = devId q \<and> (addr e < addr q \<or> addr e = addr q \<and> len e \<le> len q)"
  using basic_le_iff [of q e] basic_le_iff [of e q] by simp_all

definition covers :: "'a nixlBasicDesc_scheme \<Rightarrow> 'b nixlBasicDesc_scheme \<Rightarrow> bool" where
  "covers d query =
     (if devId d \<noteq> devId query \<or> addr d > addr query then False
      else if len d = SIZE_MAX then len query \<le> SIZE_MAX - addr query
      else let end = addr d + len d
           in addr query \<le> end \<and> len query \<le> end - addr query)"

definition overlaps :: "'a nixlBasicDesc_scheme \<Rightarrow> 'b nixlBasicDesc_scheme \<Rightarrow> bool" where
  "overlaps d query =
     (if devId d \<noteq> devId query then False
      else if addr d + len d \<le> addr query \<or> addr query + len query \<le> addr d then False
      else True)"

text \<open>The end of a range as a natural number, so that it cannot wrap, and the ranges whose end
  is an address.\<close>

definition range_end :: "'a nixlBasicDesc_scheme \<Rightarrow> nat" where
  "range_end d = unat (addr d) + unat (len d)"

definition no_wrap :: "'a nixlBasicDesc_scheme \<Rightarrow> bool" where
  "no_wrap d \<longleftrightarrow> range_end d < 2 ^ 64"

lemma unat_range_end: "no_wrap d \<Longrightarrow> unat (addr d + len d) = range_end d"
  by (simp add: no_wrap_def range_end_def unat_add_u64)

lemma wrapped_end: "\<not> no_wrap d \<Longrightarrow> addr d + len d < addr d"
proof -
  assume "\<not> no_wrap d"
  then have "unat (addr d) + unat (len d) \<ge> 2 ^ 64"
    by (simp add: no_wrap_def range_end_def)
  then have "unat (addr d + len d) = unat (addr d) + unat (len d) - 2 ^ 64"
    using unat_lt_u64 [of "addr d"] unat_lt_u64 [of "len d"]
    by (simp add: unat_word_ariths mod_if)
  then show ?thesis
    using unat_lt_u64 [of "len d"] \<open>unat (addr d) + unat (len d) \<ge> 2 ^ 64\<close>
    by (simp add: word_less_nat_alt)
qed

lemma covers_iff:
  "covers d q \<longleftrightarrow> devId d = devId q \<and> addr d \<le> addr q \<and>
     (if len d = SIZE_MAX then no_wrap q else no_wrap d \<and> range_end q \<le> range_end d)"
proof (cases "devId d = devId q \<and> addr d \<le> addr q")
  case False
  then show ?thesis by (auto simp: covers_def not_less)
next
  case guard: True
  show ?thesis
  proof (cases "len d = SIZE_MAX")
    case True
    have "unat (SIZE_MAX - addr q) = 2 ^ 64 - 1 - unat (addr q)"
      by (simp add: unat_sub_u64 unat_SIZE_MAX)
    then have "len q \<le> SIZE_MAX - addr q \<longleftrightarrow> no_wrap q"
      using unat_lt_u64 [of "addr q"]
      by (auto simp: word_le_nat_alt no_wrap_def range_end_def)
    with guard True show ?thesis by (auto simp: covers_def)
  next
    case finite: False
    show ?thesis
    proof (cases "no_wrap d")
      case True
      have "len q \<le> addr d + len d - addr q \<longleftrightarrow> range_end q \<le> range_end d"
        if "addr q \<le> addr d + len d"
        using that True by (auto simp: word_le_nat_alt unat_sub_u64 unat_range_end range_end_def [of q])
      moreover have "addr q \<le> addr d + len d" if "range_end q \<le> range_end d"
        using that True by (simp add: word_le_nat_alt unat_range_end range_end_def [of q])
      ultimately show ?thesis
        using guard finite True by (auto simp: covers_def Let_def)
    next
      case False
      then have "\<not> addr q \<le> addr d + len d"
        using guard wrapped_end [of d] by auto
      with guard finite False show ?thesis by (auto simp: covers_def Let_def)
    qed
  qed
qed

lemma covers_no_wrap: "covers d q \<Longrightarrow> no_wrap q"
  by (auto simp: covers_iff no_wrap_def split: if_splits)

lemma covers_basic [simp]: "covers d (basic q) \<longleftrightarrow> covers d q" "covers (basic d) q \<longleftrightarrow> covers d q"
  by (simp_all add: covers_def)

lemma overlaps_iff:
  assumes "no_wrap d" and "no_wrap q"
  shows "overlaps d q \<longleftrightarrow> devId d = devId q \<and> unat (addr q) < range_end d \<and> unat (addr d) < range_end q"
  using assms by (auto simp: overlaps_def word_le_nat_alt unat_range_end not_le)

subsection \<open>Byte images of descriptors\<close>

text \<open>The object representation of the fixed-size descriptor types: \<open>sizeof(nixlBasicDesc)\<close> is
  24 and \<open>sizeof(nixlStrideDesc)\<close> is 40, with the fields in declaration order and no padding.\<close>

definition basic_serialize :: "'a nixlBasicDesc_scheme \<Rightarrow> blob" where
  "basic_serialize d = u64_bytes (addr d) @ u64_bytes (len d) @ u64_bytes (devId d)"

definition basic_load :: "blob \<Rightarrow> nixlBasicDesc" where
  "basic_load bs =
     \<lparr>addr = bytes_u64 (take 8 bs), len = bytes_u64 (take 8 (drop 8 bs)),
      devId = bytes_u64 (take 8 (drop 16 bs))\<rparr>"

definition basic_of_blob :: "blob \<Rightarrow> nixlBasicDesc" where
  "basic_of_blob bs =
     (if length bs = 24 then basic_load bs else \<lparr>addr = 0, len = 0, devId = 0\<rparr>)"

definition stride_image :: "nixlStrideDesc \<Rightarrow> blob" where
  "stride_image d = basic_serialize d @ u64_bytes (stride d) @ u64_bytes (count d)"

definition stride_load :: "blob \<Rightarrow> nixlStrideDesc" where
  "stride_load bs =
     \<lparr>addr = bytes_u64 (take 8 bs), len = bytes_u64 (take 8 (drop 8 bs)),
      devId = bytes_u64 (take 8 (drop 16 bs)), stride = bytes_u64 (take 8 (drop 24 bs)),
      count = bytes_u64 (take 8 (drop 32 bs))\<rparr>"

definition blob_desc_serialize :: "nixlBlobDesc \<Rightarrow> blob" where
  "blob_desc_serialize d = basic_serialize d @ metaInfo d"

definition blob_desc_of_blob :: "blob \<Rightarrow> nixlBlobDesc" where
  "blob_desc_of_blob bs =
     (if 24 < length bs
      then nixlBasicDesc.extend (basic_load bs) \<lparr>metaInfo = take (length bs - 24) (drop 24 bs)\<rparr>
      else if length bs = 24 then nixlBasicDesc.extend (basic_load bs) \<lparr>metaInfo = []\<rparr>
      else \<lparr>addr = 0, len = 0, devId = 0, metaInfo = []\<rparr>)"

definition section_desc_serialize :: "nixlSectionDesc \<Rightarrow> blob" where
  "section_desc_serialize d = basic_serialize d @ metaBlob d"

definition remote_desc_serialize :: "nixlRemoteDesc \<Rightarrow> blob" where
  "remote_desc_serialize d = basic_serialize d @ remoteAgent d"

definition remote_desc_of_blob :: "blob \<Rightarrow> nixlRemoteDesc" where
  "remote_desc_of_blob bs =
     (if length bs < 24 then \<lparr>addr = 0, len = 0, devId = 0, remoteAgent = []\<rparr>
      else if 24 < length bs then nixlBasicDesc.extend (basic_load bs) \<lparr>remoteAgent = drop 24 bs\<rparr>
      else nixlBasicDesc.extend (basic_load bs) \<lparr>remoteAgent = []\<rparr>)"

text \<open>What a section descriptor becomes on the receiving side: the same region, with the blob the
  backend published as its metadata, and the private metadata pointer left behind.\<close>

definition section_to_blob :: "nixlSectionDesc \<Rightarrow> nixlBlobDesc" where
  "section_to_blob d = \<lparr>addr = addr d, len = len d, devId = devId d, metaInfo = metaBlob d\<rparr>"

lemma length_basic_serialize [simp]: "length (basic_serialize d) = 24"
  by (simp add: basic_serialize_def)

lemma basic_load_serialize [simp]: "basic_load (basic_serialize d @ bs) = basic d"
  by (simp add: basic_load_def basic_serialize_def nixlBasicDesc.truncate_def)

lemma basic_load_serialize' [simp]: "basic_load (basic_serialize d) = basic d"
  using basic_load_serialize [of d "[]"] by simp

interpretation basic_codec: fixed_codec "basic_serialize :: nixlBasicDesc \<Rightarrow> blob" basic_of_blob 24
  by unfold_locales (simp_all add: basic_of_blob_def)

text \<open>Lists are copied as object representations, without the size test of the string constructor.\<close>

interpretation basic_image: fixed_codec "basic_serialize :: nixlBasicDesc \<Rightarrow> blob" basic_load 24
  by unfold_locales simp_all

interpretation stride_codec: fixed_codec stride_image stride_load 40
  by unfold_locales (simp_all add: stride_image_def stride_load_def basic_serialize_def)

lemma blob_desc_roundtrip [simp]: "blob_desc_of_blob (blob_desc_serialize d) = d"
  by (cases "metaInfo d = []")
    (simp_all add: blob_desc_of_blob_def blob_desc_serialize_def nixlBasicDesc.extend_def)

lemma remote_desc_roundtrip [simp]: "remote_desc_of_blob (remote_desc_serialize d) = d"
  by (cases "remoteAgent d = []")
    (simp_all add: remote_desc_of_blob_def remote_desc_serialize_def nixlBasicDesc.extend_def)

lemma section_desc_as_blob [simp]: "blob_desc_of_blob (section_desc_serialize d) = section_to_blob d"
  by (cases "metaBlob d = []")
    (simp_all add: blob_desc_of_blob_def section_desc_serialize_def section_to_blob_def
      nixlBasicDesc.extend_def)

lemma length_blob_desc_serialize: "24 \<le> length (blob_desc_serialize d)"
  by (simp add: blob_desc_serialize_def)

lemma length_section_desc_serialize: "24 \<le> length (section_desc_serialize d)"
  by (simp add: section_desc_serialize_def)

subsection \<open>Descriptor lists\<close>

record 'd nixlDescList =
  getType :: nixl_mem_t
  descs :: "'d list"

datatype out_of_range = OutOfRange

definition descCount :: "'d nixlDescList \<Rightarrow> nat" where
  "descCount l = length (descs l)"

definition isEmpty :: "'d nixlDescList \<Rightarrow> bool" where
  "isEmpty l \<longleftrightarrow> descs l = []"

definition dlist_addDesc :: "'d \<Rightarrow> 'd nixlDescList \<Rightarrow> 'd nixlDescList" where
  "dlist_addDesc d l = l\<lparr>descs := descs l @ [d]\<rparr>"

definition dlist_remDesc :: "int \<Rightarrow> 'd nixlDescList \<Rightarrow> out_of_range + 'd nixlDescList" where
  "dlist_remDesc index l =
     (if index < 0 \<or> int (length (descs l)) \<le> index then Inl OutOfRange
      else Inr (l\<lparr>descs := take (nat index) (descs l) @ drop (nat index + 1) (descs l)\<rparr>))"

definition dlist_trim :: "'a nixlBasicDesc_scheme nixlDescList \<Rightarrow> nixlBasicDesc nixlDescList" where
  "dlist_trim l = \<lparr>getType = getType l, descs = map basic (descs l)\<rparr>"

text \<open>\<open>getIndex\<close> of the base class: \<open>std::find\<close>, then \<open>NIXL_ERR_NOT_FOUND\<close> or the position.\<close>

fun find_index :: "('d \<Rightarrow> bool) \<Rightarrow> 'd list \<Rightarrow> nat" where
  "find_index p [] = 0"
| "find_index p (x # xs) = (if p x then 0 else Suc (find_index p xs))"

definition dlist_getIndex :: "'a nixlBasicDesc_scheme nixlDescList \<Rightarrow> nixlBasicDesc \<Rightarrow> int" where
  "dlist_getIndex l query =
     (let i = find_index (\<lambda>d. basic_eq d query) (descs l)
      in if i = length (descs l) then status_code NIXL_ERR_NOT_FOUND else int i)"

definition dlist_eq :: "('d \<Rightarrow> 'd \<Rightarrow> bool) \<Rightarrow> 'd nixlDescList \<Rightarrow> 'd nixlDescList \<Rightarrow> bool" where
  "dlist_eq eq lhs rhs =
     (if getType lhs \<noteq> getType rhs \<or> descCount lhs \<noteq> descCount rhs then False
      else list_all (\<lambda>i. eq (descs lhs ! i) (descs rhs ! i)) [0..<length (descs lhs)])"

lemma find_index_le: "find_index p xs \<le> length xs"
  by (induction xs) auto

lemma find_index_hit: "find_index p xs < length xs \<Longrightarrow> p (xs ! find_index p xs)"
  by (induction xs) (auto split: if_splits)

lemma find_index_first: "i < find_index p xs \<Longrightarrow> \<not> p (xs ! i)"
  by (induction xs arbitrary: i) (auto split: if_splits simp: nth_Cons split: nat.splits)


subsection \<open>Properties\<close>

text \<open>\<open>covers\<close> decides range inclusion exactly, in arithmetic that cannot wrap: a bounded
  region covers a query on the same device iff the query's start and end lie inside it, a region
  whose own end exceeds the address space covers nothing, and an unbounded region covers
  every later range whose end is an address.\<close>

theorem covers_exact:
  "covers d q \<longleftrightarrow> devId d = devId q \<and> addr d \<le> addr q \<and>
     (if len d = SIZE_MAX then unat (addr q) + unat (len q) < 2 ^ 64
      else unat (addr d) + unat (len d) < 2 ^ 64 \<and>
        unat (addr q) + unat (len q) \<le> unat (addr d) + unat (len d))"
  by (simp only: covers_iff no_wrap_def range_end_def)

text \<open>\<open>overlaps\<close> adds the unbounded length of a whole-object region to its address and wraps:
  a region from address 1 to the end of the address space does not overlap a range that it
  covers.\<close>

theorem overlaps_wraps_unbounded:
  "covers \<lparr>addr = 1, len = SIZE_MAX, devId = 0\<rparr> \<lparr>addr = 5, len = 5, devId = 0\<rparr> \<and>
   \<not> overlaps \<lparr>addr = 1, len = SIZE_MAX, devId = 0\<rparr> \<lparr>addr = 5, len = 5, devId = 0\<rparr>"
  by (simp add: covers_def overlaps_def)

end
