(* ===== verification/Nixl_DescSerial.thy ===== *)
theory Nixl_DescSerial
  imports Nixl_Descriptors
begin

text \<open>
  The wire form of descriptor lists: \<open>nixlDescList<T>::serialize\<close> and the deserializing
  constructor of \<open>src/infra/nixl_descriptors.cpp\<close>. The template dispatches on its element type;
  here \<open>desc_kind\<close> names the instantiations and the element's byte image is an argument. The
  constructor leaves the memory type uninitialised when it returns before reading it, which is
  the argument \<open>g\<close>, and its \<open>resize\<close> may throw \<open>std::length_error\<close>, which is a result.
\<close>

datatype desc_kind = KBasic | KMeta | KBlob | KSection | KRemote | KRemoteMeta | KStride | KMetaStride

definition list_name :: "desc_kind \<Rightarrow> string option" where
  "list_name k =
     (if k = KBasic then Some ''nixlBDList''
      else if k = KStride then Some ''nixlStrideDList''
      else if k = KBlob \<or> k = KSection then Some ''nixlSDList''
      else None)"

fun serialize_elms :: "('d \<Rightarrow> string) \<Rightarrow> 'd list \<Rightarrow> nixlSerDes \<Rightarrow> nixl_status_t \<times> nixlSerDes" where
  "serialize_elms img [] sd = (NIXL_SUCCESS, sd)"
| "serialize_elms img (d # ds) sd = st_then (addStr [] (img d) sd) (serialize_elms img ds)"

definition desclist_serialize ::
  "desc_kind \<Rightarrow> ('d \<Rightarrow> string) \<Rightarrow> 'd nixlDescList \<Rightarrow> nixlSerDes \<Rightarrow> nixl_status_t \<times> nixlSerDes" where
  "desclist_serialize k img l sd =
     (let n_desc = size_of (descs l)
      in if k = KRemoteMeta then (NIXL_ERR_NOT_SUPPORTED, sd)
         else if k = KMeta \<or> k = KMetaStride then (NIXL_ERR_INVALID_PARAM, sd)
         else case list_name k of
           None \<Rightarrow> (NIXL_ERR_INVALID_PARAM, sd)
         | Some name \<Rightarrow>
             st_then (addStr ''nixlDList'' name sd) (\<lambda>sd.
             st_then (addBuf ''t'' (u32_bytes (getType l)) sd) (\<lambda>sd.
             st_then (addBuf ''n'' (u64_bytes n_desc) sd) (\<lambda>sd.
               if n_desc = 0 then (NIXL_SUCCESS, sd)
               else if k = KBasic \<or> k = KStride
               then st_then (addStr [] (concat (map img (descs l))) sd) (\<lambda>sd. (NIXL_SUCCESS, sd))
               else serialize_elms img (descs l) sd))))"

datatype 'd dlist_load = Loaded "'d nixlDescList" | LengthError

fun load_elms :: "(string \<Rightarrow> 'd) \<Rightarrow> nat \<Rightarrow> 'd list \<Rightarrow> nixlSerDes \<Rightarrow> 'd list \<times> nixlSerDes" where
  "load_elms dec 0 acc sd = (acc, sd)"
| "load_elms dec (Suc n) acc sd =
     (let (str, sd') = getStr [] sd
      in if length str < 24 then ([], sd') else load_elms dec n (acc @ [dec str]) sd')"

text \<open>The contiguous case: \<open>w\<close> is \<open>sizeof(T)\<close>; the size test multiplies in 64 bits, and
  \<open>resize\<close> throws above \<open>PTRDIFF_MAX / w\<close>.\<close>

definition load_pod ::
  "string \<Rightarrow> nat \<Rightarrow> (string \<Rightarrow> 'd) \<Rightarrow> string \<Rightarrow> nixl_mem_t \<Rightarrow> u64 \<Rightarrow> nixlSerDes \<Rightarrow> 'd dlist_load \<times> nixlSerDes" where
  "load_pod name w dec str ty n_desc sd =
     (if str \<noteq> name then (Loaded \<lparr>getType = ty, descs = []\<rparr>, sd)
      else let (data, sd') = getStr [] sd
           in if size_of data \<noteq> n_desc * word_of_nat w then (Loaded \<lparr>getType = ty, descs = []\<rparr>, sd')
              else if (2 ^ 63 - 1) div w < unat n_desc then (LengthError, sd')
              else (Loaded \<lparr>getType = ty, descs = map dec (chunks w (unat n_desc) data)\<rparr>, sd'))"

definition desclist_load ::
  "desc_kind \<Rightarrow> (string \<Rightarrow> 'd) \<Rightarrow> nixl_mem_t \<Rightarrow> nixlSerDes \<Rightarrow> 'd dlist_load \<times> nixlSerDes" where
  "desclist_load k dec g sd =
     (let (str, sd1) = getStr ''nixlDList'' sd
      in if str = [] then (Loaded \<lparr>getType = g, descs = []\<rparr>, sd1)
         else if k = KMeta \<or> k = KSection \<or> k = KMetaStride then (Loaded \<lparr>getType = g, descs = []\<rparr>, sd1)
         else let (st_t, tbuf, sd2) = getBuf ''t'' 4 sd1
              in if st_t \<noteq> NIXL_SUCCESS then (Loaded \<lparr>getType = g, descs = []\<rparr>, sd2)
                 else let ty = bytes_u32 tbuf; (st_n, nbuf, sd3) = getBuf ''n'' 8 sd2
                      in if st_n \<noteq> NIXL_SUCCESS then (Loaded \<lparr>getType = ty, descs = []\<rparr>, sd3)
                         else let n_desc = bytes_u64 nbuf
                              in if k = KBasic then load_pod ''nixlBDList'' 24 dec str ty n_desc sd3
                                 else if k = KStride then load_pod ''nixlStrideDList'' 40 dec str ty n_desc sd3
                                 else if k = KBlob
                                 then if str \<noteq> ''nixlSDList'' then (Loaded \<lparr>getType = ty, descs = []\<rparr>, sd3)
                                      else let (ds, sd4) = load_elms dec (unat n_desc) [] sd3
                                           in (Loaded \<lparr>getType = ty, descs = ds\<rparr>, sd4)
                                 else (Loaded \<lparr>getType = ty, descs = []\<rparr>, sd3))"

subsection \<open>The image of a list\<close>

definition list_header :: "string \<Rightarrow> 'd nixlDescList \<Rightarrow> string" where
  "list_header name l = field_image ''nixlDList'' name @ field_image ''t'' (u32_bytes (getType l))
     @ field_image ''n'' (u64_bytes (size_of (descs l)))"

definition pod_list_image :: "string \<Rightarrow> ('d \<Rightarrow> string) \<Rightarrow> 'd nixlDescList \<Rightarrow> string" where
  "pod_list_image name img l = list_header name l @
     (if size_of (descs l) = 0 then [] else field_image [] (concat (map img (descs l))))"

definition elm_list_image :: "string \<Rightarrow> ('d \<Rightarrow> string) \<Rightarrow> 'd nixlDescList \<Rightarrow> string" where
  "elm_list_image name img l = list_header name l @
     (if size_of (descs l) = 0 then [] else concat (map (\<lambda>d. field_image [] (img d)) (descs l)))"

lemma serialize_elms_image:
  "serialize_elms img ds sd =
     (NIXL_SUCCESS, sd\<lparr>workingStr := workingStr sd @ concat (map (\<lambda>d. field_image [] (img d)) ds)\<rparr>)"
  by (induction ds arbitrary: sd) simp_all

lemma desclist_serialize_pod:
  assumes "k = KBasic \<or> k = KStride" and "list_name k = Some name"
  shows "desclist_serialize k img l sd =
    (NIXL_SUCCESS, sd\<lparr>workingStr := workingStr sd @ pod_list_image name img l\<rparr>)"
  using assms by (auto simp: desclist_serialize_def Let_def pod_list_image_def list_header_def)

lemma desclist_serialize_elms:
  assumes "k = KBlob \<or> k = KSection" and "list_name k = Some name"
  shows "desclist_serialize k img l sd =
    (NIXL_SUCCESS, sd\<lparr>workingStr := workingStr sd @ elm_list_image name img l\<rparr>)"
  using assms
  by (auto simp: desclist_serialize_def Let_def elm_list_image_def list_header_def serialize_elms_image)

text \<open>Reading the three header fields, from any position at which they stand.\<close>

lemma size_of_u32_bytes [simp]: "size_of (u32_bytes w) = 4"
  by (simp add: size_of_def)

lemma size_of_u64_bytes [simp]: "size_of (u64_bytes w) = 8"
  by (simp add: size_of_def)

lemma short_literals [simp]:
  "short_tag []" "short_tag ''t''" "short_tag ''n''" "short_tag ''nixlDList''"
  by (simp_all add: short_tag_def)

lemma load_header:
  assumes wf: "serdes_wf sd" and rem: "remaining sd = list_header name l @ rest" and name: "name \<noteq> []"
    and k: "k \<noteq> KMeta" "k \<noteq> KSection" "k \<noteq> KMetaStride"
  shows "desclist_load k dec g sd =
     (let n_desc = size_of (descs l); ty = getType l; sd3 = advance (list_header name l) sd
      in if k = KBasic then load_pod ''nixlBDList'' 24 dec name ty n_desc sd3
         else if k = KStride then load_pod ''nixlStrideDList'' 40 dec name ty n_desc sd3
         else if k = KBlob
         then if name \<noteq> ''nixlSDList'' then (Loaded \<lparr>getType = ty, descs = []\<rparr>, sd3)
              else let (ds, sd4) = load_elms dec (unat n_desc) [] sd3
                   in (Loaded \<lparr>getType = ty, descs = ds\<rparr>, sd4)
         else (Loaded \<lparr>getType = ty, descs = []\<rparr>, sd3))"
proof -
  let ?f1 = "field_image ''nixlDList'' name" and ?f2 = "field_image ''t'' (u32_bytes (getType l))"
    and ?f3 = "field_image ''n'' (u64_bytes (size_of (descs l)))"
  have r1: "remaining sd = ?f1 @ (?f2 @ ?f3 @ rest)"
    using rem by (simp add: list_header_def)
  have g1: "getStr ''nixlDList'' sd = (name, advance ?f1 sd)"
    by (rule getStr_field [OF wf _ r1]) simp
  note a1 = advance_remaining [OF wf r1]
  have g2: "getBuf ''t'' 4 (advance ?f1 sd) = (NIXL_SUCCESS, u32_bytes (getType l), advance ?f2 (advance ?f1 sd))"
    using getBuf_field [OF a1(1) _ a1(2)] by simp
  note a2 = advance_remaining [OF a1]
  have g3: "getBuf ''n'' 8 (advance ?f2 (advance ?f1 sd)) =
      (NIXL_SUCCESS, u64_bytes (size_of (descs l)), advance ?f3 (advance ?f2 (advance ?f1 sd)))"
    using getBuf_field [OF a2(1) _ a2(2)] by simp
  have adv: "advance ?f3 (advance ?f2 (advance ?f1 sd)) = advance (list_header name l) sd"
    by (simp add: advance_def list_header_def size_of_append add.assoc)
  show ?thesis
    using k name by (simp add: desclist_load_def g1 g2 g3 adv Let_def)
qed

lemma load_elms_images:
  assumes "serdes_wf sd" and "remaining sd = concat (map (\<lambda>d. field_image [] (img d)) ds) @ rest"
    and "\<And>d. 24 \<le> length (img d)"
  shows "load_elms dec (length ds) acc sd =
    (acc @ map (dec \<circ> img) ds, advance (concat (map (\<lambda>d. field_image [] (img d)) ds)) sd)"
  using assms(1,2)
proof (induction ds arbitrary: acc sd)
  case Nil
  then show ?case by (simp add: advance_def)
next
  case (Cons d ds)
  let ?tail = "concat (map (\<lambda>d. field_image [] (img d)) ds)"
  have rem: "remaining sd = field_image [] (img d) @ (?tail @ rest)"
    using Cons.prems(2) by simp
  have g: "getStr [] sd = (img d, advance (field_image [] (img d)) sd)"
    by (rule getStr_field [OF Cons.prems(1) _ rem]) simp
  have IH: "load_elms dec (length ds) (acc @ [dec (img d)]) (advance (field_image [] (img d)) sd) =
      ((acc @ [dec (img d)]) @ map (dec \<circ> img) ds, advance ?tail (advance (field_image [] (img d)) sd))"
    by (rule Cons.IH [OF advance_remaining [OF Cons.prems(1) rem]])
  have "advance ?tail (advance (field_image [] (img d)) sd)
      = advance (concat (map (\<lambda>d. field_image [] (img d)) (d # ds))) sd"
    by (simp add: advance_def size_of_append add.assoc)
  moreover have "\<not> length (img d) < 24"
    using assms(3) [of d] by simp
  ultimately show ?case
    using IH by (simp add: g)
qed

subsection \<open>Round trips\<close>

text \<open>A contiguous list of fixed-width elements is read back element by element, for any codec.\<close>

context fixed_codec
begin

lemma load_pod_image:
  assumes wf: "serdes_wf sd" and w: "0 < width" "width < 2 ^ 32"
    and rem: "remaining sd = field_image [] (concat (map enc ds)) @ rest"
  shows "load_pod name width dec name ty (size_of ds) sd =
    (Loaded \<lparr>getType = ty, descs = ds\<rparr>, advance (field_image [] (concat (map enc ds))) sd)"
proof -
  let ?data = "concat (map enc ds)"
  have g: "getStr [] sd = (?data, advance (field_image [] ?data) sd)"
    by (rule getStr_field [OF wf _ rem]) simp
  have "length ds * width < 2 ^ 63"
    using remaining_bounds(1) [OF wf rem] wf
    by (simp add: serdes_wf_def fits_def length_field_image length_concat_enc)
  moreover have "length ds \<le> length ds * width"
    using w(1) by simp
  ultimately have "fits ds"
    unfolding fits_def by (rule le_less_trans [rotated])
  have small: "length ds \<le> (2 ^ 63 - 1) div width"
    using w(1) \<open>length ds * width < 2 ^ 63\<close> by (simp add: less_eq_div_iff_mult_less_eq)
  have n: "unat (size_of ds) = length ds"
    by (simp add: unat_size_of \<open>fits ds\<close>)
  have "size_of ?data = size_of ds * word_of_nat width"
    by (simp add: size_of_def length_concat_enc)
  then show ?thesis
    using small by (simp add: load_pod_def g n dec_chunks)
qed

lemma pod_list_load:
  assumes wf: "serdes_wf sd" and ds: "fits (descs l)" "descs l \<noteq> []"
    and k: "k = KBasic \<and> width = 24 \<and> name = ''nixlBDList'' \<or>
            k = KStride \<and> width = 40 \<and> name = ''nixlStrideDList''"
    and rem: "remaining sd = pod_list_image name enc l @ rest"
  shows "desclist_load k dec g sd = (Loaded l, advance (pod_list_image name enc l) sd)"
proof -
  let ?h = "list_header name l" and ?f = "field_image [] (concat (map enc (descs l)))"
  have img: "pod_list_image name enc l = ?h @ ?f"
    using ds by (auto simp: pod_list_image_def unat_eq_zero [symmetric] unat_size_of)
  have r: "remaining sd = ?h @ (?f @ rest)"
    using rem by (simp add: img)
  note a = advance_remaining [OF wf r]
  have "advance ?f (advance ?h sd) = advance (?h @ ?f) sd"
    by (simp add: advance_def size_of_append add.assoc)
  moreover have "load_pod name width dec name (getType l) (size_of (descs l)) (advance ?h sd) =
      (Loaded l, advance ?f (advance ?h sd))"
    using load_pod_image [OF a(1) _ _ a(2)] k by auto
  moreover have "name \<noteq> []"
    using k by auto
  ultimately show ?thesis
    using load_header [OF wf r, where k = k and dec = dec] k by (auto simp: img Let_def)
qed

end

lemma blob_list_load:
  assumes wf: "serdes_wf sd" and ds: "fits (descs l)"
    and im: "\<And>d. 24 \<le> length (img d)"
    and rem: "remaining sd = elm_list_image ''nixlSDList'' img l @ rest"
  shows "desclist_load KBlob blob_desc_of_blob g sd =
    (Loaded \<lparr>getType = getType l, descs = map (blob_desc_of_blob \<circ> img) (descs l)\<rparr>,
     advance (elm_list_image ''nixlSDList'' img l) sd)"
proof -
  let ?h = "list_header ''nixlSDList'' l" and ?f = "concat (map (\<lambda>d. field_image [] (img d)) (descs l))"
  have image: "elm_list_image ''nixlSDList'' img l = ?h @ ?f"
    using ds by (auto simp: elm_list_image_def unat_eq_zero [symmetric] unat_size_of)
  have r: "remaining sd = ?h @ (?f @ rest)"
    using rem by (simp add: image)
  note a = advance_remaining [OF wf r]
  have "advance ?f (advance ?h sd) = advance (?h @ ?f) sd"
    by (simp add: advance_def size_of_append add.assoc)
  then show ?thesis
    using load_header [OF wf r, where k = KBlob and dec = blob_desc_of_blob]
      load_elms_images [OF a im, where dec = blob_desc_of_blob] ds
    by (simp add: image unat_size_of)
qed

text \<open>Export, import, load: the list a peer reads is the list that was written.\<close>

definition received :: "nixlSerDes \<Rightarrow> nixlSerDes" where
  "received sd = snd (importStr (exportStr sd) serdes_new)"

lemma received_wf:
  assumes "workingStr sd = serdes_magic @ bs" and "fits (workingStr sd)"
  shows "serdes_wf (received sd)" and "remaining (received sd) = bs"
proof -
  have i: "importStr (exportStr sd) serdes_new = (NIXL_SUCCESS, received sd)"
    using assms(1) by (simp add: received_def exportStr_def importStr_magic)
  show "serdes_wf (received sd)"
    by (rule importStr_wf [OF i]) (simp add: exportStr_def assms(2))
  show "remaining (received sd) = bs"
    using i assms(1) by (intro remaining_import) (simp add: exportStr_def)
qed

lemma workingStr_serdes_new [simp]: "workingStr serdes_new = serdes_magic"
  by (simp add: serdes_new_def)


subsection \<open>Properties\<close>

lemma received_serialized:
  assumes "snd (desclist_serialize k img l serdes_new) = serdes_new\<lparr>workingStr := serdes_magic @ bs\<rparr>"
    and "fits (workingStr (snd (desclist_serialize k img l serdes_new)))"
  shows "serdes_wf (received (snd (desclist_serialize k img l serdes_new)))"
    and "remaining (received (snd (desclist_serialize k img l serdes_new))) = bs"
  using received_wf [of "snd (desclist_serialize k img l serdes_new)" bs] assms by simp_all

text \<open>A non-empty transfer descriptor list survives the wire: the list that the receiving
  constructor builds from the exported bytes has the same memory type and the same descriptors
  in the same order.\<close>

theorem basic_list_round_trip:
  assumes "descs l \<noteq> []" and "fits (descs l)"
    and "fits (workingStr (snd (desclist_serialize KBasic basic_serialize l serdes_new)))"
  shows "fst (desclist_serialize KBasic basic_serialize l serdes_new) = NIXL_SUCCESS \<and>
    fst (desclist_load KBasic basic_load g
      (received (snd (desclist_serialize KBasic basic_serialize l serdes_new)))) = Loaded l"
proof -
  have s: "desclist_serialize KBasic basic_serialize l serdes_new =
    (NIXL_SUCCESS, serdes_new\<lparr>workingStr := serdes_magic @ pod_list_image ''nixlBDList'' basic_serialize l\<rparr>)"
    by (simp add: desclist_serialize_pod list_name_def)
  note r = received_serialized [of KBasic basic_serialize l "pod_list_image ''nixlBDList'' basic_serialize l", OF _ assms(3)]
  have "desclist_load KBasic basic_load g (received (snd (desclist_serialize KBasic basic_serialize l serdes_new))) =
    (Loaded l, advance (pod_list_image ''nixlBDList'' basic_serialize l)
      (received (snd (desclist_serialize KBasic basic_serialize l serdes_new))))"
    by (rule basic_image.pod_list_load [where rest = "[]"]) (use assms r s in auto)
  then show ?thesis by (simp add: s)
qed

theorem basic_list_round_trip_witness:
  "let l = \<lparr>getType = DRAM_SEG, descs = [\<lparr>addr = 4096, len = 16, devId = 1\<rparr>, \<lparr>addr = 0, len = 8, devId = 0\<rparr>]\<rparr>
   in fst (desclist_load KBasic basic_load VRAM_SEG
        (received (snd (desclist_serialize KBasic basic_serialize l serdes_new)))) = Loaded l"
proof -
  define l :: "nixlBasicDesc nixlDescList" where
    "l = \<lparr>getType = DRAM_SEG, descs = [\<lparr>addr = 4096, len = 16, devId = 1\<rparr>, \<lparr>addr = 0, len = 8, devId = 0\<rparr>]\<rparr>"
  have "fits (workingStr (snd (desclist_serialize KBasic basic_serialize l serdes_new)))"
    by (simp add: l_def desclist_serialize_pod list_name_def fits_def serdes_magic_def pod_list_image_def
        list_header_def length_field_image)
  with basic_list_round_trip [of l VRAM_SEG] show ?thesis
    unfolding Let_def l_def [symmetric] by (simp add: l_def fits_def)
qed

text \<open>A non-empty compressed (strided) list survives the wire in the same way.\<close>

theorem stride_list_round_trip:
  assumes "descs l \<noteq> []" and "fits (descs l)"
    and "fits (workingStr (snd (desclist_serialize KStride stride_image l serdes_new)))"
  shows "fst (desclist_serialize KStride stride_image l serdes_new) = NIXL_SUCCESS \<and>
    fst (desclist_load KStride stride_load g
      (received (snd (desclist_serialize KStride stride_image l serdes_new)))) = Loaded l"
proof -
  have s: "desclist_serialize KStride stride_image l serdes_new =
    (NIXL_SUCCESS, serdes_new\<lparr>workingStr := serdes_magic @ pod_list_image ''nixlStrideDList'' stride_image l\<rparr>)"
    by (simp add: desclist_serialize_pod list_name_def)
  note r = received_serialized [of KStride stride_image l "pod_list_image ''nixlStrideDList'' stride_image l", OF _ assms(3)]
  have "desclist_load KStride stride_load g (received (snd (desclist_serialize KStride stride_image l serdes_new))) =
    (Loaded l, advance (pod_list_image ''nixlStrideDList'' stride_image l)
      (received (snd (desclist_serialize KStride stride_image l serdes_new))))"
    by (rule stride_codec.pod_list_load [where rest = "[]"]) (use assms r s in auto)
  then show ?thesis by (simp add: s)
qed

theorem stride_list_round_trip_witness:
  "let l = \<lparr>getType = VRAM_SEG, descs = [\<lparr>addr = 4096, len = 16, devId = 1, stride = 64, count = 8\<rparr>]\<rparr>
   in fst (desclist_load KStride stride_load DRAM_SEG
        (received (snd (desclist_serialize KStride stride_image l serdes_new)))) = Loaded l"
proof -
  define l :: "nixlStrideDesc nixlDescList" where
    "l = \<lparr>getType = VRAM_SEG, descs = [\<lparr>addr = 4096, len = 16, devId = 1, stride = 64, count = 8\<rparr>]\<rparr>"
  have "fits (workingStr (snd (desclist_serialize KStride stride_image l serdes_new)))"
    by (simp add: l_def desclist_serialize_pod list_name_def fits_def serdes_magic_def pod_list_image_def
        list_header_def length_field_image stride_codec.enc_width)
  with stride_list_round_trip [of l DRAM_SEG] show ?thesis
    unfolding Let_def l_def [symmetric] by (simp add: l_def fits_def)
qed

text \<open>Registered regions are published without their backend pointer: a section list written
  to the wire is read by the peer as a list of blob descriptors with the same ranges, the
  regions' public metadata and nothing else, empty lists included.\<close>

theorem section_list_round_trip:
  assumes "fits (descs l)"
    and "fits (workingStr (snd (desclist_serialize KSection section_desc_serialize l serdes_new)))"
  shows "fst (desclist_load KBlob blob_desc_of_blob g
      (received (snd (desclist_serialize KSection section_desc_serialize l serdes_new)))) =
    Loaded \<lparr>getType = getType l, descs = map section_to_blob (descs l)\<rparr>"
proof -
  have s: "desclist_serialize KSection section_desc_serialize l serdes_new =
    (NIXL_SUCCESS, serdes_new\<lparr>workingStr := serdes_magic @ elm_list_image ''nixlSDList'' section_desc_serialize l\<rparr>)"
    by (simp add: desclist_serialize_elms list_name_def)
  note r = received_serialized [of KSection section_desc_serialize l "elm_list_image ''nixlSDList'' section_desc_serialize l", OF _ assms(2)]
  have "desclist_load KBlob blob_desc_of_blob g (received (snd (desclist_serialize KSection section_desc_serialize l serdes_new))) =
    (Loaded \<lparr>getType = getType l, descs = map (blob_desc_of_blob \<circ> section_desc_serialize) (descs l)\<rparr>,
     advance (elm_list_image ''nixlSDList'' section_desc_serialize l)
      (received (snd (desclist_serialize KSection section_desc_serialize l serdes_new))))"
    by (rule blob_list_load [where rest = "[]"]) (use assms r s in \<open>auto simp: section_desc_serialize_def\<close>)
  then show ?thesis by (simp add: comp_def)
qed

theorem section_list_round_trip_witness:
  "fst (desclist_load KBlob blob_desc_of_blob VRAM_SEG
      (received (snd (desclist_serialize KSection section_desc_serialize
        \<lparr>getType = DRAM_SEG, descs = [\<lparr>addr = 4096, len = 16, devId = 1, metadataP = 7, metaBlob = ''key''\<rparr>]\<rparr> serdes_new)))) =
   Loaded \<lparr>getType = DRAM_SEG, descs = [\<lparr>addr = 4096, len = 16, devId = 1, metaInfo = ''key''\<rparr>]\<rparr>"
proof -
  define l :: "nixlSectionDesc nixlDescList" where
    "l = \<lparr>getType = DRAM_SEG, descs = [\<lparr>addr = 4096, len = 16, devId = 1, metadataP = 7, metaBlob = ''key''\<rparr>]\<rparr>"
  have "fits (workingStr (snd (desclist_serialize KSection section_desc_serialize l serdes_new)))"
    by (simp add: l_def desclist_serialize_elms list_name_def fits_def serdes_magic_def elm_list_image_def
        list_header_def length_field_image section_desc_serialize_def)
  with section_list_round_trip [of l VRAM_SEG] show ?thesis
    unfolding l_def [symmetric] by (simp add: l_def fits_def section_to_blob_def)
qed

text \<open>The size test of the receiving constructor multiplies the received element count by the
  element size in 64 bits. A count of \<open>2 ^ 61\<close> wraps to an expected size of zero, passes the
  test with no data, and makes the constructor throw \<open>std::length_error\<close> although a malformed
  list is meant to give an empty one.\<close>

theorem basic_list_count_wraps:
  "fst (load_pod ''nixlBDList'' 24 basic_load ''nixlBDList'' DRAM_SEG (2 ^ 61)
      \<lparr>workingStr = serdes_magic, des_offset = 11, mode = DESERIALIZE\<rparr>) = LengthError"
proof -
  have "getStr [] \<lparr>workingStr = serdes_magic, des_offset = 11, mode = DESERIALIZE\<rparr> =
      ([], \<lparr>workingStr = serdes_magic, des_offset = 11, mode = DESERIALIZE\<rparr>)"
    by (simp add: getStr_def header_fits_def serdes_magic_def size_of_def)
  moreover have "unat (2 ^ 61 :: u64) = 2 ^ 61" "(2 ^ 61 :: u64) * 24 = 0"
    by simp_all
  ultimately show ?thesis
    by (simp add: load_pod_def size_of_def)
qed

end
