(* ===== verification/Nixl_SecDescList.thy ===== *)
theory Nixl_SecDescList
  imports Nixl_Descriptors
begin

text \<open>
  \<open>nixlSecDescList\<close> (\<open>src/infra/mem_section.h\<close>, \<open>src/infra/nixl_descriptors.cpp\<close>): the list of
  registered regions of one memory type and backend, kept sorted by device, address and length
  so that look-ups are binary searches. Batches are merged in place from the back; removals
  compact the vector in one pass. Both loops are modelled on the vector itself, element
  assignment by element assignment, and proved equal to their list-level meaning.
\<close>

type_synonym nixlSecDescList = "nixlSectionDesc nixlDescList"

datatype sec_order = UNSORTED | SORTED

definition usesUnboundedLen :: "nixlSecDescList \<Rightarrow> bool" where
  "usesUnboundedLen l \<longleftrightarrow> getType l = BLK_SEG \<or> getType l = OBJ_SEG \<or> getType l = FILE_SEG"

definition normalizeSecDesc :: "nixlSecDescList \<Rightarrow> nixlSectionDesc \<Rightarrow> nixlSectionDesc" where
  "normalizeSecDesc l d = (if usesUnboundedLen l \<and> len d = 0 then d\<lparr>len := SIZE_MAX\<rparr> else d)"

definition normalizeSecDescBatch :: "nixlSecDescList \<Rightarrow> nixlSectionDesc list \<Rightarrow> nixlSectionDesc list" where
  "normalizeSecDescBatch l batch =
     (if \<not> usesUnboundedLen l then batch
      else map (\<lambda>d. if len d = 0 then d\<lparr>len := SIZE_MAX\<rparr> else d) batch)"

definition normalizeQuery :: "nixlSecDescList \<Rightarrow> nixlBasicDesc \<Rightarrow> nixlBasicDesc" where
  "normalizeQuery l query =
     (if \<not> usesUnboundedLen l \<or> len query \<noteq> 0 then query
      else \<lparr>addr = addr query, len = SIZE_MAX, devId = devId query\<rparr>)"

definition sec_addDesc :: "nixlSectionDesc \<Rightarrow> nixlSecDescList \<Rightarrow> nixlSecDescList" where
  "sec_addDesc desc l =
     (let normalized = normalizeSecDesc l desc;
          itr = upper_bound basic (descs l) (basic normalized)
      in l\<lparr>descs := take itr (descs l) @ normalized # drop itr (descs l)\<rparr>)"

text \<open>The in-place merge: \<open>vec\<close> holds the \<open>a\<close> old elements at its front, \<open>b\<close> elements of the
  batch are still to be placed, and slots from \<open>a + b\<close> on are final. The next slot written is
  the one before \<open>a + b\<close>.\<close>

function merge_back :: "nixlSectionDesc list \<Rightarrow> nixlSectionDesc list \<Rightarrow> nat \<Rightarrow> nat \<Rightarrow> nixlSectionDesc list" where
  "merge_back vec batch a b =
     (if a \<noteq> 0 \<and> b \<noteq> 0
      then if basic_less (batch ! (b - 1)) (vec ! (a - 1))
           then merge_back (vec[a + b - 1 := vec ! (a - 1)]) batch (a - 1) b
           else merge_back (vec[a + b - 1 := batch ! (b - 1)]) batch a (b - 1)
      else if b \<noteq> 0 then merge_back (vec[a + b - 1 := batch ! (b - 1)]) batch a (b - 1)
      else vec)"
  by pat_completeness auto
termination
  by (relation "measure (\<lambda>(vec, batch, a, b). a + b)") auto

declare merge_back.simps [simp del]

definition blank_desc :: nixlSectionDesc where
  "blank_desc = \<lparr>addr = 0, len = 0, devId = 0, metadataP = 0, metaBlob = []\<rparr>"

definition addSortedDescs :: "nixlSectionDesc list \<Rightarrow> nixlSecDescList \<Rightarrow> nixlSecDescList" where
  "addSortedDescs batch l =
     (let vec = descs l
      in if vec = [] then l\<lparr>descs := batch\<rparr>
         else if \<not> basic_less (hd batch) (last vec) then l\<lparr>descs := vec @ batch\<rparr>
         else if \<not> basic_less (hd vec) (last batch) then l\<lparr>descs := batch @ vec\<rparr>
         else let old_size = length vec; batch_size = length batch;
                  resized = vec @ replicate batch_size blank_desc
              in l\<lparr>descs := merge_back resized batch old_size batch_size\<rparr>)"

definition addDescs :: "nixlSectionDesc list \<Rightarrow> sec_order \<Rightarrow> nixlSecDescList \<Rightarrow> nixlSecDescList" where
  "addDescs batch ord l =
     (if batch = [] then l
      else if length batch = 1 then sec_addDesc (hd batch) l
      else let norm = normalizeSecDescBatch l batch;
               ready = (if ord = SORTED then norm else sort_key basic norm)
           in addSortedDescs ready l)"

definition addDescs_list :: "nixlSecDescList \<Rightarrow> nixlSecDescList \<Rightarrow> nixlSecDescList" where
  "addDescs_list other l = addDescs (descs other) SORTED l"

text \<open>The compaction loop of \<open>remDescs\<close>: \<open>rd\<close> and \<open>wr\<close> are the read and write positions, \<open>ri\<close> the
  next index to skip.\<close>

function compact :: "nat list \<Rightarrow> nixlSectionDesc list \<Rightarrow> nat \<Rightarrow> nat \<Rightarrow> nat \<Rightarrow> nixlSectionDesc list" where
  "compact indices ds rd ri wr =
     (if rd < length ds
      then if ri < length indices \<and> rd = indices ! ri then compact indices ds (rd + 1) (ri + 1) wr
           else compact indices (if wr \<noteq> rd then ds[wr := ds ! rd] else ds) (rd + 1) ri (wr + 1)
      else take wr ds)"
  by pat_completeness auto
termination
  by (relation "measure (\<lambda>(indices, ds, rd, ri, wr). length ds - rd)") auto

declare compact.simps [simp del]

definition remDescs :: "nat list \<Rightarrow> sec_order \<Rightarrow> nixlSecDescList \<Rightarrow> nixlSecDescList" where
  "remDescs indices ord l =
     (if indices = [] then l
      else let idx = (if ord = SORTED then indices else sort indices)
           in l\<lparr>descs := compact idx (descs l) 0 0 0\<rparr>)"

definition sec_getIndex :: "nixlSecDescList \<Rightarrow> nixlBasicDesc \<Rightarrow> int" where
  "sec_getIndex l query =
     (let adjusted_query = normalizeQuery l query;
          itr = lower_bound basic (descs l) adjusted_query
      in if itr = length (descs l) \<or> \<not> basic_eq (descs l ! itr) adjusted_query
         then status_code NIXL_ERR_NOT_FOUND
         else int itr)"

definition getCoveringIndex :: "nixlSecDescList \<Rightarrow> nixlBasicDesc \<Rightarrow> int" where
  "getCoveringIndex l query =
     (let itr = lower_bound basic (descs l) query
      in if itr \<noteq> length (descs l) \<and> covers (descs l ! itr) query then int itr
         else if itr \<noteq> 0 \<and> covers (descs l ! (itr - 1)) query then int (itr - 1)
         else -1)"

datatype logic_error = ResizeGrowth

definition sec_resize :: "nat \<Rightarrow> nixlSecDescList \<Rightarrow> logic_error + nixlSecDescList" where
  "sec_resize n l =
     (if n > length (descs l) then Inl ResizeGrowth else Inr (l\<lparr>descs := take n (descs l)\<rparr>))"

subsection \<open>The invariant\<close>

definition sec_sorted :: "nixlSecDescList \<Rightarrow> bool" where
  "sec_sorted l \<longleftrightarrow> sorted (map basic (descs l))"

definition sec_wf :: "nixlSecDescList \<Rightarrow> bool" where
  "sec_wf l \<longleftrightarrow> sec_sorted l \<and> (usesUnboundedLen l \<longrightarrow> (\<forall>d \<in> set (descs l). len d \<noteq> 0))"

lemma getType_ops [simp]:
  "getType (sec_addDesc d l) = getType l"
  "getType (addSortedDescs b l) = getType l"
  "getType (addDescs b ord l) = getType l"
  "getType (remDescs idx ord l) = getType l"
  by (simp_all add: sec_addDesc_def addSortedDescs_def addDescs_def remDescs_def Let_def)

lemma usesUnboundedLen_ops [simp]:
  "usesUnboundedLen (sec_addDesc d l) = usesUnboundedLen l"
  "usesUnboundedLen (addDescs b ord l) = usesUnboundedLen l"
  "usesUnboundedLen (remDescs idx ord l) = usesUnboundedLen l"
  "usesUnboundedLen (l\<lparr>descs := ds\<rparr>) = usesUnboundedLen l"
  by (simp_all add: usesUnboundedLen_def)

lemma normalizeSecDescBatch_map: "normalizeSecDescBatch l batch = map (normalizeSecDesc l) batch"
  by (auto simp: normalizeSecDescBatch_def normalizeSecDesc_def intro!: map_idI [symmetric])

lemma normalize_nonzero: "usesUnboundedLen l \<Longrightarrow> len (normalizeSecDesc l d) \<noteq> 0"
  by (simp add: normalizeSecDesc_def)

lemma normalize_id: "usesUnboundedLen l \<longrightarrow> len d \<noteq> 0 \<Longrightarrow> normalizeSecDesc l d = d"
  by (simp add: normalizeSecDesc_def)

lemma sec_addDesc_sorted:
  assumes "sec_sorted l"
  shows "sec_sorted (sec_addDesc d l)"
    and "mset (descs (sec_addDesc d l)) = add_mset (normalizeSecDesc l d) (mset (descs l))"
proof -
  note p = upper_bound_point [where f = basic and xs = "descs l" and k = "basic (normalizeSecDesc l d)"]
  show "sec_sorted (sec_addDesc d l)"
    using assms p(1) sorted_insert_at [OF assms [unfolded sec_sorted_def] p(1), of "normalizeSecDesc l d"] p
    by (simp add: sec_sorted_def sec_addDesc_def Let_def less_imp_le)
  show "mset (descs (sec_addDesc d l)) = add_mset (normalizeSecDesc l d) (mset (descs l))"
    unfolding sec_addDesc_def Let_def by (simp add: mset_insert_at del: mset_append mset.simps)
qed

subsection \<open>Merging in place\<close>

lemma take_last: "a \<noteq> 0 \<Longrightarrow> a \<le> length xs \<Longrightarrow> take a xs = take (a - 1) xs @ [xs ! (a - 1)]"
  by (metis One_nat_def Suc_pred not_gr_zero less_eq_Suc_le take_Suc_conv_app_nth)

lemma drop_update: "k < length xs \<Longrightarrow> drop k (xs[k := v]) = v # drop (Suc k) xs"
  by (simp add: drop_update_swap Cons_nth_drop_Suc [symmetric])

definition merge_ready :: "nixlSectionDesc list \<Rightarrow> nixlSectionDesc list \<Rightarrow> nat \<Rightarrow> nat \<Rightarrow> bool" where
  "merge_ready vec batch a b \<longleftrightarrow>
     a + b \<le> length vec \<and> b \<le> length batch \<and>
     sorted (map basic (take a vec)) \<and> sorted (map basic (take b batch)) \<and>
     sorted (map basic (drop (a + b) vec)) \<and>
     (\<forall>x \<in> set (take a vec) \<union> set (take b batch). \<forall>y \<in> set (drop (a + b) vec). basic x \<le> basic y)"

lemma merge_ready_old:
  assumes r: "merge_ready vec batch a b" and nz: "a \<noteq> 0" "b \<noteq> 0"
    and lt: "basic_less (batch ! (b - 1)) (vec ! (a - 1))"
  defines "vec' \<equiv> vec[a + b - 1 := vec ! (a - 1)]"
  shows "merge_ready vec' batch (a - 1) b"
    and "mset (take (a - 1) vec') + mset (take b batch) + mset (drop (a - 1 + b) vec')
       = mset (take a vec) + mset (take b batch) + mset (drop (a + b) vec)"
proof -
  have ta: "take a vec = take (a - 1) vec @ [vec ! (a - 1)]"
    by (rule take_last) (use r nz in \<open>auto simp: merge_ready_def\<close>)
  have tb: "take b batch = take (b - 1) batch @ [batch ! (b - 1)]"
    by (rule take_last) (use r nz in \<open>auto simp: merge_ready_def\<close>)
  have k: "a - 1 + b = a + b - 1" "Suc (a + b - 1) = a + b" "a + b - 1 < length vec"
    using nz r by (auto simp: merge_ready_def)
  have t': "take (a - 1) vec' = take (a - 1) vec"
    using nz by (simp add: vec'_def)
  have d': "drop (a - 1 + b) vec' = vec ! (a - 1) # drop (a + b) vec"
    unfolding vec'_def k(1) using drop_update [OF k(3)] k(2) by simp
  have le: "\<forall>x \<in> set (take b batch). basic x \<le> basic (vec ! (a - 1))"
    using r lt by (auto simp: merge_ready_def tb sorted_append basic_less_iff)
  show "merge_ready vec' batch (a - 1) b"
    using r le unfolding merge_ready_def t' d' ta by (auto simp: sorted_append vec'_def)
  show "mset (take (a - 1) vec') + mset (take b batch) + mset (drop (a - 1 + b) vec')
      = mset (take a vec) + mset (take b batch) + mset (drop (a + b) vec)"
    unfolding t' d' ta by simp
qed

lemma merge_ready_new:
  assumes r: "merge_ready vec batch a b" and nz: "b \<noteq> 0"
    and lt: "a \<noteq> 0 \<Longrightarrow> \<not> basic_less (batch ! (b - 1)) (vec ! (a - 1))"
  defines "vec' \<equiv> vec[a + b - 1 := batch ! (b - 1)]"
  shows "merge_ready vec' batch a (b - 1)"
    and "mset (take a vec') + mset (take (b - 1) batch) + mset (drop (a + (b - 1)) vec')
       = mset (take a vec) + mset (take b batch) + mset (drop (a + b) vec)"
proof -
  have tb: "take b batch = take (b - 1) batch @ [batch ! (b - 1)]"
    by (rule take_last) (use r nz in \<open>auto simp: merge_ready_def\<close>)
  have k: "a + (b - 1) = a + b - 1" "Suc (a + b - 1) = a + b" "a + b - 1 < length vec"
    using nz r by (auto simp: merge_ready_def)
  have t': "take a vec' = take a vec"
    using nz by (simp add: vec'_def)
  have d': "drop (a + (b - 1)) vec' = batch ! (b - 1) # drop (a + b) vec"
    unfolding vec'_def k(1) using drop_update [OF k(3)] k(2) by simp
  have le: "\<forall>x \<in> set (take a vec). basic x \<le> basic (batch ! (b - 1))"
  proof (cases "a = 0")
    case False
    have "take a vec = take (a - 1) vec @ [vec ! (a - 1)]"
      by (rule take_last) (use r False in \<open>auto simp: merge_ready_def\<close>)
    then show ?thesis
      using r lt [OF False] by (auto simp: merge_ready_def sorted_append basic_less_iff not_less)
  qed simp
  show "merge_ready vec' batch a (b - 1)"
    using r le unfolding merge_ready_def t' d' tb by (auto simp: sorted_append vec'_def)
  show "mset (take a vec') + mset (take (b - 1) batch) + mset (drop (a + (b - 1)) vec')
      = mset (take a vec) + mset (take b batch) + mset (drop (a + b) vec)"
    unfolding t' d' tb by simp
qed

lemma merge_back_correct:
  assumes "merge_ready vec batch a b"
  shows "sorted (map basic (merge_back vec batch a b)) \<and>
    mset (merge_back vec batch a b) = mset (take a vec) + mset (take b batch) + mset (drop (a + b) vec)"
  using assms
proof (induction vec batch a b rule: merge_back.induct)
  case (1 vec batch a b)
  consider (old) "a \<noteq> 0" "b \<noteq> 0" "basic_less (batch ! (b - 1)) (vec ! (a - 1))"
    | (new) "b \<noteq> 0" "a \<noteq> 0 \<Longrightarrow> \<not> basic_less (batch ! (b - 1)) (vec ! (a - 1))"
    | (finished) "b = 0"
    by blast
  then show ?case
  proof cases
    case old
    note m = merge_ready_old [OF "1.prems" old]
    from "1.IH"(1) [OF _ old(3) m(1)] old m(2) show ?thesis
      by (simp add: merge_back.simps [of vec batch a b])
  next
    case new
    note m = merge_ready_new [OF "1.prems" new]
    have "sorted (map basic (merge_back (vec[a + b - 1 := batch ! (b - 1)]) batch a (b - 1))) \<and>
      mset (merge_back (vec[a + b - 1 := batch ! (b - 1)]) batch a (b - 1)) =
        mset (take a vec) + mset (take b batch) + mset (drop (a + b) vec)"
      using "1.IH"(2) [OF _ _ m(1)] "1.IH"(3) [OF _ _ m(1)] new m(2) by (cases "a = 0") auto
    with new show ?thesis
      by (cases "a = 0") (simp_all add: merge_back.simps [of vec batch _ b])
  next
    case finished
    have "mset vec = mset (take a vec) + mset (drop a vec)"
      by (simp flip: mset_append)
    moreover have "sorted (map basic (take a vec @ drop a vec))"
      unfolding map_append sorted_append using "1.prems" finished by (auto simp: merge_ready_def)
    ultimately show ?thesis
      using finished by (simp add: merge_back.simps [of vec batch a 0])
  qed
qed

lemma sorted_hd_le: "sorted (map f xs) \<Longrightarrow> x \<in> set xs \<Longrightarrow> f (hd xs) \<le> f x"
  by (cases xs) auto

lemma sorted_last_ge: "sorted (map f xs) \<Longrightarrow> x \<in> set xs \<Longrightarrow> f x \<le> f (last xs)"
  by (cases xs rule: rev_cases) (auto simp: sorted_append)

lemma addSortedDescs_sorted:
  assumes s: "sec_sorted l" and b: "sorted (map basic batch)" "batch \<noteq> []"
  shows "sec_sorted (addSortedDescs batch l) \<and>
    mset (descs (addSortedDescs batch l)) = mset (descs l) + mset batch"
proof -
  let ?vec = "descs l"
  consider (empty) "?vec = []"
    | (after) "?vec \<noteq> []" "\<not> basic_less (hd batch) (last ?vec)"
    | (before) "?vec \<noteq> []" "basic_less (hd batch) (last ?vec)" "\<not> basic_less (hd ?vec) (last batch)"
    | (merge) "?vec \<noteq> []" "basic_less (hd batch) (last ?vec)" "basic_less (hd ?vec) (last batch)"
    by blast
  then show ?thesis
  proof cases
    case after
    then have "basic (last ?vec) \<le> basic (hd batch)"
      by (simp add: basic_less_iff not_less)
    then have "\<forall>x \<in> set ?vec. \<forall>y \<in> set batch. basic x \<le> basic y"
      using sorted_last_ge sorted_hd_le s b(1) unfolding sec_sorted_def by (meson order_trans)
    with after s b show ?thesis
      by (auto simp: addSortedDescs_def sec_sorted_def sorted_append)
  next
    case before
    then have "basic (last batch) \<le> basic (hd ?vec)"
      by (simp add: basic_less_iff not_less)
    then have "\<forall>x \<in> set batch. \<forall>y \<in> set ?vec. basic x \<le> basic y"
      using sorted_last_ge sorted_hd_le s b(1) unfolding sec_sorted_def by (meson order_trans)
    with before s b show ?thesis
      by (auto simp: addSortedDescs_def sec_sorted_def sorted_append)
  next
    case merge
    let ?resized = "?vec @ replicate (length batch) blank_desc"
    have "merge_ready ?resized batch (length ?vec) (length batch)"
      using s b by (simp add: merge_ready_def sec_sorted_def)
    from merge_back_correct [OF this] merge show ?thesis
      by (simp add: addSortedDescs_def sec_sorted_def Let_def)
  qed (use b in \<open>simp add: addSortedDescs_def sec_sorted_def\<close>)
qed

text \<open>A batch handed over as already sorted is sorted once it has been normalised.\<close>

definition batch_ready :: "nixlSectionDesc list \<Rightarrow> sec_order \<Rightarrow> nixlSecDescList \<Rightarrow> bool" where
  "batch_ready batch ord l \<longleftrightarrow> ord = SORTED \<longrightarrow> sorted (map basic (map (normalizeSecDesc l) batch))"

lemma addDescs_sorted:
  assumes s: "sec_sorted l" and r: "batch_ready batch ord l"
  shows "sec_sorted (addDescs batch ord l) \<and>
    mset (descs (addDescs batch ord l)) = mset (descs l) + image_mset (normalizeSecDesc l) (mset batch)"
proof -
  consider (empty) "batch = []" | (single) d where "batch = [d]" | (many) "batch \<noteq> []" "length batch \<noteq> 1"
    by (metis One_nat_def length_0_conv length_Suc_conv)
  then show ?thesis
  proof cases
    case single
    then show ?thesis
      using sec_addDesc_sorted [OF s] by (simp add: addDescs_def)
  next
    case many
    let ?norm = "map (normalizeSecDesc l) batch"
    let ?ready = "if ord = SORTED then ?norm else sort_key basic ?norm"
    have "sorted (map basic ?ready)" "?ready \<noteq> []" "mset ?ready = mset ?norm"
      using r many by (auto simp: batch_ready_def simp flip: mset_zero_iff)
    with addSortedDescs_sorted [OF s this(1,2)] many show ?thesis
      by (simp add: addDescs_def normalizeSecDescBatch_map Let_def)
  qed (use s in \<open>simp add: addDescs_def\<close>)
qed

lemma addDescs_wf:
  assumes "sec_wf l" and "batch_ready batch ord l"
  shows "sec_wf (addDescs batch ord l)"
proof -
  note a = addDescs_sorted [OF _ assms(2)]
  have "set (descs (addDescs batch ord l)) = set (descs l) \<union> normalizeSecDesc l ` set batch"
    using a assms(1) by (metis (no_types, lifting) sec_wf_def set_image_mset set_mset_mset set_mset_union)
  with a assms(1) show ?thesis
    by (auto simp: sec_wf_def normalize_nonzero)
qed

subsection \<open>Removing by index\<close>

text \<open>The list-level meaning of the compaction loop: the suffix from \<open>rd\<close> on with the indices
  of \<open>idx\<close> met in order.\<close>

fun skip_indices :: "nat list \<Rightarrow> 'a list \<Rightarrow> nat \<Rightarrow> 'a list" where
  "skip_indices idx [] i = []"
| "skip_indices [] (x # xs) i = x # xs"
| "skip_indices (j # idx) (x # xs) i =
     (if i = j then skip_indices idx xs (Suc i) else x # skip_indices (j # idx) xs (Suc i))"

lemma skip_indices_Nil [simp]: "skip_indices [] xs i = xs"
  by (cases xs) simp_all

lemma compact_skip:
  assumes "wr \<le> rd" and "rd \<le> length ds" and "ri \<le> length indices"
  shows "compact indices ds rd ri wr = take wr ds @ skip_indices (drop ri indices) (drop rd ds) rd"
  using assms
proof (induction indices ds rd ri wr rule: compact.induct)
  case (1 indices ds rd ri wr)
  show ?case
  proof (cases "rd < length ds")
    case False
    then show ?thesis by (simp add: compact.simps [of _ _ rd])
  next
    case rd: True
    have d: "drop rd ds = ds ! rd # drop (Suc rd) ds"
      using rd by (simp add: Cons_nth_drop_Suc)
    show ?thesis
    proof (cases "ri < length indices \<and> rd = indices ! ri")
      case True
      then have "drop ri indices = rd # drop (Suc ri) indices"
        by (metis Cons_nth_drop_Suc)
      moreover have "compact indices ds rd ri wr = compact indices ds (rd + 1) (ri + 1) wr"
        using rd True by (subst compact.simps) simp
      ultimately show ?thesis
        using "1.IH"(1) [OF rd True] "1.prems" rd True d by simp
    next
      case False
      let ?ds = "if wr \<noteq> rd then ds[wr := ds ! rd] else ds"
      have k: "take (Suc wr) ?ds = take wr ds @ [ds ! rd]" "drop (Suc rd) ?ds = drop (Suc rd) ds" "length ?ds = length ds"
        using "1.prems" rd by (auto simp: take_Suc_conv_app_nth)
      have sk: "skip_indices (drop ri indices) (drop rd ds) rd = ds ! rd # skip_indices (drop ri indices) (drop (Suc rd) ds) (Suc rd)"
      proof (cases "ri < length indices")
        case True
        with False have "drop ri indices = indices ! ri # drop (Suc ri) indices" "rd \<noteq> indices ! ri"
          by (auto simp: Cons_nth_drop_Suc)
        then show ?thesis by (simp add: d)
      qed (simp add: d)
      have "compact indices ds rd ri wr = compact indices ?ds (Suc rd) ri (Suc wr)"
        using rd False by (subst compact.simps) auto
      also have "\<dots> = take (Suc wr) ?ds @ skip_indices (drop ri indices) (drop (Suc rd) ?ds) (Suc rd)"
        using "1.IH"(2) [OF rd False] "1.prems" rd k(3) by simp
      finally show ?thesis unfolding k sk by simp
    qed
  qed
qed


lemma skip_indices_nths:
  assumes "sorted_wrt (<) idx" and "\<forall>j \<in> set idx. i \<le> j"
  shows "skip_indices idx xs i = nths xs {k. i + k \<notin> set idx}"
  using assms
proof (induction idx xs i rule: skip_indices.induct)
  case (3 j idx x xs i)
  have shift: "{k. i + Suc k \<notin> S} = {k. Suc i + k \<notin> S}" for S
    by simp
  show ?case
  proof (cases "i = j")
    case True
    have "\<forall>k. Suc (i + k) \<in> set (j # idx) \<longleftrightarrow> Suc (i + k) \<in> set idx"
      using True by auto
    with "3.IH"(1) [OF True] "3.prems" True show ?thesis
      by (fastforce simp: nths_Cons)
  next
    case False
    with "3.IH"(2) [OF False] "3.prems" show ?thesis
      by (fastforce simp: nths_Cons)
  qed
qed (simp_all add: nths_all)

lemma remDescs_SORTED:
  assumes "sorted_wrt (<) idx"
  shows "descs (remDescs idx SORTED l) = nths (descs l) (- set idx)"
proof (cases "idx = []")
  case True
  then show ?thesis by (simp add: remDescs_def nths_all)
next
  case False
  then show ?thesis
    using assms compact_skip [of 0 0 "descs l" 0 idx] skip_indices_nths [of idx 0 "descs l"]
    by (simp add: remDescs_def Compl_eq)
qed

lemma remDescs_UNSORTED:
  assumes "distinct idx"
  shows "descs (remDescs idx UNSORTED l) = nths (descs l) (- set idx)"
proof -
  have "sorted_wrt (<) (sort idx)"
    using assms by (simp add: strict_sorted_iff)
  moreover have "remDescs idx UNSORTED l = remDescs (sort idx) SORTED l"
    by (cases idx) (simp_all add: remDescs_def)
  ultimately show ?thesis
    by (simp add: remDescs_SORTED)
qed

lemma sorted_nths: "sorted (map f xs) \<Longrightarrow> sorted (map f (nths xs S))"
  by (induction xs arbitrary: S) (auto simp: nths_Cons dest: in_set_nthsD)

lemma set_skip_indices: "set (skip_indices idx xs i) \<subseteq> set xs"
  by (induction idx xs i rule: skip_indices.induct) auto

lemma sorted_skip_indices: "sorted (map f xs) \<Longrightarrow> sorted (map f (skip_indices idx xs i))"
  using set_skip_indices by (induction idx xs i rule: skip_indices.induct) fastforce+

text \<open>Whatever the indices are, duplicates and out-of-range ones included, the loop only drops
  elements: the list stays sorted.\<close>

lemma remDescs_wf:
  assumes "sec_wf l"
  shows "sec_wf (remDescs idx ord l)"
proof (cases "idx = []")
  case False
  let ?i = "if ord = SORTED then idx else sort idx"
  have "descs (remDescs idx ord l) = skip_indices ?i (descs l) 0"
    using False compact_skip [of 0 0 "descs l" 0 ?i] by (simp add: remDescs_def)
  then show ?thesis
    using assms sorted_skip_indices set_skip_indices by (fastforce simp: sec_wf_def sec_sorted_def)
qed (use assms in \<open>simp add: remDescs_def\<close>)

lemma sec_resize_wf: "sec_wf l \<Longrightarrow> sec_resize n l = Inr l' \<Longrightarrow> sec_wf l'"
  by (force simp: sec_resize_def sec_wf_def sec_sorted_def take_map [symmetric] sorted_wrt_take
      dest: in_set_takeD split: if_splits)

lemma sec_addDesc_wf: "sec_wf l \<Longrightarrow> sec_wf (sec_addDesc d l)"
  using addDescs_wf [of l "[d]" UNSORTED] by (simp add: addDescs_def batch_ready_def)

subsection \<open>Look-ups\<close>

lemma sec_getIndex_cases:
  assumes s: "sec_sorted l"
  shows "(\<exists>i < length (descs l). sec_getIndex l q = int i \<and> basic (descs l ! i) = normalizeQuery l q \<and>
            (\<forall>j < i. basic (descs l ! j) \<noteq> normalizeQuery l q)) \<or>
    sec_getIndex l q = status_code NIXL_ERR_NOT_FOUND \<and> normalizeQuery l q \<notin> basic ` set (descs l)"
proof -
  let ?q = "normalizeQuery l q"
  let ?n = "lower_bound basic (descs l) ?q"
  note p = lower_bound_point [OF s [unfolded sec_sorted_def], where k = ?q]
  show ?thesis
  proof (cases "?n < length (descs l) \<and> basic (descs l ! ?n) = ?q")
    case True
    have "\<forall>j < ?n. basic (descs l ! j) \<noteq> ?q"
      using p by (metis less_irrefl)
    with True show ?thesis
      by (intro disjI1 exI [of _ ?n]) (simp add: sec_getIndex_def Let_def basic_eq_iff_basic)
  next
    case False
    have "basic (descs l ! i) \<noteq> ?q" if "i < length (descs l)" for i
    proof (cases "i < ?n")
      case True
      then show ?thesis using p by (metis less_irrefl)
    next
      case ge: False
      have "sorted (map basic (descs l))" using s by (simp add: sec_sorted_def)
      with ge that have "basic (descs l ! ?n) \<le> basic (descs l ! i)"
        by (simp add: sorted_iff_nth_mono)
      moreover have "?q \<le> basic (descs l ! ?n)" using p ge that by simp
      ultimately have "basic (descs l ! i) = ?q \<Longrightarrow> basic (descs l ! ?n) = ?q" by simp
      then show ?thesis using False ge that by auto
    qed
    then have "?q \<notin> basic ` set (descs l)" by (metis imageE in_set_conv_nth)
    with False p(1) show ?thesis
      by (auto simp: sec_getIndex_def Let_def basic_eq_iff_basic)
  qed
qed


text \<open>Registered regions that do not overlap. An unbounded region reaches the end of the address
  space.\<close>

definition upper_end :: "'a nixlBasicDesc_scheme \<Rightarrow> nat" where
  "upper_end d = (if len d = SIZE_MAX then 2 ^ 64 else range_end d)"

definition sec_disjoint :: "nixlSecDescList \<Rightarrow> bool" where
  "sec_disjoint l \<longleftrightarrow> sorted_wrt (\<lambda>d e. devId d = devId e \<longrightarrow> upper_end d \<le> unat (addr e)) (descs l)"

lemma covers_upper_end: "covers d q \<Longrightarrow> range_end q \<le> upper_end d"
  by (auto simp: covers_iff upper_end_def no_wrap_def split: if_splits)

lemma getCoveringIndex_sound:
  assumes "sec_sorted l"
  shows "getCoveringIndex l q = -1 \<or>
    (\<exists>i < length (descs l). getCoveringIndex l q = int i \<and> covers (descs l ! i) q)"
proof -
  let ?n = "lower_bound basic (descs l) q"
  have "?n \<le> length (descs l)"
    using assms lower_bound_point(1) by (simp add: sec_sorted_def)
  then have "?n \<noteq> length (descs l) \<Longrightarrow> ?n < length (descs l)" "?n \<noteq> 0 \<Longrightarrow> ?n - 1 < length (descs l)"
    by simp_all
  then show ?thesis
    unfolding getCoveringIndex_def Let_def by metis
qed

lemma disjoint_covers_unique:
  assumes "sec_disjoint l" and "i < j" "j < length (descs l)" and "len q \<noteq> 0"
    and "covers (descs l ! i) q" and "devId (descs l ! j) = devId q"
  shows "addr q < addr (descs l ! j)"
proof -
  have "upper_end (descs l ! i) \<le> unat (addr (descs l ! j))"
    using assms by (auto simp: sec_disjoint_def sorted_wrt_iff_nth_less covers_iff)
  moreover have "unat (addr q) < range_end q"
    using assms(4) by (simp add: range_end_def unat_gt_0)
  ultimately show ?thesis
    using covers_upper_end [OF assms(5)] by (simp add: word_less_nat_alt)
qed

lemma between_same_addr:
  assumes qm: "q \<le> basic m" and me: "basic m \<le> basic e" and e: "devId e = devId q" "addr e \<le> addr q"
  shows "devId m = devId q" "addr m = addr q" "len q \<le> len m" "addr e = addr q"
proof -
  have q: "basic q \<le> basic m" using qm by simp
  show d: "devId m = devId q"
    using basic_le_devId [OF q] basic_le_devId [OF me] e by simp
  have "addr q \<le> addr m" "addr m \<le> addr e"
    using basic_leD [OF q] basic_leD [OF me] d e by simp_all
  with e(2) show a: "addr m = addr q" "addr e = addr q" by simp_all
  show "len q \<le> len m"
    using q d a by (simp add: query_le_iff)
qed

lemma between_le_addr:
  assumes mq: "basic m \<le> q" and em: "basic e \<le> basic m" and e: "devId e = devId q"
  shows "devId m = devId q" "addr m \<le> addr q"
proof -
  have q: "basic m \<le> basic q" using mq by simp
  show "devId m = devId q"
    using basic_le_devId [OF q] basic_le_devId [OF em] e by simp
  with basic_leD [OF q] show "addr m \<le> addr q" by simp
qed

lemma getCoveringIndex_complete:
  assumes s: "sec_sorted l" and d: "sec_disjoint l" and nz: "len q \<noteq> 0"
    and p: "p < length (descs l)" "covers (descs l ! p) q"
  shows "getCoveringIndex l q = int p"
proof -
  let ?n = "lower_bound basic (descs l) q"
  let ?e = "descs l ! p"
  have srt: "sorted (map basic (descs l))" using s by (simp add: sec_sorted_def)
  note lb = lower_bound_point [OF srt, where k = q]
  have mono: "basic (descs l ! i) \<le> basic (descs l ! j)" if "i \<le> j" "j < length (descs l)" for i j
    using srt that by (simp add: sorted_iff_nth_mono)
  have c: "devId ?e = devId q" "addr ?e \<le> addr q" using p by (auto simp: covers_iff)
  show ?thesis
  proof (cases "?n \<le> p")
    case True
    let ?m = "descs l ! ?n"
    have le: "q \<le> basic ?m" "basic ?m \<le> basic ?e"
      using lb(3) [of ?n] mono [OF True p(1)] True p by simp_all
    note m = between_same_addr [OF le c]
    have "?n = p"
    proof (rule ccontr)
      assume "?n \<noteq> p"
      with True have "?n < p" by simp
      with d p have "devId ?m = devId ?e \<longrightarrow> upper_end ?m \<le> unat (addr ?e)"
        by (simp add: sec_disjoint_def sorted_wrt_iff_nth_less)
      with m c have "upper_end ?m \<le> unat (addr q)"
        by simp
      moreover have "0 < unat (len ?m)"
        using m(3) nz by (metis order_le_less_trans unat_gt_0 word_le_nat_alt word_le_0_iff)
      then have "unat (addr q) < upper_end ?m"
        using m(2) unat_lt_u64 [of "addr q"] by (simp add: upper_end_def range_end_def)
      ultimately show False by simp
    qed
    with p show ?thesis by (simp add: getCoveringIndex_def Let_def)
  next
    case False
    have prev: "p = ?n - 1"
    proof (rule ccontr)
      assume "p \<noteq> ?n - 1"
      with False have i: "p < ?n - 1" "?n - 1 < length (descs l)" "?n - 1 < ?n"
        using lb(1) by auto
      let ?m = "descs l ! (?n - 1)"
      have le: "basic ?m \<le> q" "basic ?e \<le> basic ?m"
        using lb(2) [OF i(3)] mono [OF less_imp_le [OF i(1)] i(2)] by simp_all
      note m = between_le_addr [OF le c(1)]
      with disjoint_covers_unique [OF d i(1,2) nz p(2)] show False by simp
    qed
    have "\<not> covers (descs l ! ?n) q" if "?n \<noteq> length (descs l)"
      using disjoint_covers_unique [OF d _ _ nz p(2), of ?n] False lb(1) that
      by (auto simp: covers_iff not_less)
    with prev p False show ?thesis
      by (auto simp: getCoveringIndex_def Let_def)
  qed
qed


subsection \<open>Properties\<close>

text \<open>C39: Adding a batch of regions keeps the section list ordered by device, address and length
  and loses or invents nothing: on every branch (single element, append, prepend, in-place
  merge) the result is a sorted list of the old regions and the batch, each batch element with
  its zero length replaced by the unbounded one on storage memory types. A batch handed over as
  sorted has to be sorted after that replacement.\<close>

theorem addDescs_keeps_order:
  assumes "sec_wf l" and "batch_ready batch ord l"
  shows "sec_wf (addDescs batch ord l) \<and>
    mset (descs (addDescs batch ord l)) = mset (descs l) + mset (map (normalizeSecDesc l) batch)"
  using addDescs_wf [OF assms] addDescs_sorted [OF _ assms(2)] assms(1) by (simp add: sec_wf_def)

theorem addDescs_keeps_order_witness:
  "let d = \<lambda>a. \<lparr>addr = a, len = 8, devId = 0, metadataP = 1, metaBlob = []\<rparr>;
       l = \<lparr>getType = DRAM_SEG, descs = [d 0, d 32, d 64]\<rparr>
   in sec_wf (addDescs [d 48, d 16] UNSORTED l) \<and>
      mset (descs (addDescs [d 48, d 16] UNSORTED l)) = mset [d 0, d 32, d 64, d 48, d 16]"
proof -
  define d :: "u64 \<Rightarrow> nixlSectionDesc" where "d a = \<lparr>addr = a, len = 8, devId = 0, metadataP = 1, metaBlob = []\<rparr>" for a
  define l where "l = \<lparr>getType = DRAM_SEG, descs = [d 0, d 32, d 64]\<rparr>"
  have "sec_wf l" "batch_ready [d 48, d 16] UNSORTED l"
    by (simp_all add: l_def d_def sec_wf_def sec_sorted_def batch_ready_def query_le_iff basic_le_iff
        usesUnboundedLen_def mem_seg_defs)
  from addDescs_keeps_order [OF this] show ?thesis
    unfolding Let_def d_def [symmetric] l_def [symmetric]
    by (simp add: l_def d_def normalizeSecDesc_def)
qed

text \<open>Removing by index is exact: for distinct indices in any order the list that is left is the
  old list without those positions, in the old order.\<close>

theorem remDescs_exact:
  assumes "distinct idx"
  shows "descs (remDescs idx UNSORTED l) = nths (descs l) (- set idx)"
  using assms by (rule remDescs_UNSORTED)

theorem remDescs_exact_witness:
  "let d = \<lambda>a. \<lparr>addr = a, len = 8, devId = 0, metadataP = 1, metaBlob = []\<rparr>
   in descs (remDescs [2, 0] UNSORTED \<lparr>getType = DRAM_SEG, descs = [d 0, d 32, d 64]\<rparr>) = nths [d 0, d 32, d 64] (- {0, 2})"
  using remDescs_exact [of "[2, 0]"] by (simp add: Let_def insert_commute)

text \<open>Duplicate indices break the compaction loop of \<open>remDescs\<close>: once an index repeats, the
  loop never passes the duplicate, so every later index of the batch is kept in the list.\<close>

theorem remDescs_stalls_on_duplicate:
  assumes "sorted (i # i # idx)"
  shows "descs (remDescs (i # i # idx) SORTED l) = nths (descs l) (- {i})"
proof -
  have stall: "skip_indices (i # idx) xs j = xs" if "i < j" "sorted (i # idx)" for xs :: "nixlSectionDesc list" and j
    using that by (induction xs arbitrary: j) auto
  have "skip_indices (i # i # idx) xs j = nths xs {k. j + k \<noteq> i}" if "j \<le> i" for xs :: "nixlSectionDesc list" and j
    using that
  proof (induction xs arbitrary: j)
    case (Cons x xs)
    show ?case
    proof (cases "j = i")
      case True
      then show ?thesis
        using stall [of "Suc i" xs] assms by (auto simp: nths_Cons nths_all)
    next
      case False
      with Cons.IH [of "Suc j"] Cons.prems show ?thesis by (auto simp: nths_Cons)
    qed
  qed simp
  from this [of 0 "descs l"] show ?thesis
    using compact_skip [of 0 0 "descs l" 0 "i # i # idx"] by (simp add: remDescs_def Compl_eq)
qed

theorem remDescs_stalls_on_duplicate_witness:
  "let d = \<lambda>a. \<lparr>addr = a, len = 8, devId = 0, metadataP = 1, metaBlob = []\<rparr>
   in descs (remDescs [0, 0, 1] SORTED \<lparr>getType = DRAM_SEG, descs = [d 0, d 32, d 64]\<rparr>) = [d 32, d 64]"
  using remDescs_stalls_on_duplicate [of 0 "[1]"] by (simp add: Let_def nths_Cons)

text \<open>The exact look-up of a sorted section list returns the first position of the region with
  the query's range, a zero length meaning the unbounded one on storage types, and
  \<open>NIXL_ERR_NOT_FOUND\<close> exactly when no region has that range.\<close>

theorem sec_getIndex_correct:
  assumes "sec_wf l"
  shows "if normalizeQuery l q \<in> basic ` set (descs l)
    then \<exists>i < length (descs l). sec_getIndex l q = int i \<and> basic (descs l ! i) = normalizeQuery l q \<and>
      (\<forall>j < i. basic (descs l ! j) \<noteq> normalizeQuery l q)
    else sec_getIndex l q = status_code NIXL_ERR_NOT_FOUND"
proof -
  have "basic (descs l ! i) \<in> basic ` set (descs l)" if "i < length (descs l)" for i
    using that by simp
  then show ?thesis
    using sec_getIndex_cases [of l q] assms unfolding sec_wf_def by metis
qed

theorem sec_getIndex_correct_witness:
  "let l = \<lparr>getType = FILE_SEG, descs = [\<lparr>addr = 0, len = SIZE_MAX, devId = 3, metadataP = 1, metaBlob = []\<rparr>]\<rparr>
   in if normalizeQuery l \<lparr>addr = 0, len = 0, devId = 3\<rparr> \<in> basic ` set (descs l)
      then \<exists>i < length (descs l). sec_getIndex l \<lparr>addr = 0, len = 0, devId = 3\<rparr> = int i \<and>
        basic (descs l ! i) = normalizeQuery l \<lparr>addr = 0, len = 0, devId = 3\<rparr> \<and>
        (\<forall>j < i. basic (descs l ! j) \<noteq> normalizeQuery l \<lparr>addr = 0, len = 0, devId = 3\<rparr>)
      else sec_getIndex l \<lparr>addr = 0, len = 0, devId = 3\<rparr> = status_code NIXL_ERR_NOT_FOUND"
  unfolding Let_def
  by (rule sec_getIndex_correct) (simp add: sec_wf_def sec_sorted_def)

text \<open>C38: The covering look-up is sound and, for regions that do not overlap, complete: on a sorted
  list it returns -1 or the position of a region that covers the query, and when regions are
  disjoint it returns the position of every region that covers a non-empty query. One
  binary search and one step back are enough.\<close>

theorem getCoveringIndex_correct:
  assumes "sec_wf l"
  shows "(getCoveringIndex l q = -1 \<or>
      (\<exists>i < length (descs l). getCoveringIndex l q = int i \<and> covers (descs l ! i) q)) \<and>
    (sec_disjoint l \<and> len q \<noteq> 0 \<longrightarrow>
      (\<forall>p < length (descs l). covers (descs l ! p) q \<longrightarrow> getCoveringIndex l q = int p))"
  using getCoveringIndex_sound [of l q] getCoveringIndex_complete [of l q] assms unfolding sec_wf_def by blast

theorem getCoveringIndex_correct_witness:
  "let d = \<lambda>a. \<lparr>addr = a, len = 16, devId = 0, metadataP = 1, metaBlob = []\<rparr>;
       l = \<lparr>getType = DRAM_SEG, descs = [d 0, d 32]\<rparr>
   in getCoveringIndex l \<lparr>addr = 36, len = 4, devId = 0\<rparr> = 1"
proof -
  define d :: "u64 \<Rightarrow> nixlSectionDesc" where "d a = \<lparr>addr = a, len = 16, devId = 0, metadataP = 1, metaBlob = []\<rparr>" for a
  define l where "l = \<lparr>getType = DRAM_SEG, descs = [d 0, d 32]\<rparr>"
  have "sec_wf l" "sec_disjoint l"
    by (simp_all add: l_def d_def sec_wf_def sec_sorted_def query_le_iff basic_le_iff usesUnboundedLen_def
        mem_seg_defs sec_disjoint_def upper_end_def range_end_def)
  moreover have "covers (descs l ! 1) \<lparr>addr = 36, len = 4, devId = 0\<rparr>"
    by (simp add: l_def d_def covers_def)
  moreover have "1 < length (descs l)" "len \<lparr>addr = 36, len = 4, devId = 0\<rparr> \<noteq> (0 :: u64)"
    by (simp_all add: l_def)
  ultimately have "getCoveringIndex l \<lparr>addr = 36, len = 4, devId = 0\<rparr> = int 1"
    using getCoveringIndex_correct [of l "\<lparr>addr = 36, len = 4, devId = 0\<rparr>"] by blast
  then show ?thesis
    unfolding Let_def d_def [symmetric] l_def [symmetric] by simp
qed

end
