(* ===== verification/Nixl_Strides.thy ===== *)
theory Nixl_Strides
  imports Nixl_Descriptors
begin

text \<open>
  Compressed descriptor lists (\<open>nixlMetaStrideDescList\<close> in \<open>src/api/cpp/backend/backend_aux.h\<close>):
  a list of runs, each a number of equally long blocks at a fixed stride, with the flat index of
  its first block. The meaning of such a list is the flat list of its blocks; \<open>find\<close> locates the
  run of a flat index by one guess and a binary search.
\<close>

type_synonym nixlMetaStrideDescList = "nixlMetaStrideDesc nixlDescList"

definition getMetaDesc :: "nixlMetaStrideDesc \<Rightarrow> u64 \<Rightarrow> u64 \<Rightarrow> nixlMetaDesc" where
  "getMetaDesc r idx sz =
     \<lparr>addr = addr r + (idx - start_idx r) * stride r, len = len r * sz, devId = devId r,
      metadataP = strideMetadataP r\<rparr>"

definition flatSize :: "nixlMetaStrideDesc list \<Rightarrow> u64" where
  "flatSize runs = (if runs = [] then 0 else start_idx (last runs) + count (last runs))"

text \<open>The rounds of the binary search after the first one; in those \<open>mid\<close> is the upper middle
  of the interval.\<close>

function find_search :: "nixlMetaStrideDesc list \<Rightarrow> u64 \<Rightarrow> nat \<Rightarrow> nat \<Rightarrow> nat" where
  "find_search runs flat_idx lo hi =
     (if lo < hi
      then let mid = (lo + hi + 1) div 2
           in if start_idx (runs ! mid) \<le> flat_idx then find_search runs flat_idx mid hi
              else find_search runs flat_idx lo (mid - 1)
      else lo)"
  by pat_completeness auto
termination
  by (relation "measure (\<lambda>(runs, flat_idx, lo, hi). hi - lo)") auto

declare find_search.simps [simp del]

definition in_run :: "nixlMetaStrideDesc \<Rightarrow> u64 \<Rightarrow> bool" where
  "in_run r idx \<longleftrightarrow> idx - start_idx r < count r"

text \<open>\<open>find\<close> returns a reference to a run of the list: here, its position.\<close>

definition find_run :: "nixlMetaStrideDesc list \<Rightarrow> u64 \<Rightarrow> u64 \<Rightarrow> nat" where
  "find_run runs flat_idx run_size =
     (let mid = unat (flat_idx div run_size)
      in if in_run (runs ! mid) flat_idx then mid
         else let hi = length runs - 1
              in if 0 < hi
                 then if start_idx (runs ! mid) \<le> flat_idx then find_search runs flat_idx mid hi
                      else find_search runs flat_idx 0 (mid - 1)
                 else 0)"

subsection \<open>Flat lists\<close>

definition block :: "nixlMetaStrideDesc \<Rightarrow> nat \<Rightarrow> nixlMetaDesc" where
  "block r k = \<lparr>addr = addr r + of_nat k * stride r, len = len r, devId = devId r, metadataP = strideMetadataP r\<rparr>"

definition run_blocks :: "nixlMetaStrideDesc \<Rightarrow> nixlMetaDesc list" where
  "run_blocks r = map (block r) [0..<unat (count r)]"

definition flat :: "nixlMetaStrideDesc list \<Rightarrow> nixlMetaDesc list" where
  "flat runs = concat (map run_blocks runs)"

lemma length_run_blocks [simp]: "length (run_blocks r) = unat (count r)"
  by (simp add: run_blocks_def)

lemma flat_simps [simp]: "flat [] = []" "flat (r # rs) = run_blocks r @ flat rs" "flat (rs @ rs') = flat rs @ flat rs'"
  by (simp_all add: flat_def)

text \<open>Runs that follow each other without a gap from flat index \<open>s\<close> on, none of them empty.\<close>

fun runs_from :: "nat \<Rightarrow> nixlMetaStrideDesc list \<Rightarrow> bool" where
  "runs_from s [] = True"
| "runs_from s (r # rs) \<longleftrightarrow>
     unat (start_idx r) = s \<and> count r \<noteq> 0 \<and> s + unat (count r) < 2 ^ 64 \<and> runs_from (s + unat (count r)) rs"

lemma runs_from_append:
  "runs_from s (rs @ rs') \<longleftrightarrow> runs_from s rs \<and> runs_from (s + length (flat rs)) rs'"
  by (induction rs arbitrary: s) (auto simp: ac_simps)

lemma runs_from_start:
  assumes "runs_from s rs" and "k < length rs"
  shows "unat (start_idx (rs ! k)) = s + length (flat (take k rs))"
  using assms by (induction rs arbitrary: s k) (auto simp: nth_Cons take_Cons split: nat.split)

lemma runs_from_count:
  assumes "runs_from s rs" and "k < length rs"
  shows "0 < unat (count (rs ! k))" and "unat (start_idx (rs ! k)) + unat (count (rs ! k)) < 2 ^ 64"
  using assms by (induction rs arbitrary: s k) (auto simp: nth_Cons unat_gt_0 split: nat.split)

lemma length_flat_Suc: "k < length rs \<Longrightarrow> length (flat (take (Suc k) rs)) = length (flat (take k rs)) + unat (count (rs ! k))"
  by (simp add: take_Suc_conv_app_nth)

lemma length_flat_mono: "j \<le> k \<Longrightarrow> length (flat (take j rs)) \<le> length (flat (take k rs))"
  by (metis flat_simps(3) le_add1 le_iff_add length_append take_add)

lemma flatSize_flat:
  assumes "runs_from 0 rs"
  shows "unat (flatSize rs) = length (flat rs)"
proof (cases "rs = []")
  case False
  let ?k = "length rs - 1"
  have k: "?k < length rs" "Suc ?k = length rs" using False by simp_all
  have "unat (start_idx (rs ! ?k) + count (rs ! ?k)) = unat (start_idx (rs ! ?k)) + unat (count (rs ! ?k))"
    using runs_from_count(2) [OF assms k(1)] by (rule unat_add_u64)
  also have "\<dots> = length (flat (take (Suc ?k) rs))"
    using runs_from_start [OF assms k(1)] length_flat_Suc [OF k(1)] by simp
  finally show ?thesis
    using False k(2) by (simp add: flatSize_def last_conv_nth)
qed (simp add: flatSize_def)

lemma flat_nth:
  assumes "k < length rs" and "j < unat (count (rs ! k))"
  shows "flat rs ! (length (flat (take k rs)) + j) = block (rs ! k) j"
proof -
  have "flat rs = flat (take k rs) @ run_blocks (rs ! k) @ flat (drop (Suc k) rs)"
    using assms(1) by (metis flat_simps(2,3) id_take_nth_drop)
  then show ?thesis
    using assms(2) by (simp add: nth_append run_blocks_def)
qed

lemma unat_sub_start:
  assumes "unat (start_idx r) \<le> unat i"
  shows "unat (i - start_idx r) = unat i - unat (start_idx r)"
  using assms by (simp add: unat_sub word_le_nat_alt)

text \<open>The wrapping test of the code decides the interval.\<close>

lemma in_run_iff:
  assumes "unat (start_idx r) + unat (count r) < 2 ^ 64"
  shows "in_run r i \<longleftrightarrow> unat (start_idx r) \<le> unat i \<and> unat i < unat (start_idx r) + unat (count r)"
proof (cases "start_idx r \<le> i")
  case True
  then show ?thesis
    by (auto simp: in_run_def word_less_nat_alt unat_sub word_le_nat_alt)
next
  case False
  then have lt: "unat i < unat (start_idx r)"
    by (simp add: word_le_nat_alt)
  have "unat (i - start_idx r) = 2 ^ 64 + unat i - unat (start_idx r)"
    using lt by (simp add: unat_sub_if_size word_size)
  then show ?thesis
    using lt assms by (simp add: in_run_def word_less_nat_alt)
qed

lemma getMetaDesc_block:
  assumes "unat (start_idx r) \<le> unat i"
  shows "getMetaDesc r i 1 = block r (unat i - unat (start_idx r))"
proof -
  have "of_nat (unat i - unat (start_idx r)) = i - start_idx r"
    by (simp flip: unat_sub_start [OF assms])
  then show ?thesis
    by (simp add: getMetaDesc_def block_def)
qed

subsection \<open>Finding a run\<close>

text \<open>The run at position \<open>k\<close> holds flat index \<open>i\<close>.\<close>

definition holds_idx :: "nixlMetaStrideDesc list \<Rightarrow> nat \<Rightarrow> nat \<Rightarrow> bool" where
  "holds_idx rs k i \<longleftrightarrow> k < length rs \<and> unat (start_idx (rs ! k)) \<le> i \<and>
     i < unat (start_idx (rs ! k)) + unat (count (rs ! k))"

lemma holds_idx_unique:
  assumes w: "runs_from 0 rs" and j: "holds_idx rs j i" and k: "holds_idx rs k i"
  shows "j = k"
proof -
  have False if "a < b" "holds_idx rs a i" "holds_idx rs b i" for a b
  proof -
    have "length (flat (take (Suc a) rs)) \<le> length (flat (take b rs))"
      using that(1) by (intro length_flat_mono) simp
    then show False
      using that runs_from_start [OF w, of a] runs_from_start [OF w, of b]
      by (auto simp: holds_idx_def length_flat_Suc)
  qed
  then show ?thesis using j k by (metis nat_neq_iff)
qed

lemma holds_idx_block:
  assumes "runs_from 0 rs" and "holds_idx rs k (unat i)"
  shows "getMetaDesc (rs ! k) i 1 = flat rs ! unat i"
proof -
  let ?j = "unat i - unat (start_idx (rs ! k))"
  have "unat i = length (flat (take k rs)) + ?j" "?j < unat (count (rs ! k))"
    using assms runs_from_start [OF assms(1), of k] by (auto simp: holds_idx_def)
  then show ?thesis
    using assms(2) getMetaDesc_block [of "rs ! k" i] flat_nth [of k rs ?j] by (simp add: holds_idx_def)
qed

lemma find_search_holds:
  assumes w: "runs_from 0 rs" and h: "hi < length rs" "lo \<le> hi"
    and l: "unat (start_idx (rs ! lo)) \<le> unat i" and u: "unat i < length (flat (take (Suc hi) rs))"
  shows "holds_idx rs (find_search rs i lo hi) (unat i)"
  using assms
proof (induction rs i lo hi rule: find_search.induct)
  case (1 rs i lo hi)
  show ?case
  proof (cases "lo < hi")
    case False
    with "1.prems" show ?thesis
      using runs_from_start [of 0 rs lo] by (simp add: find_search.simps holds_idx_def length_flat_Suc)
  next
    case True
    define mid where "mid = (lo + hi + 1) div 2"
    have mid: "lo < mid" "mid \<le> hi" using True by (auto simp: mid_def)
    have step: "find_search rs i lo hi =
      (if start_idx (rs ! mid) \<le> i then find_search rs i mid hi else find_search rs i lo (mid - 1))"
      using True by (simp add: find_search.simps [of rs i lo hi] mid_def)
    show ?thesis
    proof (cases "start_idx (rs ! mid) \<le> i")
      case le: True
      with "1.IH"(1) [OF True mid_def le] "1.prems" mid show ?thesis
        unfolding step by (simp add: word_le_nat_alt)
    next
      case gt: False
      have "unat i < length (flat (take mid rs))"
        using gt mid "1.prems" runs_from_start [of 0 rs mid] by (simp add: word_le_nat_alt)
      moreover have "Suc (mid - 1) = mid" using mid by simp
      ultimately show ?thesis
        using "1.IH"(2) [OF True mid_def gt] "1.prems" mid gt unfolding step by simp
    qed
  qed
qed

text \<open>The caller's \<open>run_size\<close>: the flat size divided by the number of runs, rounded up.\<close>

definition run_size_of :: "nixlMetaStrideDesc list \<Rightarrow> u64" where
  "run_size_of runs = (flatSize runs + of_nat (length runs) - 1) div of_nat (length runs)"

text \<open>Lists for which that computation does not wrap.\<close>

definition runs_wf :: "nixlMetaStrideDesc list \<Rightarrow> bool" where
  "runs_wf rs \<longleftrightarrow> rs \<noteq> [] \<and> runs_from 0 rs \<and> length (flat rs) + length rs \<le> 2 ^ 64"

lemma length_le_flat: "runs_from s rs \<Longrightarrow> length rs \<le> length (flat rs)"
proof (induction rs arbitrary: s)
  case (Cons r rs)
  then have "0 < unat (count r)" "length rs \<le> length (flat rs)" by (auto simp: unat_gt_0)
  then show ?case by simp
qed simp

lemma unat_run_size:
  assumes "runs_wf rs"
  shows "unat (run_size_of rs) = (length (flat rs) + length rs - 1) div length rs"
proof -
  let ?n = "length rs" and ?s = "length (flat rs)"
  have n: "0 < ?n" "?n < 2 ^ 64" and s: "?s + ?n - 1 < 2 ^ 64" and ns: "?n \<le> ?s"
    using assms length_le_flat [of 0 rs] by (auto simp: runs_wf_def)
  have un: "unat (of_nat ?n :: u64) = ?n" using n by (simp add: unat_word_of_nat_64)
  have "flatSize rs = of_nat ?s"
    using flatSize_flat [of rs] assms by (simp add: runs_wf_def flip: flatSize_flat)
  moreover have "of_nat (?s + ?n - 1) = (of_nat (?s + ?n) - of_nat 1 :: u64)"
    by (rule of_nat_diff) (use n(1) in linarith)
  ultimately have "flatSize rs + of_nat ?n - 1 = (of_nat (?s + ?n - 1) :: u64)"
    by simp
  then show ?thesis
    unfolding run_size_of_def using un s by (simp add: unat_div_distrib unat_word_of_nat_64)
qed

text \<open>The probe stays inside the list, as the comment at the call claims.\<close>

lemma probe_in_range:
  assumes w: "runs_wf rs" and i: "unat i < length (flat rs)"
  shows "unat (i div run_size_of rs) < length rs"
proof -
  let ?n = "length rs" and ?s = "length (flat rs)"
  let ?q = "(?s + ?n - 1) div ?n"
  have n: "0 < ?n" using w by (auto simp: runs_wf_def)
  have "?s + ?n - 1 < ?n * (?q + 1)"
    using n by (simp add: dividend_less_times_div)
  then have "?s \<le> ?n * ?q" using n by (simp add: algebra_simps)
  with i have "unat i < ?n * ?q" by simp
  moreover have "0 < ?q" using n i by (auto simp: div_greater_zero_iff)
  ultimately show ?thesis
    by (simp add: unat_div_distrib unat_run_size [OF w] less_mult_imp_div_less)
qed

lemma find_run_holds:
  assumes w: "runs_wf rs" and i: "unat i < length (flat rs)"
  shows "holds_idx rs (find_run rs i (run_size_of rs)) (unat i)"
proof -
  let ?mid = "unat (i div run_size_of rs)"
  have r: "runs_from 0 rs" "rs \<noteq> []" using w by (auto simp: runs_wf_def)
  note mid = probe_in_range [OF w i]
  have zero: "unat (start_idx (rs ! 0)) \<le> unat i" using runs_from_start [OF r(1), of 0] r(2) by simp
  show ?thesis
  proof (cases "in_run (rs ! ?mid) i")
    case True
    then show ?thesis
      using mid runs_from_count(2) [OF r(1) mid] by (simp add: find_run_def in_run_iff holds_idx_def)
  next
    case miss: False
    show ?thesis
    proof (cases "start_idx (rs ! ?mid) \<le> i")
      case True
      have fs: "holds_idx rs (find_search rs i ?mid (length rs - 1)) (unat i)"
        using True mid i by (intro find_search_holds [OF r(1)]) (auto simp: word_le_nat_alt)
      show ?thesis
      proof (cases "length rs = 1")
        case one: True
        with mid have "?mid = 0" by simp
        with fs one show ?thesis
          using miss by (simp add: find_run_def Let_def find_search.simps [of rs i 0 0])
      qed (use miss True mid fs r(2) in \<open>auto simp: find_run_def Let_def\<close>)
    next
      case False
      have "?mid \<noteq> 0" using False zero by (auto simp: word_le_nat_alt intro!: Nat.gr0I)
      moreover have "unat i < length (flat (take ?mid rs))"
        using False runs_from_start [OF r(1) mid] by (simp add: word_le_nat_alt)
      ultimately show ?thesis
        using miss False mid zero find_search_holds [OF r(1), of "?mid - 1" 0 i]
        by (auto simp: find_run_def Let_def)
    qed
  qed
qed


subsection \<open>Properties\<close>

text \<open>Looking up a block of a compressed list is right for every valid index: the guess
  \<open>flat_idx / run_size\<close> is a position of the list, the binary search that follows a wrong guess
  ends in the run that holds the block, and the descriptor taken from that run is the block of
  the decompressed list at that index.\<close>

theorem find_run_correct:
  assumes "runs_wf rs" and "unat i < length (flat rs)"
  shows "unat (i div run_size_of rs) < length rs \<and> find_run rs i (run_size_of rs) < length rs \<and>
    getMetaDesc (rs ! find_run rs i (run_size_of rs)) i 1 = flat rs ! unat i"
  using probe_in_range [OF assms] find_run_holds [OF assms] holds_idx_block [of rs _ i] assms(1)
  by (simp add: holds_idx_def runs_wf_def)

theorem find_run_correct_witness:
  "let r = \<lambda>a n s. \<lparr>addr = a, len = 8, devId = 0, stride = 16, count = n, strideMetadataP = 1, start_idx = s\<rparr>;
       rs = [r 0 1 0, r 1024 1 1, r 4096 4 2]
   in getMetaDesc (rs ! find_run rs 3 (run_size_of rs)) 3 1 = flat rs ! 3"
proof -
  define r :: "u64 \<Rightarrow> u64 \<Rightarrow> u64 \<Rightarrow> nixlMetaStrideDesc" where
    "r a n s = \<lparr>addr = a, len = 8, devId = 0, stride = 16, count = n, strideMetadataP = 1, start_idx = s\<rparr>" for a n s
  define rs where "rs = [r 0 1 0, r 1024 1 1, r 4096 4 2]"
  have "runs_wf rs" "unat (3 :: u64) < length (flat rs)"
    by (simp_all add: rs_def r_def runs_wf_def)
  from find_run_correct [OF this] show ?thesis
    unfolding Let_def r_def [symmetric] rs_def [symmetric] by simp
qed

text \<open>The caller's \<open>run_size\<close> is zero for a list whose flat size is the largest \<open>size_t\<close>,
  because \<open>flat size + runs - 1\<close> wraps; \<open>find\<close> then divides by zero. Two runs over unbounded
  storage regions pass the checks of \<open>populate\<close> and have that flat size.\<close>

theorem run_size_wraps_to_zero:
  "let r = \<lambda>n s. \<lparr>addr = 0, len = 1, devId = 0, stride = 1, count = n, strideMetadataP = 1, start_idx = s\<rparr>;
       rs = [r (2 ^ 63) 0, r (2 ^ 63 - 1) (2 ^ 63)]
   in runs_from 0 rs \<and> run_size_of rs = 0"
  by (simp add: Let_def run_size_of_def flatSize_def)

end
