(* ===== verification/Nixl_Merge.thy ===== *)
theory Nixl_Merge
  imports Nixl_Strides "HOL-Library.Monad_Syntax"
begin

text \<open>
  Building the descriptor lists of a transfer from index pairs into two compressed lists
  (\<open>nixlContinuationBitmap\<close> and \<open>mergeIndices\<close> in \<open>src/core/nixl_agent.cpp\<close>). Pairs that continue
  each other inside dense runs become one descriptor; which pairs continue is read from a bitmap
  filled 8192 pairs at a time. The development shows that the bitmap counts what a plain scan
  counts, that merging neither drops, adds nor reorders a block, and that exactly the lists with an
  invalid pair are rejected.
\<close>

unbundle bit_operations_syntax

subsection \<open>The continuation bitmap\<close>

text \<open>Indices are 32-bit \<open>int\<close>s; the code compares them as \<open>unsigned\<close>, which keeps the word.\<close>

definition isContinuation :: "u32 list \<Rightarrow> u32 list \<Rightarrow> nat \<Rightarrow> bool" where
  "isContinuation local remote pair \<longleftrightarrow>
     local ! pair - local ! (pair - 1) = 1 \<and> remote ! pair - remote ! (pair - 1) = 1"

definition lane_bits :: "nat \<Rightarrow> u32" where
  "lane_bits lane = push_bit lane 1"

definition continuationBits :: "u32 list \<Rightarrow> u32 list \<Rightarrow> nat \<Rightarrow> u32" where
  "continuationBits local remote first =
     foldl (\<lambda>bits lane. bits + (lane_bits lane AND (0 - of_bool (isContinuation local remote (first + lane)))))
       0 [0..<32]"

definition chunkPairs :: nat where "chunkPairs = 8192"

record nixlContinuationBitmap =
  bm_local :: "u32 list"
  bm_remote :: "u32 list"
  bm_count :: nat
  bm_words :: "u64 list"
  chunkFirst :: nat
  chunkEnd :: nat

definition bitmap_new :: "u32 list \<Rightarrow> u32 list \<Rightarrow> nat \<Rightarrow> nixlContinuationBitmap" where
  "bitmap_new local remote n =
     \<lparr>bm_local = local, bm_remote = remote, bm_count = n, bm_words = replicate (chunkPairs div 64) 0,
      chunkFirst = 0, chunkEnd = 0\<rparr>"

text \<open>One round of the loop of \<open>fillChunk\<close>: the word of the 64 pairs from \<open>first\<close> on.\<close>

definition chunk_word :: "u32 list \<Rightarrow> u32 list \<Rightarrow> nat \<Rightarrow> nat \<Rightarrow> u64" where
  "chunk_word local remote n first =
     (if first + 64 \<le> n
      then ucast (continuationBits local remote first) OR
           push_bit 32 (ucast (continuationBits local remote (first + 32)))
      else foldl (\<lambda>w pair. if isContinuation local remote pair then w OR push_bit (pair - first) 1 else w)
             0 [first..<n])"

function fill_words :: "u32 list \<Rightarrow> u32 list \<Rightarrow> nat \<Rightarrow> nat \<Rightarrow> nat \<Rightarrow> nat \<Rightarrow> u64 list \<Rightarrow> u64 list" where
  "fill_words local remote n chunk_end i first ws =
     (if first < chunk_end
      then fill_words local remote n chunk_end (i + 1) (first + 64) (ws[i := chunk_word local remote n first])
      else ws)"
  by pat_completeness auto
termination
  by (relation "measure (\<lambda>(local, remote, n, chunk_end, i, first, ws). chunk_end - first)") auto

declare fill_words.simps [simp del]

definition fillChunk :: "nat \<Rightarrow> nixlContinuationBitmap \<Rightarrow> nixlContinuationBitmap" where
  "fillChunk first bm =
     (let chunk_end = min (first + chunkPairs) (bm_count bm)
      in bm\<lparr>chunkFirst := first, chunkEnd := chunk_end,
           bm_words := fill_words (bm_local bm) (bm_remote bm) (bm_count bm) chunk_end 0 first (bm_words bm)\<rparr>)"

text \<open>\<open>std::countr_one\<close>: the number of consecutive 1 bits from the lowest one up.\<close>

definition countr_one :: "u64 \<Rightarrow> nat" where
  "countr_one w = length (takeWhile (bit w) [0..<64])"

function count_words :: "u64 list \<Rightarrow> nat \<Rightarrow> nat \<Rightarrow> nat \<Rightarrow> nat \<Rightarrow> nat" where
  "count_words ws first_bit limit ones cnt =
     (if 0 < ones \<and> cnt < limit \<and> (first_bit + cnt) mod 64 = 0
      then let ones' = countr_one (ws ! ((first_bit + cnt) div 64))
           in count_words ws first_bit limit ones' (cnt + ones')
      else cnt)"
  by pat_completeness auto
termination
  by (relation "measure (\<lambda>(ws, first_bit, limit, ones, cnt). 2 * (limit - cnt) + of_bool (0 < ones))") auto

declare count_words.simps [simp del]

definition countInChunk :: "nixlContinuationBitmap \<Rightarrow> nat \<Rightarrow> nat \<Rightarrow> nat" where
  "countInChunk bm pair limit =
     (let first_bit = pair - chunkFirst bm;
          ones = countr_one (drop_bit (first_bit mod 64) (bm_words bm ! (first_bit div 64)))
      in min (count_words (bm_words bm) first_bit limit ones ones) limit)"

text \<open>Past the last pair the loop of \<open>countContinuations\<close> makes no progress, so its result is an
  option.\<close>

partial_function (option) continuations_loop ::
    "nixlContinuationBitmap \<Rightarrow> nat \<Rightarrow> nat \<Rightarrow> nat \<Rightarrow> (nixlContinuationBitmap \<times> nat) option" where
  "continuations_loop bm pair limit cnt =
     (if cnt < limit
      then let next = pair + cnt;
               bm' = (if next \<ge> chunkEnd bm then fillChunk next bm else bm);
               in_chunk = min (limit - cnt) (chunkEnd bm' - next);
               continued = countInChunk bm' next in_chunk
           in if continued < in_chunk then Some (bm', cnt + continued)
              else continuations_loop bm' pair limit (cnt + continued)
      else Some (bm, cnt))"

declare continuations_loop.simps [code]

definition countContinuations :: "nat \<Rightarrow> nat \<Rightarrow> nixlContinuationBitmap \<Rightarrow> (nixlContinuationBitmap \<times> nat) option" where
  "countContinuations pair limit bm = continuations_loop bm pair limit 0"

subsection \<open>What the bitmap counts\<close>

text \<open>The reference: a scan of the pairs from \<open>p\<close> on.\<close>

definition run_len :: "(nat \<Rightarrow> bool) \<Rightarrow> nat \<Rightarrow> nat \<Rightarrow> nat" where
  "run_len c p n = length (takeWhile c [p..<p + n])"

lemma run_len_eqI:
  assumes "m \<le> n" and "\<And>j. j < m \<Longrightarrow> c (p + j)" and "m < n \<Longrightarrow> \<not> c (p + m)"
  shows "run_len c p n = m"
proof -
  have "[p..<p + n] = [p..<p + m] @ [p + m..<p + n]"
    using upt_add_eq_append [of p "p + m" "n - m"] assms(1) by simp
  moreover have "takeWhile c ([p..<p + m] @ [p + m..<p + n]) = [p..<p + m] @ takeWhile c [p + m..<p + n]"
    by (rule takeWhile_append2) (use assms(2) in \<open>auto simp: le_iff_add\<close>)
  moreover have "takeWhile c [p + m..<p + n] = []"
    using assms(1,3) by (cases "m = n") (simp_all add: upt_conv_Cons)
  ultimately show ?thesis
    by (simp add: run_len_def)
qed

lemma run_len_le: "run_len c p n \<le> n"
  using length_takeWhile_le [of c "[p..<p + n]"] by (simp add: run_len_def)

lemma run_len_cont: "j < run_len c p n \<Longrightarrow> c (p + j)"
proof -
  assume j: "j < run_len c p n"
  then have "takeWhile c [p..<p + n] ! j = p + j"
    using run_len_le [of c p n] by (simp add: run_len_def takeWhile_nth)
  then show ?thesis
    using j nth_mem [of j "takeWhile c [p..<p + n]"] by (metis run_len_def set_takeWhileD)
qed

lemma run_len_stop: "run_len c p n < n \<Longrightarrow> \<not> c (p + run_len c p n)"
  using nth_length_takeWhile [of c "[p..<p + n]"] by (simp add: run_len_def)

lemma countr_one_drop:
  assumes "s < 64"
  shows "countr_one (drop_bit s w) = run_len (bit w) s (64 - s)"
proof -
  have "countr_one (drop_bit s w) = run_len (\<lambda>k. bit w (s + k)) 0 64"
    by (simp add: countr_one_def run_len_def bit_drop_bit_eq comp_def)
  also have "\<dots> = run_len (bit w) s (64 - s)"
  proof (rule run_len_eqI)
    show "run_len (bit w) s (64 - s) \<le> 64" using run_len_le [of "bit w" s "64 - s"] by simp
    show "bit w (s + (0 + j))" if "j < run_len (bit w) s (64 - s)" for j
      using run_len_cont [OF that] by simp
    show "\<not> bit w (s + (0 + run_len (bit w) s (64 - s)))"
    proof (cases "run_len (bit w) s (64 - s) < 64 - s")
      case False
      then have "run_len (bit w) s (64 - s) = 64 - s" using run_len_le [of "bit w" s "64 - s"] by simp
      then show ?thesis using assms bit_imp_le_length [of w 64] by auto
    qed (use run_len_stop in simp)
  qed
  finally show ?thesis .
qed

lemma continuationBits_bit:
  assumes "lane < 32"
  shows "bit (continuationBits local remote first) lane \<longleftrightarrow> isContinuation local remote (first + lane)"
proof -
  define S where "S n = foldl (\<lambda>bits lane. bits +
    (lane_bits lane AND (0 - of_bool (isContinuation local remote (first + lane))))) 0 [0..<n]" for n
  have "\<forall>k. bit (S n) k \<longleftrightarrow> k < n \<and> isContinuation local remote (first + k)" if "n \<le> 32" for n
    using that
  proof (induction n)
    case 0
    then show ?case by (simp add: S_def)
  next
    case (Suc n)
    let ?c = "isContinuation local remote (first + n)"
    have b: "bit (S n) k \<longleftrightarrow> k < n \<and> isContinuation local remote (first + k)" for k
      using Suc by simp
    have l: "bit (lane_bits n) k \<longleftrightarrow> k = n" for k
      using Suc.prems by (auto simp: lane_bits_def bit_simps)
    have "S n AND lane_bits n = 0"
      by (rule bit_eqI) (auto simp: bit_and_iff b l)
    then have "S n + lane_bits n = S n OR lane_bits n"
      by (rule disjunctive_add_eq_or)
    then have "S (Suc n) = (if ?c then S n OR lane_bits n else S n)"
      by (simp add: S_def)
    then show ?case
      by (auto simp: bit_or_iff b l less_Suc_eq)
  qed
  from this [of 32] assms show ?thesis
    by (simp add: continuationBits_def S_def)
qed

lemma tail_word_bit:
  assumes "d \<le> 64"
  shows "bit (foldl (\<lambda>w pair. if c pair then w OR push_bit (pair - first) 1 else w) (0 :: u64) [first..<first + d]) k
    \<longleftrightarrow> k < d \<and> c (first + k)"
  using assms
proof (induction d arbitrary: k)
  case (Suc d)
  have "bit (push_bit d 1 :: u64) k \<longleftrightarrow> k = d" for k
    using Suc.prems by (auto simp: bit_simps)
  with Suc show ?case
    by (auto simp: bit_or_iff less_Suc_eq)
qed simp

lemma chunk_word_bit:
  assumes "k < 64" and "first < n"
  shows "bit (chunk_word local remote n first) k \<longleftrightarrow> first + k < n \<and> isContinuation local remote (first + k)"
proof (cases "first + 64 \<le> n")
  case True
  show ?thesis
  proof (cases "k < 32")
    case k: True
    then show ?thesis
      using True by (simp add: chunk_word_def bit_or_iff bit_push_bit_iff bit_unsigned_iff continuationBits_bit)
  next
    case False
    then have "bit (ucast (continuationBits local remote first) :: u64) k = False"
      using bit_imp_le_length [of "continuationBits local remote first" k] by (auto simp: bit_unsigned_iff)
    moreover have "k - 32 < 32" using assms(1) by simp
    ultimately show ?thesis
      using False True assms continuationBits_bit [of "k - 32" local remote "first + 32"]
      by (simp add: chunk_word_def bit_or_iff bit_push_bit_iff bit_unsigned_iff)
  qed
next
  case False
  then show ?thesis
    using assms tail_word_bit [of "n - first" "isContinuation local remote" first k]
    by (simp add: chunk_word_def) linarith
qed

lemma length_fill_words [simp]: "length (fill_words local remote n e i first ws) = length ws"
  by (induction local remote n e i first ws rule: fill_words.induct) (subst fill_words.simps, simp)

lemma fill_words_nth:
  assumes "j < length ws"
  shows "fill_words local remote n e i first ws ! j =
    (if i \<le> j \<and> first + 64 * (j - i) < e then chunk_word local remote n (first + 64 * (j - i)) else ws ! j)"
  using assms
proof (induction local remote n e i first ws rule: fill_words.induct)
  case (1 local remote n e i first ws)
  show ?case
  proof (cases "first < e")
    case True
    consider "j < i" | "j = i" | d where "j = Suc (i + d)" by (metis less_imp_Suc_add linorder_neqE_nat)
    then show ?thesis
    proof cases
      case 3
      then show ?thesis
        using "1.IH" [OF True] "1.prems" True by (simp add: fill_words.simps [of _ _ _ _ i] add.assoc)
    qed (use "1.IH" [OF True] "1.prems" True in \<open>simp_all add: fill_words.simps [of _ _ _ _ i]\<close>)
  qed (simp add: fill_words.simps [of _ _ _ _ i])
qed


text \<open>What a count over words returns when the words hold the bits of a predicate \<open>D\<close>.\<close>

definition words_hold :: "u64 list \<Rightarrow> nat \<Rightarrow> (nat \<Rightarrow> bool) \<Rightarrow> bool" where
  "words_hold ws e D \<longleftrightarrow> (\<forall>w. 64 * w < e \<longrightarrow> (\<forall>k < 64. bit (ws ! w) k \<longleftrightarrow> D (64 * w + k)))"

lemma words_hold_bit:
  assumes "words_hold ws e D" and "b < e" and "b mod 64 + k < 64"
  shows "bit (ws ! (b div 64)) (b mod 64 + k) \<longleftrightarrow> D (b + k)"
proof -
  have "64 * (b div 64) + (b mod 64 + k) = b + k"
    using mult_div_mod_eq [of 64 b] by linarith
  moreover have "64 * (b div 64) < e"
    using assms(2) mult_div_mod_eq [of 64 b] by linarith
  ultimately show ?thesis
    using assms(1,3) unfolding words_hold_def by metis
qed

text \<open>The bits counted in the word of position \<open>b\<close>.\<close>

lemma ones_hold:
  assumes h: "words_hold ws e D" and b: "b < e"
  defines "ones \<equiv> countr_one (drop_bit (b mod 64) (ws ! (b div 64)))"
  shows "j < ones \<Longrightarrow> D (b + j)"
    and "ones = 0 \<or> (b + ones) mod 64 \<noteq> 0 \<Longrightarrow> \<not> D (b + ones)"
proof -
  let ?s = "b mod 64" and ?w = "ws ! (b div 64)"
  have s: "?s < 64" by simp
  have ones: "ones = run_len (bit ?w) ?s (64 - ?s)"
    unfolding ones_def by (rule countr_one_drop [OF s])
  show "D (b + j)" if "j < ones"
  proof -
    have "?s + j < 64" using run_len_le [of "bit ?w" ?s "64 - ?s"] that s unfolding ones by linarith
    with run_len_cont [of j "bit ?w" ?s "64 - ?s"] that words_hold_bit [OF h b, of j] show ?thesis
      by (simp add: ones)
  qed
  show "\<not> D (b + ones)" if "ones = 0 \<or> (b + ones) mod 64 \<noteq> 0"
  proof -
    have "ones \<noteq> 64 - ?s"
    proof
      assume eq: "ones = 64 - ?s"
      then have "ones + b mod 64 = 64" using s by simp
      then have "b + ones = 64 * (b div 64) + 64"
        using mult_div_mod_eq [of 64 b] by linarith
      then have "(b + ones) mod 64 = 0" by simp
      with that eq s show False by simp
    qed
    then have lt: "ones < 64 - ?s"
      using run_len_le [of "bit ?w" ?s "64 - ?s"] by (simp add: ones)
    then have "?s + ones < 64" by linarith
    with lt run_len_stop [of "bit ?w" ?s "64 - ?s"] words_hold_bit [OF h b, of ones] show ?thesis
      by (simp add: ones)
  qed
qed

lemma count_words_run:
  assumes h: "words_hold ws e D" and "first_bit + limit \<le> e"
    and "\<forall>j < cnt. D (first_bit + j)"
    and "ones = 0 \<or> (first_bit + cnt) mod 64 \<noteq> 0 \<longrightarrow> \<not> D (first_bit + cnt)"
  shows "min (count_words ws first_bit limit ones cnt) limit = run_len D first_bit limit"
  using assms
proof (induction ws first_bit limit ones cnt rule: count_words.induct)
  case (1 ws first_bit limit ones cnt)
  show ?case
  proof (cases "0 < ones \<and> cnt < limit \<and> (first_bit + cnt) mod 64 = 0")
    case True
    define b where "b = first_bit + cnt"
    define ones' where "ones' = countr_one (ws ! (b div 64))"
    have b: "b < e" "drop_bit (b mod 64) (ws ! (b div 64)) = ws ! (b div 64)"
      using True "1.prems"(2) by (auto simp: b_def)
    note o = ones_hold [OF "1.prems"(1) b(1), unfolded b(2), folded ones'_def]
    have "\<forall>j < cnt + ones'. D (first_bit + j)"
      using "1.prems"(3) o(1) by (metis add.assoc b_def le_add_diff_inverse nat_add_left_cancel_less not_less)
    moreover have "ones' = 0 \<or> (first_bit + (cnt + ones')) mod 64 \<noteq> 0 \<longrightarrow> \<not> D (first_bit + (cnt + ones'))"
      using o(2) by (simp add: b_def add.assoc)
    ultimately show ?thesis
      using "1.IH" [OF True ones'_def [unfolded b_def] "1.prems"(1,2)] True
      by (subst count_words.simps) (simp add: ones'_def b_def Let_def)
  next
    case False
    then have "min cnt limit = run_len D first_bit limit"
      using "1.prems"(3,4) by (intro run_len_eqI [symmetric]) auto
    with False show ?thesis
      by (subst count_words.simps) auto
  qed
qed

subsubsection \<open>The bitmap as a whole\<close>

definition bm_ok :: "nixlContinuationBitmap \<Rightarrow> bool" where
  "bm_ok bm \<longleftrightarrow> length (bm_words bm) = chunkPairs div 64 \<and> chunkEnd bm \<le> bm_count bm \<and>
     chunkEnd bm \<le> chunkFirst bm + chunkPairs \<and>
     (\<forall>w. chunkFirst bm + 64 * w < chunkEnd bm \<longrightarrow>
        bm_words bm ! w = chunk_word (bm_local bm) (bm_remote bm) (bm_count bm) (chunkFirst bm + 64 * w))"

definition bm_cont :: "nixlContinuationBitmap \<Rightarrow> nat \<Rightarrow> bool" where
  "bm_cont bm p \<longleftrightarrow> isContinuation (bm_local bm) (bm_remote bm) p"

lemma bitmap_new_ok: "bm_ok (bitmap_new local remote n)"
  by (simp add: bm_ok_def bitmap_new_def)

lemma bm_ok_holds:
  assumes "bm_ok bm"
  shows "words_hold (bm_words bm) (chunkEnd bm - chunkFirst bm)
    (\<lambda>b. chunkFirst bm + b < bm_count bm \<and> bm_cont bm (chunkFirst bm + b))"
  unfolding words_hold_def
proof (intro allI impI)
  fix w k :: nat
  assume w: "64 * w < chunkEnd bm - chunkFirst bm" and k: "k < 64"
  then have "bm_words bm ! w = chunk_word (bm_local bm) (bm_remote bm) (bm_count bm) (chunkFirst bm + 64 * w)"
    "chunkFirst bm + 64 * w < bm_count bm"
    using assms by (auto simp: bm_ok_def)
  then show "bit (bm_words bm ! w) k \<longleftrightarrow>
      chunkFirst bm + (64 * w + k) < bm_count bm \<and> bm_cont bm (chunkFirst bm + (64 * w + k))"
    using chunk_word_bit [OF k] by (simp add: bm_cont_def add.assoc)
qed

lemma fillChunk_ok:
  assumes "bm_ok bm" and "first < bm_count bm"
  shows "bm_ok (fillChunk first bm)" and "chunkFirst (fillChunk first bm) = first"
    and "first < chunkEnd (fillChunk first bm)" and "bm_cont (fillChunk first bm) = bm_cont bm"
    and "bm_count (fillChunk first bm) = bm_count bm"
  using assms
  by (auto simp: bm_ok_def fillChunk_def Let_def fill_words_nth chunkPairs_def bm_cont_def [abs_def])

lemma countInChunk_run:
  assumes ok: "bm_ok bm" and p: "chunkFirst bm \<le> pair" "pair + limit \<le> chunkEnd bm" "0 < limit"
  shows "countInChunk bm pair limit = run_len (bm_cont bm) pair limit"
proof -
  let ?b = "pair - chunkFirst bm"
  let ?D = "\<lambda>b. chunkFirst bm + b < bm_count bm \<and> bm_cont bm (chunkFirst bm + b)"
  note h = bm_ok_holds [OF ok]
  have b: "?b < chunkEnd bm - chunkFirst bm" "?b + limit \<le> chunkEnd bm - chunkFirst bm"
    using p by auto
  have "countInChunk bm pair limit = run_len ?D ?b limit"
    unfolding countInChunk_def Let_def
    by (rule count_words_run [OF h b(2)], intro allI impI, erule ones_hold(1) [OF h b(1)],
        intro impI, erule ones_hold(2) [OF h b(1)])
  also have "\<dots> = run_len (bm_cont bm) pair limit"
  proof (rule run_len_eqI)
    let ?m = "run_len (bm_cont bm) pair limit"
    have in_range: "chunkFirst bm + (?b + j) = pair + j" "j < limit \<Longrightarrow> pair + j < bm_count bm" for j
      using p ok by (auto simp: bm_ok_def)
    show m: "?m \<le> limit" by (rule run_len_le)
    show "?D (?b + j)" if "j < ?m" for j
      using run_len_cont [OF that] in_range [of j] that m by simp
    show "\<not> ?D (?b + ?m)" if "?m < limit"
      using run_len_stop [OF that] in_range [of ?m] that by simp
  qed
  finally show ?thesis .
qed

lemma continuations_loop_run:
  assumes "bm_ok bm" and "cnt \<le> limit" and "pair + limit \<le> bm_count bm" and "chunkFirst bm \<le> pair + cnt"
    and "\<forall>j < cnt. bm_cont bm (pair + j)"
  shows "\<exists>bm'. continuations_loop bm pair limit cnt = Some (bm', run_len (bm_cont bm) pair limit) \<and>
    bm_ok bm' \<and> bm_cont bm' = bm_cont bm \<and> bm_count bm' = bm_count bm \<and>
    chunkFirst bm' \<le> pair + run_len (bm_cont bm) pair limit"
  using assms
proof (induction "limit - cnt" arbitrary: bm cnt rule: less_induct)
  case less
  note ok = less.prems
  show ?case
  proof (cases "cnt < limit")
    case False
    then have "run_len (bm_cont bm) pair limit = cnt"
      using ok by (intro run_len_eqI) auto
    with False ok show ?thesis
      by (simp add: continuations_loop.simps [of bm])
  next
    case True
    define next_p where "next_p = pair + cnt"
    define bm1 where "bm1 = (if next_p \<ge> chunkEnd bm then fillChunk next_p bm else bm)"
    define m where "m = min (limit - cnt) (chunkEnd bm1 - next_p)"
    define k where "k = countInChunk bm1 next_p m"
    have "next_p < bm_count bm" using ok True by (simp add: next_p_def)
    note f = fillChunk_ok [OF ok(1) this]
    have b1: "bm_ok bm1" "bm_cont bm1 = bm_cont bm" "bm_count bm1 = bm_count bm"
      "chunkFirst bm1 \<le> next_p" "next_p < chunkEnd bm1"
      using f ok by (auto simp: bm1_def next_p_def not_le)
    have m: "0 < m" "cnt + m \<le> limit" "next_p + m \<le> chunkEnd bm1" using True b1(5) by (auto simp: m_def)
    have k: "k = run_len (bm_cont bm) next_p m"
      unfolding k_def using countInChunk_run [OF b1(1,4) m(3,1)] b1(2) by simp
    have km: "k \<le> m" using k run_len_le by simp
    have cont: "\<forall>j < cnt + k. bm_cont bm (pair + j)"
    proof (intro allI impI)
      fix j assume "j < cnt + k"
      then show "bm_cont bm (pair + j)"
        using ok(5) run_len_cont [of "j - cnt" "bm_cont bm" next_p m] k
        by (cases "j < cnt") (auto simp: next_p_def)
    qed
    have step: "continuations_loop bm pair limit cnt =
      (if k < m then Some (bm1, cnt + k) else continuations_loop bm1 pair limit (cnt + k))"
      by (subst continuations_loop.simps) (simp only: True if_True Let_def next_p_def bm1_def m_def k_def)
    show ?thesis
    proof (cases "k < m")
      case stop: True
      have "\<not> bm_cont bm (pair + (cnt + k))"
        using run_len_stop [of "bm_cont bm" next_p m] stop k by (simp add: next_p_def add.assoc)
      then have "run_len (bm_cont bm) pair limit = cnt + k"
        using cont km m by (intro run_len_eqI) auto
      with stop b1 show ?thesis unfolding step by (simp add: next_p_def)
    next
      case False
      with km have "k = m" by simp
      with less.hyps [of "cnt + k" bm1] b1 m cont ok(3) True show ?thesis
        unfolding step using False by (simp add: next_p_def)
    qed
  qed
qed

lemma countContinuations_run:
  assumes "bm_ok bm" and "pair + limit \<le> bm_count bm" and "chunkFirst bm \<le> pair"
  obtains bm' where "countContinuations pair limit bm = Some (bm', run_len (bm_cont bm) pair limit)"
    and "bm_ok bm'" and "bm_cont bm' = bm_cont bm" and "bm_count bm' = bm_count bm"
    and "chunkFirst bm' \<le> pair + run_len (bm_cont bm) pair limit"
  using continuations_loop_run [of bm 0 limit pair] assms by (auto simp: countContinuations_def)

subsection \<open>Merging index pairs\<close>

record merge_state =
  local_run :: nixlMetaStrideDesc
  remote_run :: nixlMetaStrideDesc
  dense :: bool
  bitmap :: nixlContinuationBitmap
  initiator_descs :: "nixlMetaDesc list"
  target_descs :: "nixlMetaDesc list"
  total_bytes :: u64

definition empty_run :: nixlMetaStrideDesc where
  "empty_run = \<lparr>addr = 0, len = 0, devId = 0, stride = 0, count = 0, strideMetadataP = 0, start_idx = 0\<rparr>"

text \<open>Leaving the cached runs: the range checks, the two look-ups and the length check.\<close>

definition switch_runs :: "nixlMetaStrideDesc list \<Rightarrow> nixlMetaStrideDesc list \<Rightarrow> bool \<Rightarrow> u64 \<Rightarrow> u64 \<Rightarrow>
    merge_state \<Rightarrow> nixl_status_t + merge_state" where
  "switch_runs ls rs skip_desc_merge local_idx remote_idx st =
     (if local_idx - start_idx (local_run st) \<ge> count (local_run st) \<or>
         remote_idx - start_idx (remote_run st) \<ge> count (remote_run st)
      then if local_idx \<ge> flatSize ls then Inl NIXL_ERR_INVALID_PARAM
           else if remote_idx \<ge> flatSize rs then Inl NIXL_ERR_INVALID_PARAM
           else let l = ls ! find_run ls local_idx (run_size_of ls);
                    r = rs ! find_run rs remote_idx (run_size_of rs)
                in if len l \<noteq> len r then Inl NIXL_ERR_INVALID_PARAM
                   else Inr (st\<lparr>local_run := l, remote_run := r,
                              dense := \<not> skip_desc_merge \<and> stride l = len l \<and> stride l = stride r\<rparr>)
      else Inr st)"

definition seq_cap :: "merge_state \<Rightarrow> u64 \<Rightarrow> u64 \<Rightarrow> nat \<Rightarrow> nat" where
  "seq_cap st local_idx remote_idx left =
     min (min (unat (start_idx (local_run st) + count (local_run st) - local_idx))
              (unat (start_idx (remote_run st) + count (remote_run st) - remote_idx))) left"

definition next_seq :: "merge_state \<Rightarrow> u64 \<Rightarrow> u64 \<Rightarrow> nat \<Rightarrow> nat \<Rightarrow> (nixlContinuationBitmap \<times> nat) option" where
  "next_seq st local_idx remote_idx n i =
     (if dense st
      then map_option (\<lambda>(bm, c). (bm, Suc c))
             (countContinuations (i + 1) (seq_cap st local_idx remote_idx (n - i) - 1) (bitmap st))
      else Some (bitmap st, 1))"

definition emit :: "merge_state \<Rightarrow> u64 \<Rightarrow> u64 \<Rightarrow> nat \<Rightarrow> merge_state" where
  "emit st local_idx remote_idx seq =
     st\<lparr>initiator_descs := initiator_descs st @ [getMetaDesc (local_run st) local_idx (of_nat seq)],
        target_descs := target_descs st @ [getMetaDesc (remote_run st) remote_idx (of_nat seq)],
        total_bytes := total_bytes st + len (local_run st) * of_nat seq\<rparr>"

lemma next_seq_pos: "next_seq st l r n i = Some (bm, seq) \<Longrightarrow> 0 < seq"
  by (auto simp: next_seq_def split: if_splits)

function merge_loop :: "nixlMetaStrideDesc list \<Rightarrow> nixlMetaStrideDesc list \<Rightarrow> u32 list \<Rightarrow> u32 list \<Rightarrow> bool \<Rightarrow>
    nat \<Rightarrow> merge_state \<Rightarrow> (nixl_status_t \<times> merge_state) option" where
  "merge_loop ls rs local_indices remote_indices skip i st =
     (if i < length local_indices
      then let local_idx = scast (local_indices ! i); remote_idx = scast (remote_indices ! i)
           in case switch_runs ls rs skip local_idx remote_idx st of
                Inl err \<Rightarrow> Some (err, st)
              | Inr st1 \<Rightarrow>
                  (case next_seq st1 local_idx remote_idx (length local_indices) i of
                     None \<Rightarrow> None
                   | Some (bm, seq) \<Rightarrow>
                       merge_loop ls rs local_indices remote_indices skip (i + seq)
                         (emit (st1\<lparr>bitmap := bm\<rparr>) local_idx remote_idx seq))
      else Some (NIXL_SUCCESS, st))"
  by pat_completeness auto
termination
  by (relation "measure (\<lambda>(ls, rs, li, ri, skip, i, st). length li - i)") (auto dest!: next_seq_pos)

declare merge_loop.simps [simp del]

definition mergeIndices :: "nixlMetaStrideDesc list \<Rightarrow> nixlMetaStrideDesc list \<Rightarrow> u32 list \<Rightarrow> u32 list \<Rightarrow> bool \<Rightarrow>
    nixlMetaDesc list \<Rightarrow> nixlMetaDesc list \<Rightarrow> u64 \<Rightarrow> (nixl_status_t \<times> merge_state) option" where
  "mergeIndices ls rs local_indices remote_indices skip initiator target bytes =
     merge_loop ls rs local_indices remote_indices skip 0
       \<lparr>local_run = empty_run, remote_run = empty_run, dense = False,
        bitmap = bitmap_new local_indices remote_indices (length local_indices),
        initiator_descs = initiator, target_descs = target, total_bytes = bytes\<rparr>"


subsection \<open>What merging produces\<close>

text \<open>The flat index an \<open>int\<close> stands for: it is sign-extended to \<open>size_t\<close>.\<close>

abbreviation idx :: "u32 \<Rightarrow> nat" where
  "idx w \<equiv> unat (scast w :: u64)"

lemma small_iff_sign: "unat (w :: u32) < 2 ^ 31 \<longleftrightarrow> \<not> bit w 31"
proof
  assume "unat w < 2 ^ 31"
  then have "take_bit 31 (unat w) = unat w" by (simp add: take_bit_nat_eq_self)
  then have "\<not> bit (unat w) 31" by (metis bit_take_bit_iff less_irrefl)
  then show "\<not> bit w 31" by (simp add: bit_unsigned_iff)
next
  assume "\<not> bit w 31"
  moreover have "\<not> bit w n" if "31 < n" for n
    using that bit_imp_le_length [of w n] by auto
  ultimately have "\<not> bit (unat w) n" if "31 \<le> n" for n
    using that by (auto simp: bit_unsigned_iff le_less)
  then have "take_bit 31 (unat w) = unat w"
    by (intro bit_eqI) (metis bit_take_bit_iff not_le)
  then show "unat w < 2 ^ 31" by (metis take_bit_nat_less_exp)
qed

lemma idx_eq: "unat w < 2 ^ 31 \<Longrightarrow> idx w = unat w"
proof -
  assume "unat w < 2 ^ 31"
  then have "\<not> bit w 31" by (simp only: small_iff_sign) simp
  then have "(scast w :: u64) = ucast w"
  proof (intro bit_word_eqI)
    fix n assume "\<not> bit w 31" "n < LENGTH(64)"
    then show "bit (scast w :: u64) n \<longleftrightarrow> bit (ucast w :: u64) n"
      using bit_imp_le_length [of w n] by (cases "n \<le> 31") (auto simp: bit_signed_iff bit_unsigned_iff min_def)
  qed
  moreover have "unat w < 2 ^ 64" using \<open>unat w < 2 ^ 31\<close> by simp
  ultimately show ?thesis by (simp add: unsigned_ucast_eq take_bit_nat_eq_self)
qed

lemma idx_small: "idx w < 2 ^ 31 \<Longrightarrow> unat w < 2 ^ 31"
proof (rule ccontr)
  let ?x = "scast w :: u64"
  assume x: "unat ?x < 2 ^ 31" and "\<not> unat w < 2 ^ 31"
  then have "bit w 31" using small_iff_sign [of w] by simp
  then have "bit ?x 31" by (simp add: bit_signed_iff)
  then have b: "bit (unat ?x) 31" by (simp add: bit_unsigned_iff)
  have "take_bit 31 (unat ?x) = unat ?x" using x by (simp add: take_bit_nat_eq_self)
  then have "\<not> bit (unat ?x) 31" by (metis bit_take_bit_iff less_irrefl)
  with b show False by simp
qed

lemma idx_add:
  assumes "idx w + j < 2 ^ 31"
  shows "idx (w + of_nat j) = idx w + j"
proof -
  have w: "unat w < 2 ^ 31" using idx_small [of w] assms by simp
  have "unat w + j < 2 ^ 31" using assms idx_eq [OF w] by simp
  moreover from this have "unat (w + of_nat j) = unat w + j"
    by (simp add: unat_word_ariths unat_of_nat)
  ultimately show ?thesis
    using idx_eq [OF w] idx_eq [of "w + of_nat j"] by simp
qed

definition block_pair :: "nixlMetaStrideDesc list \<Rightarrow> nixlMetaStrideDesc list \<Rightarrow> u32 \<Rightarrow> u32 \<Rightarrow> nixlMetaDesc \<times> nixlMetaDesc" where
  "block_pair ls rs a b = (flat ls ! idx a, flat rs ! idx b)"

definition pair_ok :: "nixlMetaStrideDesc list \<Rightarrow> nixlMetaStrideDesc list \<Rightarrow> u32 \<Rightarrow> u32 \<Rightarrow> bool" where
  "pair_ok ls rs a b \<longleftrightarrow> idx a < length (flat ls) \<and> idx b < length (flat rs) \<and>
     len (flat ls ! idx a) = len (flat rs ! idx b)"

text \<open>Block pairs that follow each other without a gap, and the descriptor pair they join to.\<close>

definition shift_desc :: "nat \<Rightarrow> nixlMetaDesc \<Rightarrow> nixlMetaDesc" where
  "shift_desc j d = d\<lparr>addr := addr d + of_nat j * len d\<rparr>"

definition dense_group :: "(nixlMetaDesc \<times> nixlMetaDesc) list \<Rightarrow> bool" where
  "dense_group g \<longleftrightarrow> g \<noteq> [] \<and>
     (\<forall>j < length g. g ! j = (shift_desc j (fst (hd g)), shift_desc j (snd (hd g))))"

definition join_group :: "(nixlMetaDesc \<times> nixlMetaDesc) list \<Rightarrow> nixlMetaDesc \<times> nixlMetaDesc" where
  "join_group g =
     (let (d, e) = hd g; n = of_nat (length g) in (d\<lparr>len := len d * n\<rparr>, e\<lparr>len := len e * n\<rparr>))"

lemma in_run_holds:
  assumes "runs_from 0 rs" and "r \<in> set rs" and "in_run r i"
  obtains k where "rs ! k = r" and "holds_idx rs k (unat i)" and "unat i < length (flat rs)"
proof -
  obtain k where k: "k < length rs" "rs ! k = r" using assms(2) by (auto simp: in_set_conv_nth)
  have h: "holds_idx rs k (unat i)"
    using assms(3) runs_from_count(2) [OF assms(1) k(1)] k by (simp add: in_run_iff holds_idx_def)
  have "length (flat (take (Suc k) rs)) \<le> length (flat rs)"
    using length_flat_mono [of "Suc k" "length rs" rs] k by simp
  then have "unat i < length (flat rs)"
    using h runs_from_start [OF assms(1) k(1)] length_flat_Suc [OF k(1)] by (simp add: holds_idx_def)
  with that k h show ?thesis by blast
qed

text \<open>The blocks of one run from a flat index on.\<close>

lemma in_run_block:
  assumes w: "runs_from 0 rs" and r: "r \<in> set rs" "in_run r i"
    and j: "j < unat (start_idx r + count r - i)"
  shows "unat i + j < length (flat rs)"
    and "flat rs ! (unat i + j) = (getMetaDesc r i 1)\<lparr>addr := addr (getMetaDesc r i 1) + of_nat j * stride r\<rparr>"
proof -
  obtain k where k: "rs ! k = r" "holds_idx rs k (unat i)" by (rule in_run_holds [OF w r])
  then have kl: "k < length rs" by (simp add: holds_idx_def)
  note c = runs_from_count(2) [OF w kl, unfolded k(1)]
  have "unat (start_idx r + count r - i) = unat (start_idx r) + unat (count r) - unat i"
    using k c by (simp add: unat_sub_u64 unat_add_u64 holds_idx_def word_le_nat_alt)
  with j k have j': "unat i + j < unat (start_idx r) + unat (count r)" "unat (start_idx r) \<le> unat i"
    by (auto simp: holds_idx_def)
  let ?m = "unat i - unat (start_idx r) + j"
  have m: "length (flat (take k rs)) + ?m = unat i + j" "?m < unat (count (rs ! k))"
    using runs_from_start [OF w kl] k(1) j' by auto
  have "length (flat (take (Suc k) rs)) \<le> length (flat rs)"
    using length_flat_mono [of "Suc k" "length rs" rs] kl by simp
  then show "unat i + j < length (flat rs)"
    using m length_flat_Suc [OF kl] by simp
  show "flat rs ! (unat i + j) = (getMetaDesc r i 1)\<lparr>addr := addr (getMetaDesc r i 1) + of_nat j * stride r\<rparr>"
    using flat_nth [OF kl m(2)] getMetaDesc_block [OF j'(2)] m(1) k(1)
    by (simp add: block_def algebra_simps)
qed

subsubsection \<open>The cached runs\<close>

definition run_cache :: "nixlMetaStrideDesc list \<Rightarrow> nixlMetaStrideDesc list \<Rightarrow> bool \<Rightarrow> merge_state \<Rightarrow> bool" where
  "run_cache ls rs skip st \<longleftrightarrow>
     local_run st = empty_run \<and> remote_run st = empty_run \<and> \<not> dense st \<or>
     local_run st \<in> set ls \<and> remote_run st \<in> set rs \<and> len (local_run st) = len (remote_run st) \<and>
     (dense st \<longleftrightarrow> \<not> skip \<and> stride (local_run st) = len (local_run st) \<and>
        stride (local_run st) = stride (remote_run st))"

lemma flat_in_run:
  assumes "runs_wf rs" and "r \<in> set rs" and "in_run r (scast a)"
  shows "idx a < length (flat rs)" and "flat rs ! idx a = getMetaDesc r (scast a) 1"
    and "len (flat rs ! idx a) = len r"
proof -
  have w: "runs_from 0 rs" using assms(1) by (simp add: runs_wf_def)
  obtain k where "rs ! k = r" "holds_idx rs k (idx a)" and *: "idx a < length (flat rs)"
    by (rule in_run_holds [OF w assms(2,3)])
  then show "flat rs ! idx a = getMetaDesc r (scast a) 1"
    using holds_idx_block [OF w] by metis
  then show "len (flat rs ! idx a) = len r" by (simp add: getMetaDesc_def)
  show "idx a < length (flat rs)" by (rule *)
qed

lemma find_run_in:
  assumes w: "runs_wf rs" and i: "unat i < length (flat rs)"
  shows "rs ! find_run rs i (run_size_of rs) \<in> set rs" and "in_run (rs ! find_run rs i (run_size_of rs)) i"
proof -
  let ?k = "find_run rs i (run_size_of rs)"
  have h: "holds_idx rs ?k (unat i)" by (rule find_run_holds [OF w i])
  then show "rs ! ?k \<in> set rs" by (simp add: holds_idx_def)
  show "in_run (rs ! ?k) i"
    using h runs_from_count(2) [of 0 rs ?k] w by (simp add: in_run_iff holds_idx_def runs_wf_def)
qed

lemma switch_runs_bad:
  assumes w: "runs_wf ls" "runs_wf rs" and c: "run_cache ls rs skip st" and bad: "\<not> pair_ok ls rs a b"
  shows "switch_runs ls rs skip (scast a) (scast b) st = Inl NIXL_ERR_INVALID_PARAM"
proof -
  have fs: "unat (flatSize ls) = length (flat ls)" "unat (flatSize rs) = length (flat rs)"
    using w flatSize_flat by (auto simp: runs_wf_def)
  have out: "\<not> (in_run (local_run st) (scast a) \<and> in_run (remote_run st) (scast b))"
  proof
    assume *: "in_run (local_run st) (scast a) \<and> in_run (remote_run st) (scast b)"
    then have "local_run st \<noteq> empty_run" by (auto simp: in_run_def empty_run_def)
    with c have m: "local_run st \<in> set ls" "remote_run st \<in> set rs" "len (local_run st) = len (remote_run st)"
      by (auto simp: run_cache_def)
    from flat_in_run [OF w(1) m(1), of a] flat_in_run [OF w(2) m(2), of b] * m(3) bad show False
      by (simp add: pair_ok_def)
  qed
  show ?thesis
  proof (cases "idx a < length (flat ls) \<and> idx b < length (flat rs)")
    case True
    note l = find_run_in [OF w(1), of "scast a"] and r = find_run_in [OF w(2), of "scast b"]
    have "len (ls ! find_run ls (scast a) (run_size_of ls)) \<noteq> len (rs ! find_run rs (scast b) (run_size_of rs))"
      using flat_in_run(3) [OF w(1) l] flat_in_run(3) [OF w(2) r] True bad by (simp add: pair_ok_def)
    with out True show ?thesis
      by (auto simp: switch_runs_def in_run_def not_less word_le_nat_alt fs)
  qed (use out in \<open>auto simp: switch_runs_def in_run_def not_less word_le_nat_alt fs\<close>)
qed

lemma switch_runs_good:
  assumes w: "runs_wf ls" "runs_wf rs" and c: "run_cache ls rs skip st" and good: "pair_ok ls rs a b"
  obtains l r d where "switch_runs ls rs skip (scast a) (scast b) st = Inr (st\<lparr>local_run := l, remote_run := r, dense := d\<rparr>)"
    and "l \<in> set ls" and "r \<in> set rs" and "len l = len r" and "in_run l (scast a)" and "in_run r (scast b)"
    and "d \<longleftrightarrow> \<not> skip \<and> stride l = len l \<and> stride l = stride r"
proof (cases "in_run (local_run st) (scast a) \<and> in_run (remote_run st) (scast b)")
  case True
  then have "local_run st \<noteq> empty_run" by (auto simp: in_run_def empty_run_def)
  with c True that [where l = "local_run st" and r = "remote_run st" and d = "dense st"] show ?thesis
    by (auto simp: switch_runs_def in_run_def not_le [symmetric] run_cache_def)
next
  case False
  have fs: "unat (flatSize ls) = length (flat ls)" "unat (flatSize rs) = length (flat rs)"
    using w flatSize_flat by (auto simp: runs_wf_def)
  have i: "idx a < length (flat ls)" "idx b < length (flat rs)" using good by (auto simp: pair_ok_def)
  note l = find_run_in [OF w(1) i(1)] and r = find_run_in [OF w(2) i(2)]
  let ?l = "ls ! find_run ls (scast a) (run_size_of ls)" and ?r = "rs ! find_run rs (scast b) (run_size_of rs)"
  have eq: "len ?l = len ?r"
    using flat_in_run(3) [OF w(1) l] flat_in_run(3) [OF w(2) r] good by (simp add: pair_ok_def)
  show ?thesis
    by (rule that [OF _ l(1) r(1) eq l(2) r(2) refl])
      (use False eq i in \<open>auto simp: switch_runs_def in_run_def not_less word_le_nat_alt fs Let_def\<close>)
qed

subsubsection \<open>One round of the loop\<close>

lemma run_of_continuations:
  assumes "\<And>j. j < m \<Longrightarrow> isContinuation li ri (Suc i + j)" and "j \<le> m"
  shows "li ! (i + j) = li ! i + of_nat j" and "ri ! (i + j) = ri ! i + of_nat j"
  using assms(2)
proof (induction j)
  case (Suc j)
  {
    case 1
    with Suc.IH(1) assms(1) [of j] show ?case
      by (simp add: isContinuation_def algebra_simps)
  next
    case 2
    with Suc.IH(2) assms(1) [of j] show ?case
      by (simp add: isContinuation_def algebra_simps)
  }
qed simp_all


definition bm_for :: "u32 list \<Rightarrow> u32 list \<Rightarrow> nat \<Rightarrow> nixlContinuationBitmap \<Rightarrow> bool" where
  "bm_for li ri i bm \<longleftrightarrow> bm_ok bm \<and> bm_cont bm = isContinuation li ri \<and> bm_count bm = length li \<and> chunkFirst bm \<le> Suc i"

definition pairs_at :: "nixlMetaStrideDesc list \<Rightarrow> nixlMetaStrideDesc list \<Rightarrow> u32 list \<Rightarrow> u32 list \<Rightarrow> nat \<Rightarrow> nat \<Rightarrow>
    (nixlMetaDesc \<times> nixlMetaDesc) list" where
  "pairs_at ls rs li ri i e = map (\<lambda>k. block_pair ls rs (li ! k) (ri ! k)) [i..<e]"

lemma next_seq_ok:
  assumes b: "bm_for li ri i (bitmap st)" and i: "i < length li"
    and w: "runs_wf ls" "runs_wf rs" and m: "local_run st \<in> set ls" "remote_run st \<in> set rs"
    and r: "in_run (local_run st) (scast (li ! i))" "in_run (remote_run st) (scast (ri ! i))"
  obtains bm seq where "next_seq st (scast (li ! i)) (scast (ri ! i)) (length li) i = Some (bm, seq)"
    and "bm_for li ri (i + seq) bm" and "0 < seq" and "i + seq \<le> length li" and "\<not> dense st \<Longrightarrow> seq = 1"
    and "\<And>j. j < seq \<Longrightarrow> li ! (i + j) = li ! i + of_nat j \<and> ri ! (i + j) = ri ! i + of_nat j"
    and "\<And>j. j < seq \<Longrightarrow> j < unat (start_idx (local_run st) + count (local_run st) - scast (li ! i))"
    and "\<And>j. j < seq \<Longrightarrow> j < unat (start_idx (remote_run st) + count (remote_run st) - scast (ri ! i))"
proof -
  let ?l = "local_run st" and ?r = "remote_run st"
  let ?a = "scast (li ! i) :: u64" and ?b = "scast (ri ! i) :: u64"
  have pos: "0 < unat (start_idx r + count r - x)" if "runs_wf rs" "r \<in> set rs" "in_run r x" for rs r x
  proof -
    have "start_idx r + count r \<noteq> x"
      using that(3) by (auto simp: in_run_def)
    then show ?thesis by (simp add: unat_gt_0)
  qed
  note p = pos [OF w(1) m(1) r(1)] pos [OF w(2) m(2) r(2)]
  show ?thesis
  proof (cases "dense st")
    case False
    then show ?thesis
      using that [of "bitmap st" 1] b i p by (auto simp: next_seq_def bm_for_def)
  next
    case True
    define cap where "cap = seq_cap st ?a ?b (length li - i)"
    have cap: "0 < cap" "i + cap \<le> length li" "cap \<le> unat (start_idx ?l + count ?l - ?a)"
      "cap \<le> unat (start_idx ?r + count ?r - ?b)"
      using p i by (auto simp: cap_def seq_cap_def)
    define c where "c = run_len (isContinuation li ri) (Suc i) (cap - 1)"
    obtain bm where cc: "countContinuations (Suc i) (cap - 1) (bitmap st) = Some (bm, c)"
      and bm: "bm_ok bm" "bm_cont bm = isContinuation li ri" "bm_count bm = length li" "chunkFirst bm \<le> Suc i + c"
      using countContinuations_run [of "bitmap st" "Suc i" "cap - 1"] b cap by (auto simp: bm_for_def c_def)
    have c: "Suc c \<le> cap" using run_len_le [of "isContinuation li ri" "Suc i" "cap - 1"] cap(1) by (simp add: c_def)
    have "li ! (i + j) = li ! i + of_nat j \<and> ri ! (i + j) = ri ! i + of_nat j" if "j < Suc c" for j
      using run_of_continuations [of c li ri i j] run_len_cont [of _ "isContinuation li ri" "Suc i" "cap - 1"] that
      by (auto simp: c_def)
    then show ?thesis
      using that [of bm "Suc c"] cc bm c cap True by (auto simp: next_seq_def cap_def [symmetric] bm_for_def)
  qed
qed

lemma round_group:
  assumes w: "runs_wf ls" "runs_wf rs" and s: "length (flat ls) \<le> 2 ^ 31" "length (flat rs) \<le> 2 ^ 31"
    and m: "l \<in> set ls" "r \<in> set rs" "len l = len r"
    and ir: "in_run l (scast (li ! i))" "in_run r (scast (ri ! i))"
    and d: "1 < seq \<Longrightarrow> stride l = len l \<and> stride r = len r" and seq: "0 < seq"
    and run: "\<And>j. j < seq \<Longrightarrow> li ! (i + j) = li ! i + of_nat j \<and> ri ! (i + j) = ri ! i + of_nat j"
      "\<And>j. j < seq \<Longrightarrow> j < unat (start_idx l + count l - scast (li ! i))"
      "\<And>j. j < seq \<Longrightarrow> j < unat (start_idx r + count r - scast (ri ! i))"
  defines "g \<equiv> pairs_at ls rs li ri i (i + seq)"
  shows "\<And>k. i \<le> k \<Longrightarrow> k < i + seq \<Longrightarrow> pair_ok ls rs (li ! k) (ri ! k)"
    and "dense_group g"
    and "join_group g = (getMetaDesc l (scast (li ! i)) (of_nat seq), getMetaDesc r (scast (ri ! i)) (of_nat seq))"
    and "length g = seq" and "\<And>p. p \<in> set g \<Longrightarrow> len (fst p) = len l"
proof -
  let ?a = "scast (li ! i) :: u64" and ?b = "scast (ri ! i) :: u64"
  let ?d = "getMetaDesc l ?a 1" and ?e = "getMetaDesc r ?b 1"
  have rf: "runs_from 0 ls" "runs_from 0 rs" using w by (auto simp: runs_wf_def)
  have blk: "idx (li ! (i + j)) < length (flat ls) \<and> idx (ri ! (i + j)) < length (flat rs) \<and>
      flat ls ! idx (li ! (i + j)) = shift_desc j ?d \<and> flat rs ! idx (ri ! (i + j)) = shift_desc j ?e" if j: "j < seq" for j
  proof -
    note bl = in_run_block [OF rf(1) m(1) ir(1) run(2) [OF j]] and br = in_run_block [OF rf(2) m(2) ir(2) run(3) [OF j]]
    have "idx (li ! (i + j)) = idx (li ! i) + j" "idx (ri ! (i + j)) = idx (ri ! i) + j"
      using run(1) [OF j] idx_add [of "li ! i" j] idx_add [of "ri ! i" j] bl(1) br(1) s by simp_all
    moreover have "j = 0 \<or> stride l = len l \<and> stride r = len r" using d j by fastforce
    ultimately show ?thesis
      using bl br by (auto simp: shift_desc_def getMetaDesc_def)
  qed
  have g: "g ! j = (shift_desc j ?d, shift_desc j ?e)" if "j < seq" for j
    using blk [OF that] that by (simp add: g_def pairs_at_def block_pair_def)
  show lg: "length g = seq" by (simp add: g_def pairs_at_def)
  have h: "hd g = (?d, ?e)"
    using g [of 0] seq lg by (simp add: hd_conv_nth shift_desc_def flip: length_greater_0_conv)
  show "pair_ok ls rs (li ! k) (ri ! k)" if "i \<le> k" "k < i + seq" for k
    using blk [of "k - i"] that m(3) by (simp add: pair_ok_def shift_desc_def getMetaDesc_def)
  show "dense_group g"
    using g seq lg h by (auto simp: dense_group_def)
  show "join_group g = (getMetaDesc l ?a (of_nat seq), getMetaDesc r ?b (of_nat seq))"
    using h lg by (simp add: join_group_def getMetaDesc_def Let_def)
  show "len (fst p) = len l" if "p \<in> set g" for p
    using that g lg by (auto simp: in_set_conv_nth shift_desc_def getMetaDesc_def)
qed


text \<open>The whole loop. \<open>groups\<close> cuts the remaining pairs into the groups that were joined.\<close>

definition merged_into :: "bool \<Rightarrow> (nixlMetaDesc \<times> nixlMetaDesc) list \<Rightarrow> merge_state \<Rightarrow> merge_state \<Rightarrow> bool" where
  "merged_into skip ps st st' \<longleftrightarrow>
     (\<exists>groups. concat groups = ps \<and> (\<forall>g \<in> set groups. dense_group g \<and> (skip \<longrightarrow> length g = 1)) \<and>
        initiator_descs st' = initiator_descs st @ map (fst \<circ> join_group) groups \<and>
        target_descs st' = target_descs st @ map (snd \<circ> join_group) groups \<and>
        total_bytes st' = total_bytes st + (\<Sum>p\<leftarrow>ps. len (fst p)))"

lemma merged_into_Nil: "merged_into skip [] st st"
  unfolding merged_into_def by (rule exI [of _ "[]"]) simp

lemma sum_list_const_len: "(\<And>p. p \<in> set g \<Longrightarrow> f p = c) \<Longrightarrow> (\<Sum>p\<leftarrow>g. f p) = of_nat (length g) * (c :: u64)"
  by (induction g) (auto simp: algebra_simps)

lemma merged_into_step:
  assumes "dense_group g" and "skip \<longrightarrow> length g = 1"
    and "initiator_descs mid = initiator_descs st @ [fst (join_group g)]"
    and "target_descs mid = target_descs st @ [snd (join_group g)]"
    and "total_bytes mid = total_bytes st + (\<Sum>p\<leftarrow>g. len (fst p))"
    and "merged_into skip ps mid st'"
  shows "merged_into skip (g @ ps) st st'"
proof -
  from assms(6) obtain groups where gs: "concat groups = ps" "\<forall>g \<in> set groups. dense_group g \<and> (skip \<longrightarrow> length g = 1)"
    "initiator_descs st' = initiator_descs mid @ map (fst \<circ> join_group) groups"
    "target_descs st' = target_descs mid @ map (snd \<circ> join_group) groups"
    "total_bytes st' = total_bytes mid + (\<Sum>p\<leftarrow>ps. len (fst p))"
    unfolding merged_into_def by blast
  then show ?thesis
    unfolding merged_into_def using assms(1-5) by (intro exI [of _ "g # groups"]) (simp add: add.assoc)
qed

definition ok_from :: "nixlMetaStrideDesc list \<Rightarrow> nixlMetaStrideDesc list \<Rightarrow> u32 list \<Rightarrow> u32 list \<Rightarrow> nat \<Rightarrow> bool" where
  "ok_from ls rs li ri i \<longleftrightarrow> (\<forall>k \<in> {i..<length li}. pair_ok ls rs (li ! k) (ri ! k))"

lemma merge_round:
  assumes w: "runs_wf ls" "runs_wf rs" and s: "length (flat ls) \<le> 2 ^ 31" "length (flat rs) \<le> 2 ^ 31"
    and i: "i < length li" and c: "run_cache ls rs skip st" and b: "bm_for li ri i (bitmap st)"
    and ok: "pair_ok ls rs (li ! i) (ri ! i)"
  obtains seq st2 where "merge_loop ls rs li ri skip i st = merge_loop ls rs li ri skip (i + seq) st2"
    and "0 < seq" and "i + seq \<le> length li" and "run_cache ls rs skip st2" and "bm_for li ri (i + seq) (bitmap st2)"
    and "ok_from ls rs li ri i \<longleftrightarrow> ok_from ls rs li ri (i + seq)"
    and "\<And>st'. merged_into skip (pairs_at ls rs li ri (i + seq) (length li)) st2 st' \<Longrightarrow>
      merged_into skip (pairs_at ls rs li ri i (length li)) st st'"
proof -
  let ?a = "scast (li ! i) :: u64" and ?b = "scast (ri ! i) :: u64"
  obtain l r d where sw: "switch_runs ls rs skip ?a ?b st = Inr (st\<lparr>local_run := l, remote_run := r, dense := d\<rparr>)"
    and m: "l \<in> set ls" "r \<in> set rs" "len l = len r" and ir: "in_run l ?a" "in_run r ?b"
    and d: "d \<longleftrightarrow> \<not> skip \<and> stride l = len l \<and> stride l = stride r"
    by (rule switch_runs_good [OF w c ok])
  let ?st1 = "st\<lparr>local_run := l, remote_run := r, dense := d\<rparr>"
  obtain bm seq where ns: "next_seq ?st1 ?a ?b (length li) i = Some (bm, seq)"
    and bm: "bm_for li ri (i + seq) bm" and seq: "0 < seq" "i + seq \<le> length li" "\<not> d \<Longrightarrow> seq = 1"
    and run: "\<And>j. j < seq \<Longrightarrow> li ! (i + j) = li ! i + of_nat j \<and> ri ! (i + j) = ri ! i + of_nat j"
      "\<And>j. j < seq \<Longrightarrow> j < unat (start_idx l + count l - ?a)"
      "\<And>j. j < seq \<Longrightarrow> j < unat (start_idx r + count r - ?b)"
    using next_seq_ok [of li ri i ?st1 ls rs] b i w m ir by simp blast
  have "1 < seq \<Longrightarrow> stride l = len l \<and> stride r = len r" using seq(3) d m(3) by auto
  note rg = round_group [OF w s m ir this seq(1) run]
  let ?g = "pairs_at ls rs li ri i (i + seq)" and ?st2 = "emit (?st1\<lparr>bitmap := bm\<rparr>) ?a ?b seq"
  show ?thesis
  proof (rule that [of seq ?st2])
    show "merge_loop ls rs li ri skip i st = merge_loop ls rs li ri skip (i + seq) ?st2"
      using i sw ns by (subst merge_loop.simps) (simp add: Let_def)
    show "run_cache ls rs skip ?st2" "bm_for li ri (i + seq) (bitmap ?st2)"
      using m d bm by (auto simp: run_cache_def emit_def)
    show "ok_from ls rs li ri i \<longleftrightarrow> ok_from ls rs li ri (i + seq)"
    proof
      assume *: "ok_from ls rs li ri (i + seq)"
      show "ok_from ls rs li ri i"
        unfolding ok_from_def
      proof
        fix k assume "k \<in> {i..<length li}"
        with rg(1) [of k] * show "pair_ok ls rs (li ! k) (ri ! k)"
          by (cases "k < i + seq") (auto simp: ok_from_def)
      qed
    qed (auto simp: ok_from_def)
    have split: "pairs_at ls rs li ri i (length li) = ?g @ pairs_at ls rs li ri (i + seq) (length li)"
      using seq(2) upt_add_eq_append [of i "i + seq" "length li - (i + seq)"] by (simp add: pairs_at_def flip: map_append)
    show "merged_into skip (pairs_at ls rs li ri i (length li)) st st'"
      if "merged_into skip (pairs_at ls rs li ri (i + seq) (length li)) ?st2 st'" for st'
      unfolding split using rg(2-5) seq(3) d that sum_list_const_len [of ?g "\<lambda>p. len (fst p)" "len l"]
      by (intro merged_into_step [where mid = ?st2]) (auto simp: emit_def mult.commute)
  qed (use seq in auto)
qed

lemma merge_loop_correct:
  assumes w: "runs_wf ls" "runs_wf rs" and s: "length (flat ls) \<le> 2 ^ 31" "length (flat rs) \<le> 2 ^ 31"
    and "i \<le> length li" and "run_cache ls rs skip st" and "bm_for li ri i (bitmap st)"
  shows "\<exists>st'. merge_loop ls rs li ri skip i st =
      Some (if ok_from ls rs li ri i then NIXL_SUCCESS else NIXL_ERR_INVALID_PARAM, st') \<and>
    (ok_from ls rs li ri i \<longrightarrow> merged_into skip (pairs_at ls rs li ri i (length li)) st st')"
  using assms(5-)
proof (induction "length li - i" arbitrary: i st rule: less_induct)
  case less
  show ?case
  proof (cases "i < length li")
    case False
    then have "ok_from ls rs li ri i" by (simp add: ok_from_def)
    with False less.prems show ?thesis
      by (subst merge_loop.simps) (simp add: pairs_at_def merged_into_Nil)
  next
    case i: True
    show ?thesis
    proof (cases "pair_ok ls rs (li ! i) (ri ! i)")
      case False
      then have "\<not> ok_from ls rs li ri i" using i by (auto simp: ok_from_def)
      then show ?thesis
        using i switch_runs_bad [OF w less.prems(2) False] by (subst merge_loop.simps) simp
    next
      case True
      obtain seq st2 where r: "merge_loop ls rs li ri skip i st = merge_loop ls rs li ri skip (i + seq) st2"
        "0 < seq" "i + seq \<le> length li" "run_cache ls rs skip st2" "bm_for li ri (i + seq) (bitmap st2)"
        "ok_from ls rs li ri i \<longleftrightarrow> ok_from ls rs li ri (i + seq)"
        and m: "\<And>st'. merged_into skip (pairs_at ls rs li ri (i + seq) (length li)) st2 st' \<Longrightarrow>
          merged_into skip (pairs_at ls rs li ri i (length li)) st st'"
        by (rule merge_round [OF w s i less.prems(2,3) True]) blast
      have "length li - (i + seq) < length li - i" using r(2) i by simp
      from less.hyps [OF this r(3,4,5)] m show ?thesis
        unfolding r(1,6) by blast
    qed
  qed
qed

lemma mergeIndices_spec:
  assumes w: "runs_wf ls" "runs_wf rs" and s: "length (flat ls) \<le> 2 ^ 31" "length (flat rs) \<le> 2 ^ 31"
    and n: "length ri = length li"
  shows "\<exists>status st. mergeIndices ls rs li ri skip [] [] 0 = Some (status, st) \<and>
    (if list_all2 (pair_ok ls rs) li ri
     then status = NIXL_SUCCESS \<and>
       (\<exists>groups. concat groups = map2 (block_pair ls rs) li ri \<and>
          (\<forall>g \<in> set groups. dense_group g \<and> (skip \<longrightarrow> length g = 1)) \<and>
          initiator_descs st = map (fst \<circ> join_group) groups \<and> target_descs st = map (snd \<circ> join_group) groups) \<and>
       total_bytes st = (\<Sum>p \<leftarrow> map2 (block_pair ls rs) li ri. len (fst p))
     else status = NIXL_ERR_INVALID_PARAM)"
proof -
  let ?st = "\<lparr>local_run = empty_run, remote_run = empty_run, dense = False, bitmap = bitmap_new li ri (length li),
    initiator_descs = [], target_descs = [], total_bytes = 0\<rparr>"
  have all: "list_all2 (pair_ok ls rs) li ri \<longleftrightarrow> ok_from ls rs li ri 0"
    using n by (auto simp: list_all2_conv_all_nth ok_from_def)
  have ps: "pairs_at ls rs li ri 0 (length li) = map2 (block_pair ls rs) li ri"
    using n by (intro nth_equalityI) (simp_all add: pairs_at_def)
  have "run_cache ls rs skip ?st" "bm_for li ri 0 (bitmap ?st)"
    using bitmap_new_ok [of li ri "length li"]
    by (simp_all add: run_cache_def bm_for_def bm_cont_def [abs_def] bitmap_new_def)
  from merge_loop_correct [OF w s _ this] show ?thesis
    unfolding mergeIndices_def all ps merged_into_def by (cases "ok_from ls rs li ri 0") auto
qed


subsection \<open>Properties\<close>

text \<open>C32: The chunked bitmap counts what a scan counts. For every position and limit inside the
  index lists, \<open>countContinuations\<close> returns, and its result is the number of consecutive pairs
  from that position on in which both indices grow by one, whatever chunk and word borders the
  run crosses and whatever the bitmap held before, as long as the positions asked for do not
  move backwards.\<close>

theorem countContinuations_correct:
  assumes "bm_ok bm" and "pair + limit \<le> bm_count bm" and "chunkFirst bm \<le> pair"
  shows "\<exists>bm'. countContinuations pair limit bm =
      Some (bm', length (takeWhile (isContinuation (bm_local bm) (bm_remote bm)) [pair..<pair + limit])) \<and>
    bm_ok bm'"
proof -
  have "bm_cont bm = isContinuation (bm_local bm) (bm_remote bm)"
    by (simp add: bm_cont_def [abs_def])
  with countContinuations_run [OF assms] show ?thesis
    by (metis run_len_def)
qed

theorem countContinuations_correct_witness:
  "\<exists>bm'. countContinuations 1 3 (bitmap_new [4, 5, 6, 9] [0, 1, 2, 3] 4) =
    Some (bm', length (takeWhile (isContinuation [4, 5, 6, 9] [0, 1, 2, 3]) [1..<1 + 3]))"
  using countContinuations_correct [OF bitmap_new_ok [of "[4, 5, 6, 9]" "[0, 1, 2, 3]" 4], of 1 3]
  by (auto simp: bitmap_new_def)

text \<open>C4: Building a transfer from index pairs is correct. For two well-formed compressed lists of
  at most \<open>2 ^ 31\<close> blocks, \<open>mergeIndices\<close> returns; it returns \<open>NIXL_ERR_INVALID_PARAM\<close> iff some
  pair has an index outside its list or blocks of different length; otherwise the descriptor
  pairs it builds are the requested block pairs, in order and each exactly once, cut into groups
  of adjacent blocks that are joined to one descriptor each (single blocks when merging is
  off), and the byte total is the sum of the block lengths.\<close>

theorem mergeIndices_correct:
  assumes "runs_wf ls" and "runs_wf rs" and "length (flat ls) \<le> 2 ^ 31" and "length (flat rs) \<le> 2 ^ 31"
    and "length ri = length li"
  shows "\<exists>status st. mergeIndices ls rs li ri skip [] [] 0 = Some (status, st) \<and>
    (if list_all2 (pair_ok ls rs) li ri
     then status = NIXL_SUCCESS \<and>
       (\<exists>groups. concat groups = map2 (block_pair ls rs) li ri \<and>
          (\<forall>g \<in> set groups. dense_group g \<and> (skip \<longrightarrow> length g = 1)) \<and>
          initiator_descs st = map (fst \<circ> join_group) groups \<and> target_descs st = map (snd \<circ> join_group) groups) \<and>
       total_bytes st = (\<Sum>p \<leftarrow> map2 (block_pair ls rs) li ri. len (fst p))
     else status = NIXL_ERR_INVALID_PARAM)"
  using assms by (rule mergeIndices_spec)

theorem mergeIndices_correct_witness:
  "let r = \<lambda>a. \<lparr>addr = a, len = 8, devId = 0, stride = 8, count = 4, strideMetadataP = 1, start_idx = 0\<rparr>
   in \<exists>st. mergeIndices [r 0] [r 1024] [0, 1] [2, 3] False [] [] 0 = Some (NIXL_SUCCESS, st) \<and>
        total_bytes st = 16"
proof -
  define r :: "u64 \<Rightarrow> nixlMetaStrideDesc" where
    "r a = \<lparr>addr = a, len = 8, devId = 0, stride = 8, count = 4, strideMetadataP = 1, start_idx = 0\<rparr>" for a
  have "runs_wf [r 0]" "runs_wf [r 1024]" "length (flat [r 0]) \<le> 2 ^ 31" "length (flat [r 1024]) \<le> 2 ^ 31"
    by (simp_all add: r_def runs_wf_def)
  note m = mergeIndices_correct [OF this, of "[2, 3]" "[0, 1]" False]
  have "list_all2 (pair_ok [r 0] [r 1024]) [0, 1] [2, 3]"
    by (simp add: pair_ok_def r_def run_blocks_def block_def upt_rec)
  with m show ?thesis
    unfolding Let_def r_def [symmetric]
    by (auto simp: block_pair_def run_blocks_def block_def upt_rec r_def)
qed

text \<open>The range check of \<open>mergeIndices\<close> misses a negative index after the largest positive one.
  The pair \<open>INT_MAX, INT_MIN\<close> counts as a continuation, because indices are compared as
  \<open>unsigned\<close>; in a run of more than \<open>2 ^ 31\<close> blocks the negative index is merged into the
  descriptor of its predecessor and the request is accepted, although a negative index is meant
  to fail the range check (and does so on its own).\<close>

theorem mergeIndices_accepts_negative_index:
  "let r = \<lparr>addr = 0, len = 1, devId = 0, stride = 1, count = 2 ^ 31 + 1, strideMetadataP = 1, start_idx = 0\<rparr>
   in map_option fst (mergeIndices [r] [r] [0x7FFFFFFF, 0x80000000] [0, 1] False [] [] 0) = Some NIXL_SUCCESS \<and>
      map_option fst (mergeIndices [r] [r] [0x80000000] [1] False [] [] 0) = Some NIXL_ERR_INVALID_PARAM"
proof -
  define r :: nixlMetaStrideDesc where
    "r = \<lparr>addr = 0, len = 1, devId = 0, stride = 1, count = 2 ^ 31 + 1, strideMetadataP = 1, start_idx = 0\<rparr>"
  have f: "flatSize [r] = 2 ^ 31 + 1" "run_size_of [r] = 2 ^ 31 + 1"
    by (simp_all add: r_def flatSize_def run_size_of_def)
  have i: "scast (0x7FFFFFFF :: u32) = (0x7FFFFFFF :: u64)" "scast (0x80000000 :: u32) = (0xFFFFFFFF80000000 :: u64)"
    by simp_all
  have find: "find_run [r] x (run_size_of [r]) = 0" if "x < 2 ^ 31 + 1" for x
    using that f unfolding find_run_def by (simp add: Let_def in_run_def r_def div_word_less)
  let ?li = "[0x7FFFFFFF, 0x80000000]" and ?ri = "[0, 1]"
  have "run_len (isContinuation ?li ?ri) 1 1 = 1"
    by (simp add: run_len_def isContinuation_def)
  then obtain bm where cc: "countContinuations 1 1 (bitmap_new ?li ?ri 2) = Some (bm, 1)"
    using countContinuations_run [OF bitmap_new_ok, of 1 1 ?li ?ri 2]
    by (auto simp: bitmap_new_def bm_cont_def [abs_def])
  define st where "st = \<lparr>local_run = empty_run, remote_run = empty_run, dense = False, bitmap = bitmap_new ?li ?ri 2,
    initiator_descs = [], target_descs = [], total_bytes = 0\<rparr>"
  have sw: "switch_runs [r] [r] False 0x7FFFFFFF 0 st = Inr (st\<lparr>local_run := r, remote_run := r, dense := True\<rparr>)"
    by (simp add: switch_runs_def f(1) find st_def empty_run_def) (simp add: r_def)
  have "seq_cap (st\<lparr>local_run := r, remote_run := r, dense := True\<rparr>) 0x7FFFFFFF 0 2 = 2"
    by (simp add: seq_cap_def r_def)
  then have ns: "next_seq (st\<lparr>local_run := r, remote_run := r, dense := True\<rparr>) 0x7FFFFFFF 0 2 0 = Some (bm, 2)"
    using cc by (simp add: next_seq_def st_def)
  have "merge_loop [r] [r] ?li ?ri False 2 st' = Some (NIXL_SUCCESS, st')" for st'
    by (subst merge_loop.simps) simp
  then have "map_option fst (merge_loop [r] [r] ?li ?ri False 0 st) = Some NIXL_SUCCESS"
    using sw ns by (subst merge_loop.simps) (simp flip: numeral_2_eq_2)
  then have "map_option fst (mergeIndices [r] [r] ?li ?ri False [] [] 0) = Some NIXL_SUCCESS"
    by (simp add: mergeIndices_def st_def flip: numeral_2_eq_2)
  moreover have "map_option fst (mergeIndices [r] [r] [0x80000000] [1] False [] [] 0) = Some NIXL_ERR_INVALID_PARAM"
    unfolding mergeIndices_def
    by (simp add: merge_loop.simps [of _ _ _ _ _ 0] switch_runs_def empty_run_def f(1))
  ultimately show ?thesis
    unfolding Let_def r_def by simp
qed

end
