(* ===== verification/Nixl_Backend.thy ===== *)
theory Nixl_Backend
  imports Nixl_Descriptors
begin

text \<open>
  The interface between the agent and its backend engines (\<open>src/api/cpp/backend/backend_engine.h\<close>).
  An engine is a dynamically loaded object behind virtual functions, so it is an argument of the
  model: a record of response functions, each of which may depend on everything the agent has
  asked of its engines so far. Every call is an event of a history, newest first; the agent's
  operations are functions that extend the history, and resource properties are statements about
  it. Engines, backend metadata, request handles and memory views are pointers, with 0 for null.
\<close>

type_synonym engine = nat
type_synonym req_ptr = nat
type_synonym mvh_ptr = nat
type_synonym nixl_backend_t = string

record nixl_opt_b_args_t =
  b_notifMsg :: blob
  b_hasNotif :: bool
  b_customParam :: blob

definition opt_b_args_default :: nixl_opt_b_args_t where
  "opt_b_args_default = \<lparr>b_notifMsg = [], b_hasNotif = False, b_customParam = []\<rparr>"

datatype bevent =
    EvRegisterMem engine nixlBlobDesc nixl_mem_t nixl_status_t md_ptr
  | EvDeregisterMem engine md_ptr
  | EvLoadLocalMD engine md_ptr nixl_status_t md_ptr
  | EvGetPublicData engine md_ptr nixl_status_t blob
  | EvUnloadMD engine md_ptr
  | EvLoadRemoteMD engine nixlBlobDesc nixl_mem_t string nixl_status_t md_ptr
  | EvCreateEngine nixl_backend_t engine
  | EvDestroyEngine engine
  | EvGetConnInfo engine nixl_status_t blob
  | EvLoadRemoteConnInfo engine string blob nixl_status_t
  | EvConnect engine string nixl_status_t
  | EvDisconnect engine string nixl_status_t
  | EvPrepXfer engine nixl_xfer_op_t "nixlMetaDesc list" "nixlMetaDesc list" string nixl_opt_b_args_t nixl_status_t req_ptr
  | EvPostXfer engine nixl_xfer_op_t "nixlMetaDesc list" "nixlMetaDesc list" string req_ptr nixl_opt_b_args_t nixl_status_t req_ptr
  | EvCheckXfer engine req_ptr nixl_status_t
  | EvReleaseReqH engine req_ptr nixl_status_t
  | EvGetNotifs engine nixl_status_t "(string \<times> blob) list"
  | EvGenNotif engine string blob nixl_status_t
  | EvPrepMemView engine "nixlRemoteMetaDesc list" "nixlMetaDesc list" blob nixl_status_t mvh_ptr
  | EvReleaseMemView engine mvh_ptr

type_synonym bhist = "bevent list"

record benv =
  supportsLocal :: "engine \<Rightarrow> bool"
  supportsRemote :: "engine \<Rightarrow> bool"
  supportsNotif :: "engine \<Rightarrow> bool"
  engineType :: "engine \<Rightarrow> nixl_backend_t"
  getSupportedMems :: "engine \<Rightarrow> nixl_mem_t list"
  on_registerMem :: "bhist \<Rightarrow> engine \<Rightarrow> nixlBlobDesc \<Rightarrow> nixl_mem_t \<Rightarrow> nixl_status_t \<times> md_ptr"
  on_loadLocalMD :: "bhist \<Rightarrow> engine \<Rightarrow> md_ptr \<Rightarrow> nixl_status_t \<times> md_ptr"
  on_getPublicData :: "bhist \<Rightarrow> engine \<Rightarrow> md_ptr \<Rightarrow> nixl_status_t \<times> blob"
  on_loadRemoteMD :: "bhist \<Rightarrow> engine \<Rightarrow> nixlBlobDesc \<Rightarrow> nixl_mem_t \<Rightarrow> string \<Rightarrow> nixl_status_t \<times> md_ptr"
  on_createEngine :: "bhist \<Rightarrow> nixl_backend_t \<Rightarrow> engine option"
  on_getInitErr :: "engine \<Rightarrow> bool"
  on_getConnInfo :: "bhist \<Rightarrow> engine \<Rightarrow> nixl_status_t \<times> blob"
  on_loadRemoteConnInfo :: "bhist \<Rightarrow> engine \<Rightarrow> string \<Rightarrow> blob \<Rightarrow> nixl_status_t"
  on_connect :: "bhist \<Rightarrow> engine \<Rightarrow> string \<Rightarrow> nixl_status_t"
  on_disconnect :: "bhist \<Rightarrow> engine \<Rightarrow> string \<Rightarrow> nixl_status_t"
  on_prepXfer :: "bhist \<Rightarrow> engine \<Rightarrow> nixl_xfer_op_t \<Rightarrow> nixlMetaDesc list \<Rightarrow> nixlMetaDesc list \<Rightarrow> string \<Rightarrow>
    nixl_opt_b_args_t \<Rightarrow> nixl_status_t \<times> req_ptr"
  on_postXfer :: "bhist \<Rightarrow> engine \<Rightarrow> nixl_xfer_op_t \<Rightarrow> nixlMetaDesc list \<Rightarrow> nixlMetaDesc list \<Rightarrow> string \<Rightarrow>
    req_ptr \<Rightarrow> nixl_opt_b_args_t \<Rightarrow> nixl_status_t \<times> req_ptr"
  on_checkXfer :: "bhist \<Rightarrow> engine \<Rightarrow> req_ptr \<Rightarrow> nixl_status_t"
  on_releaseReqH :: "bhist \<Rightarrow> engine \<Rightarrow> req_ptr \<Rightarrow> nixl_status_t"
  on_getNotifs :: "bhist \<Rightarrow> engine \<Rightarrow> nixl_status_t \<times> (string \<times> blob) list"
  on_genNotif :: "bhist \<Rightarrow> engine \<Rightarrow> string \<Rightarrow> blob \<Rightarrow> nixl_status_t"
  on_prepMemView :: "bhist \<Rightarrow> engine \<Rightarrow> nixlRemoteMetaDesc list \<Rightarrow> nixlMetaDesc list \<Rightarrow> blob \<Rightarrow> nixl_status_t \<times> mvh_ptr"

subsection \<open>The calls\<close>

definition bk_registerMem :: "benv \<Rightarrow> engine \<Rightarrow> nixlBlobDesc \<Rightarrow> nixl_mem_t \<Rightarrow> bhist \<Rightarrow> nixl_status_t \<times> md_ptr \<times> bhist" where
  "bk_registerMem env e d m h =
     (let (st, md) = on_registerMem env h e d m in (st, md, EvRegisterMem e d m st md # h))"

definition bk_deregisterMem :: "engine \<Rightarrow> md_ptr \<Rightarrow> bhist \<Rightarrow> bhist" where
  "bk_deregisterMem e md h = EvDeregisterMem e md # h"

definition bk_loadLocalMD :: "benv \<Rightarrow> engine \<Rightarrow> md_ptr \<Rightarrow> bhist \<Rightarrow> nixl_status_t \<times> md_ptr \<times> bhist" where
  "bk_loadLocalMD env e md h =
     (let (st, out) = on_loadLocalMD env h e md in (st, out, EvLoadLocalMD e md st out # h))"

definition bk_getPublicData :: "benv \<Rightarrow> engine \<Rightarrow> md_ptr \<Rightarrow> bhist \<Rightarrow> nixl_status_t \<times> blob \<times> bhist" where
  "bk_getPublicData env e md h =
     (let (st, str) = on_getPublicData env h e md in (st, str, EvGetPublicData e md st str # h))"

definition bk_unloadMD :: "engine \<Rightarrow> md_ptr \<Rightarrow> bhist \<Rightarrow> bhist" where
  "bk_unloadMD e md h = EvUnloadMD e md # h"

definition bk_loadRemoteMD ::
    "benv \<Rightarrow> engine \<Rightarrow> nixlBlobDesc \<Rightarrow> nixl_mem_t \<Rightarrow> string \<Rightarrow> bhist \<Rightarrow> nixl_status_t \<times> md_ptr \<times> bhist" where
  "bk_loadRemoteMD env e d m ag h =
     (let (st, md) = on_loadRemoteMD env h e d m ag in (st, md, EvLoadRemoteMD e d m ag st md # h))"

definition bk_getConnInfo :: "benv \<Rightarrow> engine \<Rightarrow> bhist \<Rightarrow> nixl_status_t \<times> blob \<times> bhist" where
  "bk_getConnInfo env e h = (let (st, str) = on_getConnInfo env h e in (st, str, EvGetConnInfo e st str # h))"

definition bk_loadRemoteConnInfo :: "benv \<Rightarrow> engine \<Rightarrow> string \<Rightarrow> blob \<Rightarrow> bhist \<Rightarrow> nixl_status_t \<times> bhist" where
  "bk_loadRemoteConnInfo env e ag info h =
     (let st = on_loadRemoteConnInfo env h e ag info in (st, EvLoadRemoteConnInfo e ag info st # h))"

definition bk_connect :: "benv \<Rightarrow> engine \<Rightarrow> string \<Rightarrow> bhist \<Rightarrow> nixl_status_t \<times> bhist" where
  "bk_connect env e ag h = (let st = on_connect env h e ag in (st, EvConnect e ag st # h))"

definition bk_disconnect :: "benv \<Rightarrow> engine \<Rightarrow> string \<Rightarrow> bhist \<Rightarrow> nixl_status_t \<times> bhist" where
  "bk_disconnect env e ag h = (let st = on_disconnect env h e ag in (st, EvDisconnect e ag st # h))"

definition bk_prepXfer :: "benv \<Rightarrow> engine \<Rightarrow> nixl_xfer_op_t \<Rightarrow> nixlMetaDesc list \<Rightarrow> nixlMetaDesc list \<Rightarrow> string \<Rightarrow>
    nixl_opt_b_args_t \<Rightarrow> bhist \<Rightarrow> nixl_status_t \<times> req_ptr \<times> bhist" where
  "bk_prepXfer env e op ini tgt ag args h =
     (let (st, q) = on_prepXfer env h e op ini tgt ag args in (st, q, EvPrepXfer e op ini tgt ag args st q # h))"

definition bk_postXfer :: "benv \<Rightarrow> engine \<Rightarrow> nixl_xfer_op_t \<Rightarrow> nixlMetaDesc list \<Rightarrow> nixlMetaDesc list \<Rightarrow> string \<Rightarrow>
    req_ptr \<Rightarrow> nixl_opt_b_args_t \<Rightarrow> bhist \<Rightarrow> nixl_status_t \<times> req_ptr \<times> bhist" where
  "bk_postXfer env e op ini tgt ag q args h =
     (let (st, q') = on_postXfer env h e op ini tgt ag q args
      in (st, q', EvPostXfer e op ini tgt ag q args st q' # h))"

definition bk_checkXfer :: "benv \<Rightarrow> engine \<Rightarrow> req_ptr \<Rightarrow> bhist \<Rightarrow> nixl_status_t \<times> bhist" where
  "bk_checkXfer env e q h = (let st = on_checkXfer env h e q in (st, EvCheckXfer e q st # h))"

definition bk_releaseReqH :: "benv \<Rightarrow> engine \<Rightarrow> req_ptr \<Rightarrow> bhist \<Rightarrow> nixl_status_t \<times> bhist" where
  "bk_releaseReqH env e q h = (let st = on_releaseReqH env h e q in (st, EvReleaseReqH e q st # h))"

definition bk_getNotifs :: "benv \<Rightarrow> engine \<Rightarrow> bhist \<Rightarrow> nixl_status_t \<times> (string \<times> blob) list \<times> bhist" where
  "bk_getNotifs env e h = (let (st, ns) = on_getNotifs env h e in (st, ns, EvGetNotifs e st ns # h))"

definition bk_genNotif :: "benv \<Rightarrow> engine \<Rightarrow> string \<Rightarrow> blob \<Rightarrow> bhist \<Rightarrow> nixl_status_t \<times> bhist" where
  "bk_genNotif env e ag msg h = (let st = on_genNotif env h e ag msg in (st, EvGenNotif e ag msg st # h))"

definition bk_prepMemView :: "benv \<Rightarrow> engine \<Rightarrow> nixlRemoteMetaDesc list \<Rightarrow> nixlMetaDesc list \<Rightarrow> blob \<Rightarrow> bhist \<Rightarrow>
    nixl_status_t \<times> mvh_ptr \<times> bhist" where
  "bk_prepMemView env e rem loc param h =
     (let (st, v) = on_prepMemView env h e rem loc param in (st, v, EvPrepMemView e rem loc param st v # h))"

definition bk_releaseMemView :: "engine \<Rightarrow> mvh_ptr \<Rightarrow> bhist \<Rightarrow> bhist" where
  "bk_releaseMemView e v h = EvReleaseMemView e v # h"

lemmas bk_defs = bk_registerMem_def bk_deregisterMem_def bk_loadLocalMD_def bk_getPublicData_def
  bk_unloadMD_def bk_loadRemoteMD_def bk_getConnInfo_def bk_loadRemoteConnInfo_def bk_connect_def
  bk_disconnect_def bk_prepXfer_def bk_postXfer_def bk_checkXfer_def bk_releaseReqH_def
  bk_getNotifs_def bk_genNotif_def bk_prepMemView_def bk_releaseMemView_def

subsection \<open>Resource accounts\<close>

text \<open>How often a registration of \<open>e\<close> with handle \<open>md\<close> is outstanding: successful registrations
  minus deregistrations. In the same way for loaded target metadata and prepared requests.\<close>

fun reg_delta :: "engine \<Rightarrow> md_ptr \<Rightarrow> bevent \<Rightarrow> int" where
  "reg_delta e md (EvRegisterMem e' d m st md') = of_bool (e' = e \<and> md' = md \<and> st = NIXL_SUCCESS)"
| "reg_delta e md (EvDeregisterMem e' md') = - of_bool (e' = e \<and> md' = md)"
| "reg_delta e md _ = 0"

definition reg_bal :: "bhist \<Rightarrow> engine \<Rightarrow> md_ptr \<Rightarrow> int" where
  "reg_bal h e md = (\<Sum>ev\<leftarrow>h. reg_delta e md ev)"

fun load_delta :: "engine \<Rightarrow> md_ptr \<Rightarrow> bevent \<Rightarrow> int" where
  "load_delta e md (EvLoadRemoteMD e' d m ag st md') = of_bool (e' = e \<and> md' = md \<and> \<not> is_err st)"
| "load_delta e md (EvLoadLocalMD e' src st md') = of_bool (e' = e \<and> md' = md \<and> st = NIXL_SUCCESS)"
| "load_delta e md (EvUnloadMD e' md') = - of_bool (e' = e \<and> md' = md)"
| "load_delta e md _ = 0"

definition load_bal :: "bhist \<Rightarrow> engine \<Rightarrow> md_ptr \<Rightarrow> int" where
  "load_bal h e md = (\<Sum>ev\<leftarrow>h. load_delta e md ev)"

lemma bal_simps [simp]:
  "reg_bal [] e md = 0" "reg_bal (ev # h) e md = reg_delta e md ev + reg_bal h e md"
  "load_bal [] e md = 0" "load_bal (ev # h) e md = load_delta e md ev + load_bal h e md"
  by (simp_all add: reg_bal_def load_bal_def)

lemma bal_append [simp]:
  "reg_bal (h @ h') e md = reg_bal h e md + reg_bal h' e md"
  "load_bal (h @ h') e md = load_bal h e md + load_bal h' e md"
  by (simp_all add: reg_bal_def load_bal_def)

end
