(* ===== verification/Nixl_MemSection.thy ===== *)
theory Nixl_MemSection
  imports Nixl_SecDescList Nixl_Strides Nixl_Backend
begin

text \<open>
  The look-up half of \<open>nixlMemSection\<close> (\<open>src/infra/mem_section.h\<close>,
  \<open>src/infra/nixl_memory_section.cpp\<close>): the sections of an agent, one sorted list of registered
  regions per memory type and backend, and the three \<open>populate\<close> routines that resolve a transfer
  list to backend metadata. The walk over a sorted query, the compression of the answer to
  strided runs and the span test of strided queries are each proved against the plain meaning:
  every block gets the metadata of a region that covers it.
\<close>

type_synonym section_key_t = "nixl_mem_t \<times> engine"
type_synonym section_map_t = "(section_key_t \<times> nixlSecDescList) list"
type_synonym nixl_xfer_dlist_t = "nixlBasicDesc nixlDescList"
type_synonym nixl_stride_dlist_t = "nixlStrideDesc nixlDescList"
type_synonym nixl_reg_dlist_t = "nixlBlobDesc nixlDescList"
type_synonym nixl_meta_dlist_t = "nixlMetaDesc nixlDescList"
type_synonym nixl_remote_meta_dlist_t = "nixlRemoteMetaDesc nixlDescList"

text \<open>\<open>memToBackend\<close> is an array with one set of backends per memory type; an index above
  \<open>FILE_SEG\<close> is memory behind the array.\<close>

record nixlMemSection =
  memToBackend :: "nixl_mem_t \<Rightarrow> engine list"
  sectionMap :: section_map_t

definition mem_section_new :: nixlMemSection where
  "mem_section_new = \<lparr>memToBackend = (\<lambda>_. []), sectionMap = []\<rparr>"

abbreviation section_at :: "'a nixlMemSection_scheme \<Rightarrow> nixl_mem_t \<Rightarrow> engine \<Rightarrow> nixlSecDescList option" where
  "section_at s m e \<equiv> map_of (sectionMap s) (m, e)"

definition rangeEnd :: "'a nixlBasicDesc_scheme \<Rightarrow> u64" where
  "rangeEnd d = (if len d = SIZE_MAX then SIZE_MAX else addr d + len d)"

definition coversWithEnd :: "'a nixlBasicDesc_scheme \<Rightarrow> u64 \<Rightarrow> 'b nixlBasicDesc_scheme \<Rightarrow> bool" where
  "coversWithEnd covering covering_end query =
     (let query_end = addr query + len query
      in devId covering = devId query \<and> addr covering \<le> addr query \<and>
         query_end \<ge> addr query \<and> query_end \<le> covering_end)"

definition coversFollowingWithEnd :: "'a nixlBasicDesc_scheme \<Rightarrow> u64 \<Rightarrow> 'b nixlBasicDesc_scheme \<Rightarrow> bool" where
  "coversFollowingWithEnd covering covering_end query =
     (let query_end = addr query + len query
      in devId covering = devId query \<and> query_end \<ge> addr query \<and> query_end \<le> covering_end)"

text \<open>\<open>std::set\<close> of pointers: an ordered list without duplicates.\<close>

definition set_emplace :: "'a::linorder \<Rightarrow> 'a list \<Rightarrow> 'a list" where
  "set_emplace x xs = insort_insert x xs"

definition set_erase :: "'a \<Rightarrow> 'a list \<Rightarrow> 'a list" where
  "set_erase x xs = removeAll x xs"

definition emplace :: "nixl_mem_t \<Rightarrow> engine \<Rightarrow> 'a nixlMemSection_scheme \<Rightarrow> 'a nixlMemSection_scheme" where
  "emplace m e s =
     (case section_at s m e of
        Some _ \<Rightarrow> s
      | None \<Rightarrow> s\<lparr>sectionMap := om_update (m, e) \<lparr>getType = m, descs = []\<rparr> (sectionMap s),
                 memToBackend := (memToBackend s)(m := set_emplace e (memToBackend s m))\<rparr>)"

definition queryBackends :: "nixl_mem_t \<Rightarrow> 'a nixlMemSection_scheme \<Rightarrow> engine list option" where
  "queryBackends m s = (if m < DRAM_SEG \<or> m > FILE_SEG then None else Some (memToBackend s m))"

subsection \<open>Resolving a list of ranges\<close>

definition meta_of :: "nixlBasicDesc \<Rightarrow> nixlSectionDesc \<Rightarrow> nixlMetaDesc" where
  "meta_of q d = \<lparr>addr = addr q, len = len q, devId = devId q, metadataP = metadataP d\<rparr>"

text \<open>The forward walk: the first section from position \<open>s\<close> on that covers the query, or the
  number of sections.\<close>

function forward :: "nixlSectionDesc list \<Rightarrow> nat \<Rightarrow> nixlBasicDesc \<Rightarrow> nat" where
  "forward ds s q =
     (if s < length ds \<and> \<not> coversWithEnd (ds ! s) (rangeEnd (ds ! s)) q then forward ds (s + 1) q else s)"
  by pat_completeness auto
termination
  by (relation "measure (\<lambda>(ds, s, q). length ds - s)") auto

declare forward.simps [simp del]

fun populate_loop :: "nixlSecDescList \<Rightarrow> nat \<Rightarrow> nixlBasicDesc \<Rightarrow> nixlBasicDesc list \<Rightarrow> nixlMetaDesc list \<Rightarrow>
    nixl_status_t \<times> nixlMetaDesc list" where
  "populate_loop base s prev [] resp = (NIXL_SUCCESS, resp)"
| "populate_loop base s prev (q # qs) resp =
     (if basic_less q prev
      then let s_index = getCoveringIndex base q
           in if s_index < 0 then (NIXL_ERR_UNKNOWN, [])
              else populate_loop base (nat s_index) q qs (resp @ [meta_of q (descs base ! nat s_index)])
      else let covering = descs base ! s;
               s_index = (if coversFollowingWithEnd covering (rangeEnd covering) q then s
                          else forward (descs base) (s + 1) q)
           in if s_index = length (descs base) then (NIXL_ERR_UNKNOWN, [])
              else populate_loop base s_index q qs (resp @ [meta_of q (descs base ! s_index)]))"

definition populate :: "'a nixlMemSection_scheme \<Rightarrow> nixl_xfer_dlist_t \<Rightarrow> engine \<Rightarrow> nixl_meta_dlist_t \<Rightarrow>
    nixl_status_t \<times> nixl_meta_dlist_t" where
  "populate sec query backend resp =
     (if getType query \<noteq> getType resp \<or> isEmpty query then (NIXL_ERR_INVALID_PARAM, resp)
      else case section_at sec (getType query) backend of
        None \<Rightarrow> (NIXL_ERR_NOT_FOUND, resp)
      | Some base \<Rightarrow>
          let q0 = hd (descs query);
              s_index = getCoveringIndex base q0
          in if s_index < 0 then (NIXL_ERR_UNKNOWN, resp\<lparr>descs := []\<rparr>)
             else let (st, ds) = populate_loop base (nat s_index) q0 (tl (descs query))
                                   [meta_of q0 (descs base ! nat s_index)]
                  in (st, resp\<lparr>descs := ds\<rparr>))"

subsection \<open>Resolving and compressing\<close>

definition single_run :: "nixlBasicDesc \<Rightarrow> md_ptr \<Rightarrow> nixlMetaStrideDesc" where
  "single_run q md =
     \<lparr>addr = addr q, len = len q, devId = devId q, stride = len q, count = 1, strideMetadataP = md, start_idx = 0\<rparr>"

text \<open>The position of the section for the next query of the compressing loop; \<open>None\<close> is the error
  return.\<close>

definition next_section :: "nixlSecDescList \<Rightarrow> nat \<Rightarrow> nixlBasicDesc \<Rightarrow> nixlBasicDesc \<Rightarrow> nat option" where
  "next_section base s prev q =
     (if coversWithEnd (descs base ! s) (rangeEnd (descs base ! s)) q then Some s
      else if basic_less q prev
      then let s_index = getCoveringIndex base q in if s_index < 0 then None else Some (nat s_index)
      else let s_index = forward (descs base) s q
           in if s_index = length (descs base) then None else Some s_index)"

text \<open>Whether \<open>it\<close> extends the current run, and the run with the stride it then has.\<close>

definition extends_run :: "nixlMetaStrideDesc \<Rightarrow> u64 \<Rightarrow> nixlBasicDesc \<Rightarrow> md_ptr \<Rightarrow> bool \<times> nixlMetaStrideDesc" where
  "extends_run current prev_addr it meta =
     (if len it \<noteq> len current \<or> devId it \<noteq> devId current \<or> meta \<noteq> strideMetadataP current then (False, current)
      else if count current = 1
      then if addr it > prev_addr then (True, current\<lparr>stride := addr it - prev_addr\<rparr>) else (False, current)
      else (addr it - prev_addr = stride current, current))"

fun compress_loop :: "nixlSecDescList \<Rightarrow> nat \<Rightarrow> nat \<Rightarrow> nixlBasicDesc \<Rightarrow> nixlBasicDesc list \<Rightarrow>
    nixlMetaStrideDesc \<Rightarrow> nixlMetaStrideDesc list \<Rightarrow> nixl_status_t \<times> nixlMetaStrideDesc list" where
  "compress_loop base i s prev [] current resp = (NIXL_SUCCESS, resp @ [current])"
| "compress_loop base i s prev (it # qs) current resp =
     (case next_section base s prev it of
        None \<Rightarrow> (NIXL_ERR_UNKNOWN, [])
      | Some s_index \<Rightarrow>
          let meta = metadataP (descs base ! s_index);
              (ext, cur) = extends_run current (addr prev) it meta
          in if ext then compress_loop base (i + 1) s_index it qs (cur\<lparr>count := count cur + 1\<rparr>) resp
             else compress_loop base (i + 1) s_index it qs ((single_run it meta)\<lparr>start_idx := of_nat i\<rparr>) (resp @ [cur]))"

definition populate_compress :: "'a nixlMemSection_scheme \<Rightarrow> nixl_xfer_dlist_t \<Rightarrow> engine \<Rightarrow> nixlMetaStrideDescList \<Rightarrow>
    nixl_status_t \<times> nixlMetaStrideDescList" where
  "populate_compress sec query backend resp =
     (if getType query \<noteq> getType resp \<or> isEmpty query then (NIXL_ERR_INVALID_PARAM, resp)
      else case section_at sec (getType query) backend of
        None \<Rightarrow> (NIXL_ERR_NOT_FOUND, resp)
      | Some base \<Rightarrow>
          let q0 = hd (descs query);
              s_index = getCoveringIndex base q0
          in if s_index < 0 then (NIXL_ERR_UNKNOWN, resp\<lparr>descs := []\<rparr>)
             else let (st, ds) = compress_loop base 1 (nat s_index) q0 (tl (descs query))
                                   (single_run q0 (metadataP (descs base ! nat s_index))) []
                  in (st, resp\<lparr>descs := ds\<rparr>))"

subsection \<open>Resolving strided runs\<close>

definition run_rejected :: "nixlStrideDesc \<Rightarrow> u64 \<Rightarrow> bool" where
  "run_rejected run start \<longleftrightarrow>
     count run = 0 \<or> len run = 0 \<or> stride run < len run \<or> len run > SIZE_MAX - addr run \<or>
     count run - 1 > (SIZE_MAX - addr run - len run) div stride run \<or> count run > SIZE_MAX - start"

definition run_span :: "nixlStrideDesc \<Rightarrow> nixlBasicDesc" where
  "run_span run = \<lparr>addr = addr run, len = (count run - 1) * stride run + len run, devId = devId run\<rparr>"

definition meta_run :: "nixlStrideDesc \<Rightarrow> md_ptr \<Rightarrow> u64 \<Rightarrow> nixlMetaStrideDesc" where
  "meta_run run md start =
     \<lparr>addr = addr run, len = len run, devId = devId run, stride = stride run, count = count run,
      strideMetadataP = md, start_idx = start\<rparr>"

fun stride_loop :: "nixlSecDescList \<Rightarrow> u64 \<Rightarrow> nixlStrideDesc list \<Rightarrow> nixlMetaStrideDesc list \<Rightarrow>
    nixl_status_t \<times> nixlMetaStrideDesc list" where
  "stride_loop base start [] resp = (NIXL_SUCCESS, resp)"
| "stride_loop base start (run # runs) resp =
     (if run_rejected run start then (NIXL_ERR_INVALID_PARAM, [])
      else let s_index = getCoveringIndex base (run_span run)
           in if s_index < 0 then (NIXL_ERR_UNKNOWN, [])
              else stride_loop base (start + count run) runs
                     (resp @ [meta_run run (metadataP (descs base ! nat s_index)) start]))"

definition populate_stride :: "'a nixlMemSection_scheme \<Rightarrow> nixl_stride_dlist_t \<Rightarrow> engine \<Rightarrow> nixlMetaStrideDescList \<Rightarrow>
    nixl_status_t \<times> nixlMetaStrideDescList" where
  "populate_stride sec query backend resp =
     (if getType query \<noteq> getType resp \<or> isEmpty query then (NIXL_ERR_INVALID_PARAM, resp)
      else case section_at sec (getType query) backend of
        None \<Rightarrow> (NIXL_ERR_NOT_FOUND, resp)
      | Some base \<Rightarrow> let (st, ds) = stride_loop base 0 (descs query) [] in (st, resp\<lparr>descs := ds\<rparr>))"

definition addElement :: "'a nixlMemSection_scheme \<Rightarrow> nixlRemoteDesc \<Rightarrow> engine \<Rightarrow> nixl_remote_meta_dlist_t \<Rightarrow>
    nixl_status_t \<times> nixl_remote_meta_dlist_t" where
  "addElement sec query backend resp =
     (case section_at sec (getType resp) backend of
        None \<Rightarrow> (NIXL_ERR_NOT_FOUND, resp)
      | Some base \<Rightarrow>
          let s_index = getCoveringIndex base (basic query)
          in if s_index < 0 then (NIXL_ERR_UNKNOWN, resp)
             else (NIXL_SUCCESS,
                   dlist_addDesc (nixlMetaDesc.extend (meta_of (basic query) (descs base ! nat s_index))
                                    (nixlRemoteMetaDesc.fields [])) resp))"

subsection \<open>The end-based tests are the covering test\<close>

lemma query_end_ge: "addr q \<le> addr q + len q \<longleftrightarrow> no_wrap q"
proof (cases "no_wrap q")
  case True
  then show ?thesis using unat_range_end [of q] by (simp add: word_le_nat_alt range_end_def)
next
  case False
  then show ?thesis using wrapped_end [of q] by simp
qed

lemma coversWithEnd_covers [simp]: "coversWithEnd d (rangeEnd d) q \<longleftrightarrow> covers d q"
proof (cases "len d = SIZE_MAX")
  case True
  then show ?thesis
    by (auto simp: coversWithEnd_def rangeEnd_def covers_iff query_end_ge Let_def)
next
  case False
  have "addr q + len q \<le> addr d + len d \<longleftrightarrow> no_wrap d \<and> range_end q \<le> range_end d"
    if "no_wrap q" "addr d \<le> addr q"
  proof (cases "no_wrap d")
    case True
    with that show ?thesis by (simp add: word_le_nat_alt unat_range_end)
  next
    case False
    from wrapped_end [OF this] have "addr d + len d < addr q + len q"
      using that query_end_ge [of q] by (meson order.strict_trans2 order.trans)
    with False show ?thesis by simp
  qed
  moreover have "no_wrap q" if "no_wrap d" "range_end q \<le> range_end d"
    using that by (simp add: no_wrap_def)
  ultimately show ?thesis
    using False by (auto simp: coversWithEnd_def rangeEnd_def covers_iff query_end_ge Let_def)
qed

text \<open>The shorter test is enough when the section covered the previous query of an ordered pair.\<close>

lemma following_covers:
  assumes "covers d p" and "\<not> basic_less q p"
  shows "coversFollowingWithEnd d (rangeEnd d) q \<longleftrightarrow> covers d q"
proof -
  have "addr d \<le> addr q" if "devId d = devId q"
    using assms that by (auto simp: basic_less_def covers_iff not_less split: if_splits)
  then show ?thesis
    unfolding coversWithEnd_covers [symmetric] coversWithEnd_def coversFollowingWithEnd_def Let_def by auto
qed

lemma forward_spec:
  assumes "s \<le> length ds"
  shows "s \<le> forward ds s q \<and> forward ds s q \<le> length ds \<and>
    (\<forall>i. s \<le> i \<and> i < forward ds s q \<longrightarrow> \<not> covers (ds ! i) q) \<and>
    (forward ds s q < length ds \<longrightarrow> covers (ds ! forward ds s q) q)"
  using assms
proof (induction ds s q rule: forward.induct)
  case (1 ds s q)
  show ?case
  proof (cases "s < length ds \<and> \<not> covers (ds ! s) q")
    case True
    then have step: "forward ds s q = forward ds (s + 1) q"
      by (subst forward.simps) simp
    have "s + 1 \<le> forward ds (s + 1) q \<and> forward ds (s + 1) q \<le> length ds \<and>
      (\<forall>i. s + 1 \<le> i \<and> i < forward ds (s + 1) q \<longrightarrow> \<not> covers (ds ! i) q) \<and>
      (forward ds (s + 1) q < length ds \<longrightarrow> covers (ds ! forward ds (s + 1) q) q)"
      using "1.IH" True by simp
    with True show ?thesis
      unfolding step by (metis Suc_eq_plus1 Suc_leD le_antisym not_less_eq_eq)
  next
    case False
    then have "forward ds s q = s" by (subst forward.simps) auto
    with False "1.prems" show ?thesis by auto
  qed
qed

subsection \<open>What a list of ranges resolves to\<close>

definition covering_section :: "nixlSecDescList \<Rightarrow> nixlBasicDesc \<Rightarrow> nixlSectionDesc option" where
  "covering_section base q = List.find (\<lambda>d. covers d q) (descs base)"

definition resolve :: "nixlSecDescList \<Rightarrow> nixlBasicDesc list \<Rightarrow> nixlMetaDesc list option" where
  "resolve base qs = those (map (\<lambda>q. map_option (meta_of q) (covering_section base q)) qs)"

lemma resolve_simps [simp]:
  "resolve base [] = Some []"
  "resolve base (q # qs) =
     (case covering_section base q of None \<Rightarrow> None | Some d \<Rightarrow> map_option ((#) (meta_of q d)) (resolve base qs))"
  by (simp_all add: resolve_def split: option.split)

lemma covering_section_unique:
  assumes "sec_disjoint base" and "len q \<noteq> 0" and "p < length (descs base)" and "covers (descs base ! p) q"
  shows "covering_section base q = Some (descs base ! p)"
proof -
  have "\<not> covers (descs base ! i) q" if "i < p" for i
    using disjoint_covers_unique [OF assms(1) that assms(3,2)] assms(4) by (auto simp: covers_iff)
  then show ?thesis
    unfolding covering_section_def find_Some_iff using assms(3,4) by blast
qed

lemma covering_section_None: "covering_section base q = None \<longleftrightarrow> (\<forall>d \<in> set (descs base). \<not> covers d q)"
  by (auto simp: covering_section_def find_None_iff)

lemma getCoveringIndex_section:
  assumes "sec_sorted base" and "sec_disjoint base" and "len q \<noteq> 0"
  shows "if getCoveringIndex base q < 0 then covering_section base q = None
    else nat (getCoveringIndex base q) < length (descs base) \<and> covers (descs base ! nat (getCoveringIndex base q)) q
      \<and> covering_section base q = Some (descs base ! nat (getCoveringIndex base q))"
proof (cases "getCoveringIndex base q = -1")
  case True
  have "\<not> covers d q" if d: "d \<in> set (descs base)" for d
    using d getCoveringIndex_complete [OF assms] True by (fastforce simp: in_set_conv_nth)
  with True show ?thesis by (simp add: covering_section_None)
next
  case False
  then obtain i where "i < length (descs base)" "getCoveringIndex base q = int i" "covers (descs base ! i) q"
    using getCoveringIndex_sound [OF assms(1), of q] by blast
  with covering_section_unique [OF assms(2,3)] show ?thesis by simp
qed

text \<open>A section that covers a later query does not come before the one that covered the last.\<close>

lemma covering_not_before:
  assumes "sec_sorted base" and "sec_disjoint base" and "len q \<noteq> 0"
    and s: "s < length (descs base)" "covers (descs base ! s) prev" and le: "\<not> basic_less q prev"
    and p: "p < length (descs base)" "covers (descs base ! p) q"
  shows "s \<le> p"
proof (rule ccontr)
  assume "\<not> s \<le> p"
  then have ps: "p < s" by simp
  have "basic (descs base ! p) \<le> basic (descs base ! s)"
    using assms(1) ps s(1) by (simp add: sec_sorted_def sorted_iff_nth_mono)
  from basic_le_devId [OF this] have "devId q \<le> devId prev"
    using s(2) p(2) by (simp add: covers_iff)
  with le have dev: "devId q = devId prev" and "addr prev \<le> addr q"
    by (auto simp: basic_less_def not_less split: if_splits)
  moreover have "addr q < addr (descs base ! s)"
    using disjoint_covers_unique [OF assms(2) ps s(1) assms(3) p(2)] dev s(2) by (simp add: covers_iff)
  moreover have "addr (descs base ! s) \<le> addr prev" using s(2) by (simp add: covers_iff)
  ultimately show False by simp
qed

text \<open>The section the forward walk of either loop reaches.\<close>

lemma forward_section:
  assumes "sec_sorted base" and "sec_disjoint base" and "len q \<noteq> 0"
    and "s < length (descs base)" "covers (descs base ! s) prev" and "\<not> basic_less q prev"
    and t: "t = s \<or> t = s + 1 \<and> \<not> covers (descs base ! s) q"
  shows "if forward (descs base) t q = length (descs base) then covering_section base q = None
    else forward (descs base) t q < length (descs base) \<and> covers (descs base ! forward (descs base) t q) q
      \<and> covering_section base q = Some (descs base ! forward (descs base) t q)"
proof -
  let ?f = "forward (descs base) t q"
  have f: "t \<le> ?f" "?f \<le> length (descs base)"
    "\<And>i. t \<le> i \<Longrightarrow> i < ?f \<Longrightarrow> \<not> covers (descs base ! i) q"
    "?f < length (descs base) \<Longrightarrow> covers (descs base ! ?f) q"
    using forward_spec [of t "descs base" q] assms(4) t by auto
  have from_t: "t \<le> p" if "p < length (descs base)" "covers (descs base ! p) q" for p
    using covering_not_before [OF assms(1-6) that] that t by (cases "p = s") auto
  show ?thesis
  proof (cases "?f = length (descs base)")
    case True
    then have "\<not> covers d q" if "d \<in> set (descs base)" for d
      using that f(3) from_t by (metis in_set_conv_nth)
    with True show ?thesis by (simp add: covering_section_None)
  next
    case False
    with f(2) have "?f < length (descs base)" by simp
    with False f(4) covering_section_unique [OF assms(2,3)] show ?thesis by simp
  qed
qed

lemma populate_loop_resolve:
  assumes "sec_sorted base" and "sec_disjoint base"
    and "s < length (descs base)" "covers (descs base ! s) prev" and "\<forall>q \<in> set qs. len q \<noteq> 0"
  shows "populate_loop base s prev qs resp =
    (case resolve base qs of None \<Rightarrow> (NIXL_ERR_UNKNOWN, []) | Some ms \<Rightarrow> (NIXL_SUCCESS, resp @ ms))"
  using assms(3-5)
proof (induction qs arbitrary: s prev resp)
  case (Cons q qs)
  have nz: "len q \<noteq> 0" using Cons.prems(3) by simp
  show ?case
  proof (cases "basic_less q prev")
    case True
    with getCoveringIndex_section [OF assms(1,2) nz] show ?thesis
      using Cons.IH [of "nat (getCoveringIndex base q)" q] Cons.prems(3)
      by (auto simp: Let_def split: if_splits option.splits)
  next
    case False
    define t where "t = (if coversFollowingWithEnd (descs base ! s) (rangeEnd (descs base ! s)) q then s
      else forward (descs base) (s + 1) q)"
    have "if t = length (descs base) then covering_section base q = None
      else t < length (descs base) \<and> covers (descs base ! t) q \<and> covering_section base q = Some (descs base ! t)"
    proof (cases "covers (descs base ! s) q")
      case True
      with covering_section_unique [OF assms(2) nz Cons.prems(1)] Cons.prems(1) show ?thesis
        by (simp add: t_def following_covers [OF Cons.prems(2) False])
    next
      case not: False
      then have "t = forward (descs base) (s + 1) q"
        by (simp add: t_def following_covers [OF Cons.prems(2) False])
      with forward_section [OF assms(1,2) nz Cons.prems(1,2) False, of "s + 1"] not show ?thesis
        by (auto split: if_splits)
    qed
    moreover have "populate_loop base s prev (q # qs) resp =
        (if t = length (descs base) then (NIXL_ERR_UNKNOWN, [])
         else populate_loop base t q qs (resp @ [meta_of q (descs base ! t)]))"
      using False by (simp add: t_def Let_def)
    ultimately show ?thesis
      using Cons.IH [of t q] Cons.prems(3) by (auto split: if_splits option.splits)
  qed
qed simp

lemma next_section_resolve:
  assumes "sec_sorted base" and "sec_disjoint base" and "len q \<noteq> 0"
    and "s < length (descs base)" "covers (descs base ! s) prev"
  shows "case next_section base s prev q of
      None \<Rightarrow> covering_section base q = None
    | Some t \<Rightarrow> t < length (descs base) \<and> covers (descs base ! t) q \<and> covering_section base q = Some (descs base ! t)"
proof (cases "covers (descs base ! s) q")
  case True
  with assms covering_section_unique show ?thesis by (simp add: next_section_def)
next
  case False
  show ?thesis
  proof (cases "basic_less q prev")
    case True
    with False getCoveringIndex_section [OF assms(1-3)] show ?thesis
      by (auto simp: next_section_def Let_def split: if_splits)
  next
    case not: False
    with False forward_section [OF assms not, of s] show ?thesis
      by (auto simp: next_section_def Let_def split: if_splits)
  qed
qed

subsection \<open>Growing a run\<close>

text \<open>The current run of the compressing loop ends at \<open>prev_addr\<close>.\<close>

definition run_ends :: "nixlMetaStrideDesc \<Rightarrow> u64 \<Rightarrow> bool" where
  "run_ends r a \<longleftrightarrow> count r \<noteq> 0 \<and> a = addr r + (count r - 1) * stride r"

lemma run_ends_single [simp]: "run_ends ((single_run q md)\<lparr>start_idx := n\<rparr>) (addr q)" "run_ends (single_run q md) (addr q)"
  by (simp_all add: run_ends_def single_run_def)

lemma run_blocks_single [simp]:
  "run_blocks (single_run q md) = [\<lparr>addr = addr q, len = len q, devId = devId q, metadataP = md\<rparr>]"
  "run_blocks (r\<lparr>start_idx := n\<rparr>) = run_blocks r"
  by (simp_all add: run_blocks_def single_run_def block_def)

lemma run_blocks_stride:
  assumes "count r = 1"
  shows "run_blocks (r\<lparr>stride := n\<rparr>) = run_blocks r"
  using assms by (simp add: run_blocks_def block_def)

lemma run_blocks_grow:
  assumes "unat (count r) + 1 < 2 ^ 64"
  shows "run_blocks (r\<lparr>count := count r + 1\<rparr>) = run_blocks r @ [block r (unat (count r))]"
proof -
  have "unat (count r + 1) = Suc (unat (count r))"
    using assms unat_add_u64 [of "count r" 1] by simp
  then show ?thesis by (simp add: run_blocks_def block_def)
qed

lemma extends_run_grows:
  assumes "run_ends r a" and ext: "extends_run r a q md = (True, r')" and "unat (count r) + 1 < 2 ^ 64"
  shows "run_blocks (r'\<lparr>count := count r' + 1\<rparr>) =
      run_blocks r @ [\<lparr>addr = addr q, len = len q, devId = devId q, metadataP = md\<rparr>]"
    and "run_ends (r'\<lparr>count := count r' + 1\<rparr>) (addr q)" and "count r' = count r" and "start_idx r' = start_idx r"
proof -
  have same: "len q = len r" "devId q = devId r" "md = strideMetadataP r"
    and keep: "count r' = count r" "start_idx r' = start_idx r" "addr r' = addr r" "len r' = len r"
      "devId r' = devId r" "strideMetadataP r' = strideMetadataP r"
    and step: "addr q = a + stride r'" and first: "run_blocks r' = run_blocks r" "a = addr r' + (count r' - 1) * stride r'"
    using ext assms(1) run_blocks_stride [of r]
    by (auto simp: extends_run_def run_ends_def diff_eq_eq add.commute split: if_splits)
  have aq: "addr q = addr r' + count r' * stride r'"
    using step first(2) by (simp add: algebra_simps)
  then have "block r' (unat (count r')) = \<lparr>addr = addr q, len = len q, devId = devId q, metadataP = md\<rparr>"
    using same keep by (simp add: block_def)
  then show "run_blocks (r'\<lparr>count := count r' + 1\<rparr>) =
      run_blocks r @ [\<lparr>addr = addr q, len = len q, devId = devId q, metadataP = md\<rparr>]"
    using run_blocks_grow [of r'] assms(3) keep first(1) by simp
  have "count r' + 1 \<noteq> 0"
  proof
    assume "count r' + 1 = 0"
    then have "unat (count r + 1) = 0" using keep(1) by simp
    with assms(3) unat_add_u64 [of "count r" 1] show False by simp
  qed
  with aq show "run_ends (r'\<lparr>count := count r' + 1\<rparr>) (addr q)" by (simp add: run_ends_def)
qed (use ext in \<open>auto simp: extends_run_def split: if_splits\<close>)

lemma extends_run_keeps: "extends_run r a q md = (False, r') \<Longrightarrow> r' = r"
  by (auto simp: extends_run_def split: if_splits)

lemma compress_loop_resolve:
  assumes "sec_sorted base" and "sec_disjoint base"
    and "s < length (descs base)" "covers (descs base ! s) prev" and "\<forall>q \<in> set qs. len q \<noteq> 0"
    and "runs_from 0 (resp @ [cur])" and "length (flat (resp @ [cur])) = i" and "run_ends cur (addr prev)"
    and "i + length qs < 2 ^ 64"
  shows "case resolve base qs of
      None \<Rightarrow> compress_loop base i s prev qs cur resp = (NIXL_ERR_UNKNOWN, [])
    | Some ms \<Rightarrow> \<exists>runs. compress_loop base i s prev qs cur resp = (NIXL_SUCCESS, runs) \<and>
        runs_from 0 runs \<and> flat runs = flat (resp @ [cur]) @ ms"
  using assms(3-9)
proof (induction qs arbitrary: i s prev cur resp)
  case Nil
  then show ?case by simp
next
  case (Cons q qs)
  note pr = Cons.prems
  have nz: "len q \<noteq> 0" using pr(3) by simp
  show ?case
  proof (cases "next_section base s prev q")
    case None
    with next_section_resolve [OF assms(1,2) nz pr(1,2)] show ?thesis by simp
  next
    case (Some t)
    let ?d = "descs base ! t"
    have t: "t < length (descs base)" "covers ?d q" "covering_section base q = Some ?d"
      using next_section_resolve [OF assms(1,2) nz pr(1,2)] Some by simp_all
    have small: "unat (count cur) + 1 < 2 ^ 64" "i + 1 < 2 ^ 64" "i + 1 + length qs < 2 ^ 64"
      using pr(5,7) by auto
    obtain e r where e: "extends_run cur (addr prev) q (metadataP ?d) = (e, r)" by fastforce
    define cur' where "cur' = (if e then r\<lparr>count := count r + 1\<rparr> else (single_run q (metadataP ?d))\<lparr>start_idx := of_nat i\<rparr>)"
    define resp' where "resp' = (if e then resp else resp @ [r])"
    have meta: "\<lparr>addr = addr q, len = len q, devId = devId q, metadataP = metadataP ?d\<rparr> = meta_of q ?d"
      by (simp add: meta_of_def)
    have loop: "compress_loop base i s prev (q # qs) cur resp = compress_loop base (i + 1) t q qs cur' resp'"
      using Some e by (simp add: cur'_def resp'_def Let_def)
    have flat': "flat (resp' @ [cur']) = flat (resp @ [cur]) @ [meta_of q ?d]"
      using extends_run_grows(1) [OF pr(6), of q "metadataP ?d" r] extends_run_keeps [of cur "addr prev" q "metadataP ?d" r]
        e small(1) by (cases e) (simp_all add: cur'_def resp'_def meta)
    have ends': "run_ends cur' (addr q)"
      using extends_run_grows(2) [OF pr(6), of q "metadataP ?d" r] e small(1) by (simp add: cur'_def)
    have runs': "runs_from 0 (resp' @ [cur'])"
    proof (cases e)
      case True
      have "unat (count cur + 1) = unat (count cur) + 1" "count cur + 1 \<noteq> 0"
        using small(1) unat_add_u64 [of "count cur" 1] by (auto simp: unat_eq_0 [symmetric])
      with True extends_run_grows(3,4) [OF pr(6), of q "metadataP ?d" r] e small pr(4,5) show ?thesis
        by (auto simp: cur'_def resp'_def runs_from_append)
    next
      case False
      then show ?thesis
        using extends_run_keeps [of cur "addr prev" q "metadataP ?d" r] e pr(4,5) small(2)
        by (simp add: cur'_def resp'_def runs_from_append single_run_def unat_word_of_nat_64)
    qed
    have len': "length (flat (resp' @ [cur'])) = i + 1" unfolding flat' using pr(5) by simp
    have "case resolve base qs of
        None \<Rightarrow> compress_loop base (i + 1) t q qs cur' resp' = (NIXL_ERR_UNKNOWN, [])
      | Some ms \<Rightarrow> \<exists>runs. compress_loop base (i + 1) t q qs cur' resp' = (NIXL_SUCCESS, runs) \<and>
          runs_from 0 runs \<and> flat runs = flat (resp' @ [cur']) @ ms"
      by (rule Cons.IH [OF t(1,2) _ runs' len' ends' small(3)]) (use pr(3) in simp)
    then show ?thesis
      unfolding loop flat' using t(3) by (simp split: option.splits)
  qed
qed

lemma populate_resolve:
  assumes "section_at sec (getType query) backend = Some base" and "sec_sorted base" and "sec_disjoint base"
    and "getType query = getType resp" and "descs query \<noteq> []" and "\<forall>q \<in> set (descs query). len q \<noteq> 0"
  shows "populate sec query backend resp =
    (case resolve base (descs query) of
       None \<Rightarrow> (NIXL_ERR_UNKNOWN, resp\<lparr>descs := []\<rparr>) | Some ms \<Rightarrow> (NIXL_SUCCESS, resp\<lparr>descs := ms\<rparr>))"
proof -
  obtain q qs where q: "descs query = q # qs" using assms(5) by (cases "descs query") simp_all
  have nz: "len q \<noteq> 0" "\<forall>q \<in> set qs. len q \<noteq> 0" using assms(6) q by simp_all
  show ?thesis
    using getCoveringIndex_section [OF assms(2,3) nz(1)] assms(1,4) q
      populate_loop_resolve [OF assms(2,3) _ _ nz(2), of "nat (getCoveringIndex base q)" q]
    by (auto simp: populate_def isEmpty_def Let_def split: if_splits option.splits)
qed

lemma populate_compress_resolve:
  assumes "section_at sec (getType query) backend = Some base" and "sec_sorted base" and "sec_disjoint base"
    and "getType query = getType resp" and "descs query \<noteq> []" and "\<forall>q \<in> set (descs query). len q \<noteq> 0"
    and "fits (descs query)"
  shows "case resolve base (descs query) of
      None \<Rightarrow> populate_compress sec query backend resp = (NIXL_ERR_UNKNOWN, resp\<lparr>descs := []\<rparr>)
    | Some ms \<Rightarrow> \<exists>runs. populate_compress sec query backend resp = (NIXL_SUCCESS, resp\<lparr>descs := runs\<rparr>) \<and>
        runs_from 0 runs \<and> flat runs = ms"
proof -
  obtain q qs where q: "descs query = q # qs" using assms(5) by (cases "descs query") simp_all
  have nz: "len q \<noteq> 0" "\<forall>q \<in> set qs. len q \<noteq> 0" using assms(6) q by simp_all
  let ?s = "nat (getCoveringIndex base q)"
  let ?r = "single_run q (metadataP (descs base ! ?s))"
  have r: "runs_from 0 ([] @ [?r])" "length (flat ([] @ [?r])) = 1" "run_ends ?r (addr q)"
    by (simp_all add: single_run_def run_blocks_def run_ends_def)
  have n: "1 + length qs < 2 ^ 64" using assms(7) q by (simp add: fits_def)
  have flat1: "flat [?r] = [meta_of q (descs base ! ?s)]" by (simp add: meta_of_def)
  show ?thesis
    using getCoveringIndex_section [OF assms(2,3) nz(1)] assms(1,4) q flat1
      compress_loop_resolve [OF assms(2,3) _ _ nz(2) r n, of ?s]
    by (auto simp: populate_compress_def isEmpty_def Let_def split: if_splits option.splits)
qed

subsection \<open>Strided queries\<close>

lemma run_accepted:
  assumes "\<not> run_rejected run start"
  shows "count run \<noteq> 0" and "len run \<noteq> 0" and "unat start + unat (count run) < 2 ^ 64"
    and "unat (addr run) + (unat (count run) - 1) * unat (stride run) + unat (len run) < 2 ^ 64"
proof -
  have acc: "count run \<noteq> 0" "len run \<noteq> 0" "len run \<le> SIZE_MAX - addr run"
      "count run - 1 \<le> (SIZE_MAX - addr run - len run) div stride run" "count run \<le> SIZE_MAX - start"
    using assms by (auto simp: run_rejected_def not_less)
  show "count run \<noteq> 0" "len run \<noteq> 0" using acc by simp_all
  have sub: "unat (SIZE_MAX - a) = 2 ^ 64 - 1 - unat a" for a :: u64
    using unat_sub_u64 [of a SIZE_MAX] by (simp add: unat_SIZE_MAX)
  have "unat (count run) \<le> 2 ^ 64 - 1 - unat start"
    using acc(5) by (simp only: word_le_nat_alt sub)
  then show "unat start + unat (count run) < 2 ^ 64"
    using unat_lt_u64 [of start] by simp
  have len: "unat (len run) \<le> 2 ^ 64 - 1 - unat (addr run)"
    using acc(3) by (simp only: word_le_nat_alt sub)
  have "unat (count run - 1) = unat (count run) - 1"
    using acc(1) by (simp add: unat_minus_one)
  moreover have "unat (SIZE_MAX - addr run - len run) = 2 ^ 64 - 1 - unat (addr run) - unat (len run)"
    using unat_sub_u64 [OF acc(3)] sub [of "addr run"] by simp
  ultimately have "unat (count run) - 1 \<le> (2 ^ 64 - 1 - unat (addr run) - unat (len run)) div unat (stride run)"
    using acc(4) by (simp only: word_le_nat_alt unat_div)
  then have "(unat (count run) - 1) * unat (stride run) \<le> 2 ^ 64 - 1 - unat (addr run) - unat (len run)"
    by (meson div_times_less_eq_dividend mult_le_mono1 order.trans)
  with len unat_lt_u64 [of "addr run"]
  show "unat (addr run) + (unat (count run) - 1) * unat (stride run) + unat (len run) < 2 ^ 64"
    by linarith
qed

lemma unat_mult_u64: "unat a * unat b < 2 ^ 64 \<Longrightarrow> unat (a * b :: u64) = unat a * unat b"
  by (simp add: unat_word_ariths)

lemma run_span_end:
  assumes "\<not> run_rejected run start"
  shows "range_end (run_span run) = unat (addr run) + (unat (count run) - 1) * unat (stride run) + unat (len run)"
proof -
  note acc = run_accepted [OF assms]
  have c: "unat (count run - 1) = unat (count run) - 1" using acc(1) by (simp add: unat_minus_one)
  have "unat ((count run - 1) * stride run) = (unat (count run) - 1) * unat (stride run)"
    using unat_mult_u64 [of "count run - 1" "stride run"] acc(4) unfolding c by linarith
  then show ?thesis
    using unat_add_u64 [of "(count run - 1) * stride run" "len run"] acc(4)
    by (simp add: run_span_def range_end_def)
qed

lemma run_block_end:
  assumes "\<not> run_rejected run start" and "k < unat (count run)"
  shows "unat (addr (block (meta_run run md n) k)) = unat (addr run) + k * unat (stride run)"
    and "range_end (block (meta_run run md n) k) \<le> range_end (run_span run)"
proof -
  note acc = run_accepted [OF assms(1)]
  have le: "k * unat (stride run) \<le> (unat (count run) - 1) * unat (stride run)"
    using assms(2) by (intro mult_le_mono1) simp
  have k: "unat (of_nat k :: u64) = k"
    using assms(2) unat_lt_u64 [of "count run"] by (simp add: unat_word_of_nat_64)
  have "unat (of_nat k * stride run :: u64) = k * unat (stride run)"
    using unat_mult_u64 [of "of_nat k" "stride run"] le acc(4) unfolding k by linarith
  moreover have "unat (addr run) + k * unat (stride run) < 2 ^ 64"
    using le acc(4) by linarith
  ultimately show a: "unat (addr (block (meta_run run md n) k)) = unat (addr run) + k * unat (stride run)"
    using unat_add_u64 [of "addr run" "of_nat k * stride run"] by (simp add: block_def meta_run_def)
  have "unat (len (block (meta_run run md n) k)) = unat (len run)" by (simp add: block_def meta_run_def)
  with a have "range_end (block (meta_run run md n) k) = unat (addr run) + k * unat (stride run) + unat (len run)"
    by (simp add: range_end_def)
  with le run_span_end [OF assms(1)]
  show "range_end (block (meta_run run md n) k) \<le> range_end (run_span run)" by linarith
qed

lemma span_covers_block:
  assumes "\<not> run_rejected run start" and "k < unat (count run)" and "covers d (run_span run)"
  shows "covers d (block (meta_run run md n) k)"
proof -
  let ?b = "block (meta_run run md n) k"
  have "addr (run_span run) \<le> addr ?b"
    using run_block_end(1) [OF assms(1,2)] by (simp add: word_le_nat_alt run_span_def)
  moreover have "no_wrap ?b" if "no_wrap (run_span run)"
    using run_block_end(2) [OF assms(1,2), of md n] that by (simp add: no_wrap_def)
  moreover have "devId ?b = devId (run_span run)" by (simp add: block_def meta_run_def run_span_def)
  ultimately show ?thesis
    using assms(3) run_block_end(2) [OF assms(1,2), of md n] by (auto simp: covers_iff split: if_splits)
qed

text \<open>A resolved run: its geometry is the query's, no block wraps, and every block lies in one
  region, whose metadata the run carries.\<close>

definition run_resolved :: "nixlSecDescList \<Rightarrow> nixlStrideDesc \<Rightarrow> nixlMetaStrideDesc \<Rightarrow> bool" where
  "run_resolved base run r \<longleftrightarrow>
     r = meta_run run (strideMetadataP r) (start_idx r) \<and>
     (\<exists>d \<in> set (descs base). metadataP d = strideMetadataP r \<and>
        (\<forall>b \<in> set (run_blocks r). covers d b \<and> no_wrap b))"

lemma stride_loop_resolved:
  assumes "sec_sorted base" and "stride_loop base start runs resp = (NIXL_SUCCESS, out)"
    and "runs_from 0 resp" and "length (flat resp) = unat start"
  shows "\<exists>rs. out = resp @ rs \<and> list_all2 (run_resolved base) runs rs \<and> runs_from 0 out"
  using assms(2-4)
proof (induction runs arbitrary: start resp)
  case (Cons run runs)
  let ?s = "getCoveringIndex base (run_span run)"
  have ok: "\<not> run_rejected run start" "\<not> ?s < 0"
    using Cons.prems(1) by (auto simp: Let_def split: if_splits)
  define r where "r = meta_run run (metadataP (descs base ! nat ?s)) start"
  have step: "stride_loop base (start + count run) runs (resp @ [r]) = (NIXL_SUCCESS, out)"
    using Cons.prems(1) ok by (simp add: Let_def r_def)
  have s: "nat ?s < length (descs base)" "covers (descs base ! nat ?s) (run_span run)"
    using getCoveringIndex_sound [OF assms(1), of "run_span run"] ok(2) by auto
  have "covers (descs base ! nat ?s) b \<and> no_wrap b" if b: "b \<in> set (run_blocks r)" for b
  proof -
    have "count r = count run" by (simp add: r_def meta_run_def)
    with b have "covers (descs base ! nat ?s) b"
      using span_covers_block [OF ok(1) _ s(2)] by (auto simp: run_blocks_def r_def)
    with covers_no_wrap show ?thesis by blast
  qed
  with s(1) have res: "run_resolved base run r"
    unfolding run_resolved_def by (auto simp: r_def meta_run_def intro!: bexI [of _ "descs base ! nat ?s"])
  note acc = run_accepted [OF ok(1)]
  have "runs_from 0 (resp @ [r])" "length (flat (resp @ [r])) = unat (start + count run)"
    using Cons.prems(2,3) acc unat_add_u64 [OF acc(3)] by (simp_all add: runs_from_append r_def meta_run_def)
  from Cons.IH [OF step this] res show ?case by (metis append_Cons append_Nil append_assoc list_all2_Cons)
qed simp

subsection \<open>Properties\<close>

lemma resolve_Some_iff:
  "resolve base qs = Some ms \<longleftrightarrow>
     list_all2 (\<lambda>q m. \<exists>d. covering_section base q = Some d \<and> m = meta_of q d) qs ms"
proof (induction qs arbitrary: ms)
  case Nil
  then show ?case by auto
next
  case (Cons q qs)
  then show ?case by (cases ms) (auto split: option.splits)
qed

text \<open>C7: On a sorted list of regions that do not overlap, \<open>populate\<close> answers a non-empty query of
  non-empty ranges exactly: it succeeds when every range lies inside a registered region, and then
  returns the ranges in order, each with the metadata of the region that covers it; when one range
  is not covered it returns \<open>NIXL_ERR_UNKNOWN\<close> and an empty list. The forward walk from the last
  region and the binary search on disorder agree with this for every order of the query.\<close>

theorem populate_correct:
  assumes "section_at sec (getType query) backend = Some base" and "sec_sorted base" and "sec_disjoint base"
    and "getType query = getType resp" and "descs query \<noteq> []" and "\<forall>q \<in> set (descs query). len q \<noteq> 0"
  shows "if \<forall>q \<in> set (descs query). \<exists>d \<in> set (descs base). covers d q
    then \<exists>ms. populate sec query backend resp = (NIXL_SUCCESS, resp\<lparr>descs := ms\<rparr>) \<and>
      list_all2 (\<lambda>q m. \<exists>d \<in> set (descs base). covers d q \<and> m = meta_of q d) (descs query) ms
    else populate sec query backend resp = (NIXL_ERR_UNKNOWN, resp\<lparr>descs := []\<rparr>)"
proof -
  have some: "covering_section base q = Some d \<Longrightarrow> d \<in> set (descs base) \<and> covers d q" for q d
    by (auto simp: covering_section_def find_Some_iff)
  have none: "resolve base qs = None \<longleftrightarrow> (\<exists>q \<in> set qs. \<forall>d \<in> set (descs base). \<not> covers d q)" for qs
    by (induction qs) (auto simp: covering_section_None [symmetric] split: option.splits)
  show ?thesis
  proof (cases "resolve base (descs query)")
    case None
    with none [of "descs query"] show ?thesis by (auto simp: populate_resolve [OF assms])
  next
    case (Some ms)
    then have "list_all2 (\<lambda>q m. \<exists>d \<in> set (descs base). covers d q \<and> m = meta_of q d) (descs query) ms"
      unfolding resolve_Some_iff by (rule list_all2_mono) (use some in blast)
    with Some none [of "descs query"] show ?thesis by (auto simp: populate_resolve [OF assms])
  qed
qed

text \<open>C6: The compressing \<open>populate\<close> refines the plain one: on disjoint regions both return the same
  status, and the runs it builds follow each other without a gap and expand to exactly the list
  the plain routine returns.\<close>

theorem populate_compress_refines:
  assumes "section_at sec (getType query) backend = Some base" and "sec_sorted base" and "sec_disjoint base"
    and "getType query = getType resp" "getType query = getType resp'"
    and "descs query \<noteq> []" and "\<forall>q \<in> set (descs query). len q \<noteq> 0" and "fits (descs query)"
    and "populate_compress sec query backend resp = (st, out)"
  shows "populate sec query backend resp' = (st, resp'\<lparr>descs := flat (descs out)\<rparr>) \<and> runs_from 0 (descs out)"
  using populate_compress_resolve [OF assms(1-4,6-8)] populate_resolve [OF assms(1-3,5-7)] assms(9)
  by (auto split: option.splits)

text \<open>C31: The strided \<open>populate\<close> is safe for any run a caller hands in: when it succeeds, every
  answer has the geometry of its query, no block of it wraps around the address space, and all
  its blocks lie inside one registered region, the one whose metadata it carries; the runs are
  numbered without gaps from flat index 0.\<close>

theorem populate_stride_safe:
  assumes "section_at sec (getType query) backend = Some base" and "sec_sorted base"
    and "populate_stride sec query backend resp = (NIXL_SUCCESS, out)"
  shows "list_all2 (run_resolved base) (descs query) (descs out) \<and> runs_from 0 (descs out)"
  using assms stride_loop_resolved [OF assms(2), of 0 "descs query" "[]"]
  by (auto simp: populate_stride_def split: if_splits prod.splits)

subsection \<open>An example\<close>

text \<open>Two regions of 64 bytes on one device, and queries of 16-byte blocks.\<close>

definition ex_region :: "u64 \<Rightarrow> md_ptr \<Rightarrow> nixlSectionDesc" where
  "ex_region a md = \<lparr>addr = a, len = 64, devId = 0, metadataP = md, metaBlob = ''k''\<rparr>"

definition ex_base :: nixlSecDescList where
  "ex_base = \<lparr>getType = DRAM_SEG, descs = [ex_region 0 7, ex_region 128 9]\<rparr>"

definition ex_section :: nixlMemSection where
  "ex_section = \<lparr>memToBackend = (\<lambda>m. if m = DRAM_SEG then [1] else []), sectionMap = [((DRAM_SEG, 1), ex_base)]\<rparr>"

definition ex_query :: "u64 list \<Rightarrow> nixl_xfer_dlist_t" where
  "ex_query as = \<lparr>getType = DRAM_SEG, descs = map (\<lambda>a. \<lparr>addr = a, len = 16, devId = 0\<rparr>) as\<rparr>"

lemmas ex_defs = ex_region_def ex_base_def ex_section_def ex_query_def

lemma ex_base_ok:
  "section_at ex_section DRAM_SEG 1 = Some ex_base" "sec_sorted ex_base" "sec_disjoint ex_base"
  by (simp_all add: ex_defs sec_sorted_def sec_disjoint_def upper_end_def range_end_def basic_le_iff)

lemma ex_covers: "covers (ex_region a md) \<lparr>addr = b, len = n, devId = 0\<rparr> \<longleftrightarrow> a \<le> b \<and> b \<le> a + 64 \<and> n \<le> a + 64 - b"
  by (auto simp: covers_def ex_region_def Let_def)

theorem populate_correct_witness:
  "\<exists>ms. populate ex_section (ex_query [0, 16, 128, 48]) 1 \<lparr>getType = DRAM_SEG, descs = []\<rparr> =
      (NIXL_SUCCESS, \<lparr>getType = DRAM_SEG, descs = ms\<rparr>) \<and>
    list_all2 (\<lambda>q m. \<exists>d \<in> set (descs ex_base). covers d q \<and> m = meta_of q d) (descs (ex_query [0, 16, 128, 48])) ms"
proof -
  have "section_at ex_section (getType (ex_query [0, 16, 128, 48])) 1 = Some ex_base"
    using ex_base_ok(1) by (simp add: ex_query_def)
  moreover have "\<forall>q \<in> set (descs (ex_query [0, 16, 128, 48])). len q \<noteq> 0"
    by (simp add: ex_query_def)
  moreover have "\<forall>q \<in> set (descs (ex_query [0, 16, 128, 48])). \<exists>d \<in> set (descs ex_base). covers d q"
    by (simp add: ex_query_def ex_base_def ex_covers)
  ultimately show ?thesis
    using populate_correct [of ex_section "ex_query [0, 16, 128, 48]" 1 ex_base "\<lparr>getType = DRAM_SEG, descs = []\<rparr>"]
      ex_base_ok(2,3) by (simp add: ex_query_def)
qed

lemma ex_index:
  assumes "n \<noteq> 0" and "covers (ex_region 0 7) \<lparr>addr = b, len = n, devId = 0\<rparr>"
  shows "getCoveringIndex ex_base \<lparr>addr = b, len = n, devId = 0\<rparr> = 0"
  using getCoveringIndex_complete [OF ex_base_ok(2,3), of "\<lparr>addr = b, len = n, devId = 0\<rparr>" 0] assms
  by (simp add: ex_base_def)

lemma ex_compress:
  "populate_compress ex_section (ex_query [0, 16, 32]) 1 \<lparr>getType = DRAM_SEG, descs = []\<rparr> =
    (NIXL_SUCCESS, \<lparr>getType = DRAM_SEG,
      descs = [\<lparr>addr = 0, len = 16, devId = 0, stride = 16, count = 3, strideMetadataP = 7, start_idx = 0\<rparr>]\<rparr>)"
proof -
  have next0: "next_section ex_base 0 p \<lparr>addr = b, len = 16, devId = 0\<rparr> = Some 0" if "b \<le> 32" for b p
  proof -
    have "16 \<le> 64 - b"
      using that by (simp add: word_le_nat_alt unat_sub)
    moreover have "b \<le> 64" using that by (rule order.trans) simp
    ultimately show ?thesis by (simp add: next_section_def ex_base_def ex_covers)
  qed
  show ?thesis
    using ex_base_ok(1) ex_index [of 16 0]
    by (simp add: populate_compress_def isEmpty_def ex_query_def ex_covers next0 extends_run_def single_run_def)
      (simp add: ex_base_def ex_region_def)
qed

theorem populate_compress_refines_witness:
  "populate ex_section (ex_query [0, 16, 32]) 1 \<lparr>getType = DRAM_SEG, descs = []\<rparr> =
    (NIXL_SUCCESS, \<lparr>getType = DRAM_SEG, descs = flat
      [\<lparr>addr = 0, len = 16, devId = 0, stride = 16, count = 3, strideMetadataP = 7, start_idx = 0\<rparr>]\<rparr>)"
  using populate_compress_refines [OF _ ex_base_ok(2,3) _ _ _ _ _ ex_compress, of "\<lparr>getType = DRAM_SEG, descs = []\<rparr>"]
    ex_base_ok(1) by (simp add: ex_query_def fits_def)

theorem populate_stride_safe_witness:
  "\<exists>out. populate_stride ex_section
      \<lparr>getType = DRAM_SEG, descs = [\<lparr>addr = 0, len = 8, devId = 0, stride = 16, count = 4\<rparr>]\<rparr> 1
      \<lparr>getType = DRAM_SEG, descs = []\<rparr> = (NIXL_SUCCESS, out) \<and>
    list_all2 (run_resolved ex_base) [\<lparr>addr = 0, len = 8, devId = 0, stride = 16, count = 4\<rparr>] (descs out) \<and>
    runs_from 0 (descs out)"
proof -
  let ?q = "\<lparr>getType = DRAM_SEG, descs = [\<lparr>addr = 0, len = 8, devId = 0, stride = 16, count = 4\<rparr> :: nixlStrideDesc]\<rparr>"
  let ?r = "\<lparr>getType = DRAM_SEG, descs = []\<rparr> :: nixlMetaStrideDescList"
  have "\<not> run_rejected \<lparr>addr = 0, len = 8, devId = 0, stride = 16, count = 4\<rparr> 0"
    by (simp add: run_rejected_def)
  then obtain out where out: "populate_stride ex_section ?q 1 ?r = (NIXL_SUCCESS, out)"
    using ex_base_ok(1) ex_index [of 56 0]
    by (simp add: populate_stride_def isEmpty_def run_span_def ex_covers)
  from populate_stride_safe [OF _ ex_base_ok(2) this] ex_base_ok(1) out show ?thesis by simp
qed

end
