(* ===== verification/Nixl_Sections.thy ===== *)
theory Nixl_Sections
  imports Nixl_MemSection Nixl_DescSerial
begin

text \<open>
  The owning half of the memory sections (\<open>nixlLocalSection\<close> and \<open>nixlRemoteSection\<close> in
  \<open>src/infra/nixl_memory_section.cpp\<close>): registration and deregistration with rollback, loading
  and unloading of remote metadata, and the wire format in which an agent publishes its regions.
  The results are a structural invariant of both classes, a resource account between the engine
  calls and the regions a section holds, and the round trip of published sections.
\<close>

type_synonym nixlLocalSection = nixlMemSection

record nixlRemoteSection = nixlMemSection +
  agentName :: string

definition remote_section_new :: "string \<Rightarrow> nixlRemoteSection" where
  "remote_section_new agent_name = \<lparr>memToBackend = (\<lambda>_. []), sectionMap = [], agentName = agent_name\<rparr>"

definition put_section :: "nixl_mem_t \<Rightarrow> engine \<Rightarrow> nixlSecDescList \<Rightarrow> 'a nixlMemSection_scheme \<Rightarrow> 'a nixlMemSection_scheme" where
  "put_section m e l s = s\<lparr>sectionMap := om_update (m, e) l (sectionMap s)\<rparr>"

definition erase_section :: "nixl_mem_t \<Rightarrow> engine \<Rightarrow> 'a nixlMemSection_scheme \<Rightarrow> 'a nixlMemSection_scheme" where
  "erase_section m e s =
     s\<lparr>sectionMap := al_delete (m, e) (sectionMap s),
       memToBackend := (memToBackend s)(m := set_erase e (memToBackend s m))\<rparr>"

definition section_of :: "'d::type nixlBasicDesc_scheme \<Rightarrow> md_ptr \<Rightarrow> blob \<Rightarrow> nixlSectionDesc" where
  "section_of d md b = \<lparr>addr = addr d, len = len d, devId = devId d, metadataP = md, metaBlob = b\<rparr>"

subsection \<open>Registration\<close>

text \<open>The registration loop: the two batches and the engine history; on an error the element that
  failed has been undone, the earlier ones are still in the batches.\<close>

fun reg_loop :: "benv \<Rightarrow> engine \<Rightarrow> nixl_mem_t \<Rightarrow> nixlBlobDesc list \<Rightarrow> nixlSectionDesc list \<Rightarrow> nixlSectionDesc list \<Rightarrow> bhist \<Rightarrow>
    nixl_status_t \<times> nixlSectionDesc list \<times> nixlSectionDesc list \<times> bhist" where
  "reg_loop env e m [] lb sb h = (NIXL_SUCCESS, lb, sb, h)"
| "reg_loop env e m (d # ds) lb sb h =
     (let (st, md, h) = bk_registerMem env e d m h
      in if st \<noteq> NIXL_SUCCESS then (st, lb, sb, h)
         else let (st, self, h) = (if supportsLocal env e then bk_loadLocalMD env e md h else (NIXL_SUCCESS, 0, h))
              in if st \<noteq> NIXL_SUCCESS then (st, lb, sb, bk_deregisterMem e md h)
                 else let (st, pub, h) = (if supportsRemote env e then bk_getPublicData env e md h else (NIXL_SUCCESS, [], h))
                      in if st \<noteq> NIXL_SUCCESS
                         then (st, lb, sb, bk_deregisterMem e md
                                 (if supportsLocal env e \<and> self \<noteq> md then bk_unloadMD e self h else h))
                         else reg_loop env e m ds (lb @ [section_of d md pub])
                                (if supportsLocal env e then sb @ [section_of d self []] else sb) h)"

fun rollback :: "benv \<Rightarrow> engine \<Rightarrow> nixlSectionDesc list \<Rightarrow> nixlSectionDesc list \<Rightarrow> bhist \<Rightarrow> bhist" where
  "rollback env e [] sb h = h"
| "rollback env e (l # lb) sb h =
     rollback env e lb (tl sb)
       (bk_deregisterMem e (metadataP l)
         (if supportsLocal env e \<and> metadataP (hd sb) \<noteq> metadataP l then bk_unloadMD e (metadataP (hd sb)) h else h))"

definition local_addDescList :: "benv \<Rightarrow> nixl_reg_dlist_t \<Rightarrow> engine \<Rightarrow> nixlSecDescList \<Rightarrow> nixlLocalSection \<Rightarrow> bhist \<Rightarrow>
    nixl_status_t \<times> nixlSecDescList \<times> nixlLocalSection \<times> bhist" where
  "local_addDescList env mem_elms e remote_self s h =
     (if e = 0 then (NIXL_ERR_INVALID_PARAM, remote_self, s, h)
      else let m = getType mem_elms; s = emplace m e s; target = the (section_at s m e);
               (ret, lb, sb, h) = reg_loop env e m (descs mem_elms) [] [] h
           in if ret = NIXL_SUCCESS
              then (ret, if supportsLocal env e then addDescs sb UNSORTED remote_self else remote_self,
                    put_section m e (addDescs lb UNSORTED target) s, h)
              else (ret, remote_self, s, rollback env e lb sb h))"

fun find_indices :: "nixlSecDescList \<Rightarrow> nixlBlobDesc list \<Rightarrow> nat list option" where
  "find_indices target [] = Some []"
| "find_indices target (elm # elms) =
     (let index = sec_getIndex target (basic elm)
      in if index < 0 then None else map_option ((#) (nat index)) (find_indices target elms))"

fun deregister_all :: "engine \<Rightarrow> md_ptr list \<Rightarrow> bhist \<Rightarrow> bhist" where
  "deregister_all e [] h = h"
| "deregister_all e (md # mds) h = deregister_all e mds (bk_deregisterMem e md h)"

definition local_remDescList :: "nixl_reg_dlist_t \<Rightarrow> engine \<Rightarrow> nixlLocalSection \<Rightarrow> bhist \<Rightarrow>
    nixl_status_t \<times> nixlLocalSection \<times> bhist" where
  "local_remDescList mem_elms e s h =
     (if e = 0 then (NIXL_ERR_INVALID_PARAM, s, h)
      else let m = getType mem_elms
           in case section_at s m e of
                None \<Rightarrow> (NIXL_ERR_NOT_FOUND, s, h)
              | Some target \<Rightarrow>
                  (case find_indices target (descs mem_elms) of
                     None \<Rightarrow> (NIXL_ERR_NOT_FOUND, s, h)
                   | Some indices \<Rightarrow>
                       let h = deregister_all e (map (\<lambda>i. metadataP (descs target ! i)) indices) h;
                           target = remDescs indices UNSORTED target
                       in (NIXL_SUCCESS, if isEmpty target then erase_section m e s else put_section m e target s, h)))"

fun deregister_sections :: "section_map_t \<Rightarrow> bhist \<Rightarrow> bhist" where
  "deregister_sections [] h = h"
| "deregister_sections (((m, e), l) # secs) h =
     deregister_sections secs (deregister_all e (map metadataP (descs l)) h)"

definition local_destroy :: "nixlLocalSection \<Rightarrow> bhist \<Rightarrow> bhist" where
  "local_destroy s h = deregister_sections (sectionMap s) h"

subsection \<open>Publication\<close>

definition published :: "benv \<Rightarrow> section_map_t \<Rightarrow> section_map_t" where
  "published env secs = filter (\<lambda>((m, e), l). supportsRemote env e) secs"

fun serialize_each :: "benv \<Rightarrow> section_map_t \<Rightarrow> nixlSerDes \<Rightarrow> nixl_status_t \<times> nixlSerDes" where
  "serialize_each env [] sd = (NIXL_SUCCESS, sd)"
| "serialize_each env (((m, e), dlist) # secs) sd =
     (if \<not> supportsRemote env e then serialize_each env secs sd
      else st_then (addStr ''bknd'' (engineType env e) sd) (\<lambda>sd.
           st_then (desclist_serialize KSection section_desc_serialize dlist sd) (serialize_each env secs)))"

definition serializeSections :: "benv \<Rightarrow> section_map_t \<Rightarrow> nixlSerDes \<Rightarrow> nixl_status_t \<times> nixlSerDes" where
  "serializeSections env secs sd =
     (let seg_count = size_of (published env secs)
      in st_then (addBuf ''nixlSecElms'' (u64_bytes seg_count) sd) (serialize_each env secs))"

definition local_serialize :: "benv \<Rightarrow> nixlLocalSection \<Rightarrow> nixlSerDes \<Rightarrow> nixl_status_t \<times> nixlSerDes" where
  "local_serialize env s sd = serializeSections env (sectionMap s) sd"

fun pick_sections :: "nixlLocalSection \<Rightarrow> nixl_reg_dlist_t \<Rightarrow> engine list \<Rightarrow> section_map_t \<Rightarrow> section_map_t option" where
  "pick_sections s mem_elms [] acc = Some acc"
| "pick_sections s mem_elms (backend # backends) acc =
     (case section_at s (getType mem_elms) backend of
        None \<Rightarrow> pick_sections s mem_elms backends acc
      | Some base \<Rightarrow>
          (case find_indices base (descs mem_elms) of
             None \<Rightarrow> None
           | Some indices \<Rightarrow>
               let resp = addDescs (map ((!) (descs base)) indices) UNSORTED \<lparr>getType = getType mem_elms, descs = []\<rparr>;
                   key = (getType mem_elms, backend)
               in pick_sections s mem_elms backends
                    (if map_of acc key = None then om_update key resp acc else acc)))"

definition serializePartial :: "benv \<Rightarrow> engine list \<Rightarrow> nixl_reg_dlist_t \<Rightarrow> nixlLocalSection \<Rightarrow> nixlSerDes \<Rightarrow>
    nixl_status_t \<times> nixlSerDes" where
  "serializePartial env backends mem_elms s sd =
     (if isEmpty mem_elms then serializeSections env [] sd
      else case pick_sections s mem_elms backends [] of
        None \<Rightarrow> (NIXL_ERR_NOT_FOUND, sd)
      | Some secs \<Rightarrow> serializeSections env secs sd)"

subsection \<open>Remote metadata\<close>

fun load_loop :: "benv \<Rightarrow> engine \<Rightarrow> nixl_mem_t \<Rightarrow> string \<Rightarrow> nixlBlobDesc list \<Rightarrow> nixlSecDescList \<Rightarrow> bhist \<Rightarrow>
    nixl_status_t \<times> nixlSecDescList \<times> bhist" where
  "load_loop env e m ag [] target h = (NIXL_SUCCESS, target, h)"
| "load_loop env e m ag (d # ds) target h =
     (let idx = sec_getIndex target (basic d)
      in if idx < 0
         then let (ret, md, h) = bk_loadRemoteMD env e d m ag h
              in if is_err ret then (ret, target, h)
                 else load_loop env e m ag ds (sec_addDesc (section_of d md (metaInfo d)) target) h
         else if metaBlob (descs target ! nat idx) \<noteq> metaInfo d then (NIXL_ERR_NOT_ALLOWED, target, h)
         else load_loop env e m ag ds target h)"

definition remote_addDescList :: "benv \<Rightarrow> nixl_reg_dlist_t \<Rightarrow> engine \<Rightarrow> nixlRemoteSection \<Rightarrow> bhist \<Rightarrow>
    nixl_status_t \<times> nixlRemoteSection \<times> bhist" where
  "remote_addDescList env mem_elms e s h =
     (if \<not> supportsRemote env e then (NIXL_ERR_UNKNOWN, s, h)
      else let m = getType mem_elms; s = emplace m e s;
               (ret, target, h) = load_loop env e m (agentName s) (descs mem_elms) (the (section_at s m e)) h
           in (ret, put_section m e target s, h))"

text \<open>The list constructor of blob descriptors does not throw.\<close>

definition blob_list_of :: "nixlBlobDesc dlist_load \<Rightarrow> nixl_reg_dlist_t" where
  "blob_list_of r = (case r of Loaded l \<Rightarrow> l | LengthError \<Rightarrow> \<lparr>getType = 0, descs = []\<rparr>)"

type_synonym backend_map_t = "(nixl_backend_t \<times> engine) list"

fun load_segments :: "benv \<Rightarrow> nixl_mem_t \<Rightarrow> backend_map_t \<Rightarrow> nat \<Rightarrow> nixlSerDes \<Rightarrow> nixlRemoteSection \<Rightarrow> bhist \<Rightarrow>
    nixl_status_t \<times> nixlSerDes \<times> nixlRemoteSection \<times> bhist" where
  "load_segments env g engines 0 sd s h = (NIXL_SUCCESS, sd, s, h)"
| "load_segments env g engines (Suc n) sd s h =
     (let (bknd, sd) = getStr ''bknd'' sd
      in if bknd = [] then (NIXL_ERR_INVALID_PARAM, sd, s, h)
         else let (r, sd) = desclist_load KBlob blob_desc_of_blob g sd; s_desc = blob_list_of r
              in if isEmpty s_desc then (NIXL_ERR_NOT_FOUND, sd, s, h)
                 else case map_of engines bknd of
                   None \<Rightarrow> load_segments env g engines n sd s h
                 | Some e \<Rightarrow>
                     let (ret, s, h) = remote_addDescList env s_desc e s h
                     in if ret \<noteq> NIXL_SUCCESS then (ret, sd, s, h) else load_segments env g engines n sd s h)"

definition loadRemoteData :: "benv \<Rightarrow> nixl_mem_t \<Rightarrow> backend_map_t \<Rightarrow> nixlSerDes \<Rightarrow> nixlRemoteSection \<Rightarrow> bhist \<Rightarrow>
    nixl_status_t \<times> nixlSerDes \<times> nixlRemoteSection \<times> bhist" where
  "loadRemoteData env g engines sd s h =
     (let (ret, buf, sd) = getBuf ''nixlSecElms'' 8 sd
      in if ret \<noteq> NIXL_SUCCESS then (ret, sd, s, h)
         else load_segments env g engines (unat (bytes_u64 buf)) sd s h)"

definition loadLocalData :: "nixlSecDescList \<Rightarrow> engine \<Rightarrow> 'a nixlMemSection_scheme \<Rightarrow> nixl_status_t \<times> 'a nixlMemSection_scheme" where
  "loadLocalData mem_elms e s =
     (if isEmpty mem_elms then (NIXL_ERR_UNKNOWN, s)
      else let m = getType mem_elms; s = emplace m e s
           in (NIXL_SUCCESS, put_section m e (addDescs_list mem_elms (the (section_at s m e))) s))"

fun unload_all :: "engine \<Rightarrow> md_ptr list \<Rightarrow> bhist \<Rightarrow> bhist" where
  "unload_all e [] h = h"
| "unload_all e (md # mds) h = unload_all e mds (bk_unloadMD e md h)"

fun find_present :: "nixlSecDescList \<Rightarrow> nixlBlobDesc list \<Rightarrow> nat list" where
  "find_present target [] = []"
| "find_present target (elm # elms) =
     (let index = sec_getIndex target (basic elm)
      in if index \<ge> 0 then nat index # find_present target elms else find_present target elms)"

definition removeLocalData :: "nixl_reg_dlist_t \<Rightarrow> engine \<Rightarrow> 'a nixlMemSection_scheme \<Rightarrow> bhist \<Rightarrow> 'a nixlMemSection_scheme \<times> bhist" where
  "removeLocalData mem_elms e s h =
     (let m = getType mem_elms
      in case section_at s m e of
           None \<Rightarrow> (s, h)
         | Some target \<Rightarrow>
             let indices = find_present target (descs mem_elms);
                 h = unload_all e (map (\<lambda>i. metadataP (descs target ! i)) indices) h;
                 target = remDescs indices UNSORTED target
             in (if isEmpty target then erase_section m e s else put_section m e target s, h))"

fun unload_sections :: "section_map_t \<Rightarrow> bhist \<Rightarrow> bhist" where
  "unload_sections [] h = h"
| "unload_sections (((m, e), l) # secs) h = unload_sections secs (unload_all e (map metadataP (descs l)) h)"

definition remote_destroy :: "nixlRemoteSection \<Rightarrow> bhist \<Rightarrow> bhist" where
  "remote_destroy s h = unload_sections (sectionMap s) h"

subsection \<open>The invariant of a section object\<close>

text \<open>Every list is sorted, normalised and filed under its memory type, and the per-type backend
  sets name exactly the keys of the map.\<close>

definition sections_wf :: "'a nixlMemSection_scheme \<Rightarrow> bool" where
  "sections_wf s \<longleftrightarrow> om_ordered (sectionMap s) \<and>
     (\<forall>m e l. section_at s m e = Some l \<longrightarrow> getType l = m \<and> sec_wf l) \<and>
     (\<forall>m. sorted (memToBackend s m) \<and> distinct (memToBackend s m)) \<and>
     (\<forall>m e. e \<in> set (memToBackend s m) \<longleftrightarrow> section_at s m e \<noteq> None)"

lemma sections_wfD:
  assumes "sections_wf s"
  shows "om_ordered (sectionMap s)" and "section_at s m e = Some l \<Longrightarrow> getType l = m"
    and "section_at s m e = Some l \<Longrightarrow> sec_wf l"
  using assms by (auto simp: sections_wf_def)

lemma sections_wf_new: "sections_wf mem_section_new" "sections_wf (remote_section_new ag)"
  by (simp_all add: sections_wf_def mem_section_new_def remote_section_new_def om_ordered_def)

lemma sec_wf_empty [simp]: "sec_wf \<lparr>getType = m, descs = []\<rparr>"
  by (simp add: sec_wf_def sec_sorted_def)

lemma section_emplace [simp]:
  "section_at (emplace m e s) m' e' =
     (if (m', e') = (m, e) \<and> section_at s m e = None then Some \<lparr>getType = m, descs = []\<rparr> else section_at s m' e')"
  by (auto simp: emplace_def split: option.splits)

lemma section_put [simp]: "section_at (put_section m e l s) m' e' = (if (m', e') = (m, e) then Some l else section_at s m' e')"
  by (auto simp: put_section_def)

lemma section_erase [simp]: "section_at (erase_section m e s) m' e' = (if (m', e') = (m, e) then None else section_at s m' e')"
  by (auto simp: erase_section_def)

lemma set_emplace_ops:
  "set (set_emplace x xs) = insert x (set xs)"
  "sorted xs \<Longrightarrow> sorted (set_emplace x xs)" "distinct xs \<Longrightarrow> distinct (set_emplace x xs)"
  by (simp_all add: set_emplace_def set_insort_insert sorted_insort_insert)
    (simp add: insort_insert_key_def distinct_insort)

lemma set_erase_ops:
  "set (set_erase x xs) = set xs - {x}"
  "sorted xs \<Longrightarrow> sorted (set_erase x xs)" "distinct xs \<Longrightarrow> distinct (set_erase x xs)"
  by (simp_all add: set_erase_def removeAll_filter_not_eq sorted_filter [of "\<lambda>x. x", simplified]) auto

lemma emplace_wf [intro]:
  assumes "sections_wf s"
  shows "sections_wf (emplace m e s)"
proof (cases "section_at s m e")
  case None
  with assms show ?thesis
    by (auto simp: sections_wf_def emplace_def om_ordered_update set_emplace_ops)
qed (use assms in \<open>simp add: emplace_def\<close>)

lemma put_section_wf [intro]:
  assumes "sections_wf s" and "section_at s m e \<noteq> None" and "getType l = m" and "sec_wf l"
  shows "sections_wf (put_section m e l s)"
  using assms by (auto simp: sections_wf_def put_section_def om_ordered_update)

lemma erase_section_wf [intro]:
  assumes "sections_wf s"
  shows "sections_wf (erase_section m e s)"
  using assms by (auto simp: sections_wf_def erase_section_def om_ordered_delete set_erase_ops)

subsection \<open>Sums over the map\<close>

definition al_sum :: "('k \<Rightarrow> 'v \<Rightarrow> int) \<Rightarrow> ('k \<times> 'v) list \<Rightarrow> int" where
  "al_sum f m = (\<Sum>(k, v)\<leftarrow>m. f k v)"

abbreviation old_val :: "('k \<Rightarrow> 'v \<Rightarrow> int) \<Rightarrow> 'k \<Rightarrow> ('k \<times> 'v) list \<Rightarrow> int" where
  "old_val f k m \<equiv> (case map_of m k of None \<Rightarrow> 0 | Some v \<Rightarrow> f k v)"

lemma al_sum_simps [simp]: "al_sum f [] = 0" "al_sum f ((k, v) # m) = f k v + al_sum f m"
  by (simp_all add: al_sum_def)

lemma al_sum_om_update:
  assumes "om_ordered m"
  shows "al_sum f (om_update k v m) = al_sum f m - old_val f k m + f k v"
  using assms
proof (induction k v m rule: om_update.induct)
  case (2 k v k' v' m)
  have "map_of m k = None" if "k < k'"
    using that "2.prems" by (force simp: om_ordered_def map_of_eq_None_iff)
  moreover have "om_ordered m" using "2.prems" by (simp add: om_ordered_def)
  ultimately show ?case using "2.IH" by auto
qed simp

lemma al_sum_delete:
  assumes "distinct (map fst m)"
  shows "al_sum f (al_delete k m) = al_sum f m - old_val f k m"
  using assms
proof (induction m)
  case (Cons kv m)
  obtain k' v where kv: "kv = (k', v)" by fastforce
  have "map_of m k' = None" using Cons.prems kv by (simp add: map_of_eq_None_iff)
  moreover have "al_delete k m = m" if "k' = k"
    using that Cons.prems kv by (auto simp: al_delete_def filter_id_conv image_iff)
  ultimately show ?case
    using Cons kv by (auto simp: al_delete_def)
qed (simp add: al_delete_def)

subsection \<open>Regions held\<close>

text \<open>How many regions of a section carry the backend handle \<open>md\<close> of engine \<open>e\<close>.\<close>

definition md_count :: "md_ptr \<Rightarrow> nixlSecDescList \<Rightarrow> int" where
  "md_count md l = (\<Sum>d\<leftarrow>descs l. of_bool (metadataP d = md))"

definition held :: "'a nixlMemSection_scheme \<Rightarrow> engine \<Rightarrow> md_ptr \<Rightarrow> int" where
  "held s e md = al_sum (\<lambda>(m, e') l. if e' = e then md_count md l else 0) (sectionMap s)"

lemma md_count_mset: "mset (descs l) = M \<Longrightarrow> md_count md l = (\<Sum>d\<in>#M. of_bool (metadataP d = md))"
  by (auto simp: md_count_def sum_mset_sum_list [symmetric])

lemma md_count_empty [simp]: "md_count md \<lparr>getType = m, descs = []\<rparr> = 0"
  by (simp add: md_count_def)

lemma metadataP_normalize [simp]: "metadataP (normalizeSecDesc l d) = metadataP d"
  by (simp add: normalizeSecDesc_def)

lemma md_count_addDescs:
  assumes "sec_sorted l" and "batch_ready b ord l"
  shows "md_count md (addDescs b ord l) = md_count md l + (\<Sum>d\<leftarrow>b. of_bool (metadataP d = md))"
  using addDescs_sorted [OF assms]
  by (simp add: md_count_mset [of _ "mset (descs l) + image_mset (normalizeSecDesc l) (mset b)"]
      md_count_mset [of l "mset (descs l)"] image_mset.compositionality comp_def sum_mset_sum_list [symmetric])

lemma held_emplace [simp]: "sections_wf s \<Longrightarrow> held (emplace m e s) e' md = held s e' md"
  by (auto simp: held_def emplace_def al_sum_om_update dest!: sections_wfD(1) split: option.splits)

lemma held_put:
  assumes "sections_wf s" and "section_at s m e = Some l"
  shows "held (put_section m e l' s) e' md = held s e' md + (if e' = e then md_count md l' - md_count md l else 0)"
  using assms(2) sections_wfD(1) [OF assms(1)]
  by (simp add: held_def put_section_def al_sum_om_update)

lemma held_erase:
  assumes "sections_wf s" and "section_at s m e = Some l"
  shows "held (erase_section m e s) e' md = held s e' md - (if e' = e then md_count md l else 0)"
  using assms(2) om_ordered_distinct [OF sections_wfD(1) [OF assms(1)]]
  by (simp add: held_def erase_section_def al_sum_delete)

subsection \<open>Registration accounts\<close>

definition batch_count :: "md_ptr \<Rightarrow> nixlSectionDesc list \<Rightarrow> int" where
  "batch_count md b = (\<Sum>d\<leftarrow>b. of_bool (metadataP d = md))"

lemma batch_count_simps [simp]:
  "batch_count md [] = 0" "batch_count md (d # b) = of_bool (metadataP d = md) + batch_count md b"
  "batch_count md (b @ b') = batch_count md b + batch_count md b'"
  by (simp_all add: batch_count_def)

lemma section_of_fields [simp]:
  "metadataP (section_of d md b) = md" "metaBlob (section_of d md b) = b" "basic (section_of d md b) = basic d"
  by (simp_all add: section_of_def nixlBasicDesc.truncate_def)

lemma reg_loop_bal:
  "reg_loop env e m ds lb sb h = (st, lb', sb', h') \<Longrightarrow>
     reg_bal h' e' md = reg_bal h e' md + (if e' = e then batch_count md lb' - batch_count md lb else 0)"
proof (induction ds arbitrary: lb sb h)
  case (Cons d ds)
  obtain st1 md1 h1 where 1: "bk_registerMem env e d m h = (st1, md1, h1)" by (metis prod.exhaust)
  obtain st2 md2 h2 where 2: "(if supportsLocal env e then bk_loadLocalMD env e md1 h1 else (NIXL_SUCCESS, 0, h1)) = (st2, md2, h2)"
    by (metis prod.exhaust)
  obtain st3 b3 h3 where 3: "(if supportsRemote env e then bk_getPublicData env e md1 h2 else (NIXL_SUCCESS, [], h2)) = (st3, b3, h3)"
    by (metis prod.exhaust)
  have bal1: "reg_bal h1 e' md = reg_bal h e' md + of_bool (e = e' \<and> md1 = md \<and> st1 = NIXL_SUCCESS)"
    using 1 by (auto simp: bk_registerMem_def split: prod.splits)
  have bal2: "reg_bal h2 e' md = reg_bal h1 e' md"
    using 2 by (auto simp: bk_loadLocalMD_def split: prod.splits if_splits)
  have bal3: "reg_bal h3 e' md = reg_bal h2 e' md"
    using 3 by (auto simp: bk_getPublicData_def split: prod.splits if_splits)
  note step = Cons.prems [unfolded reg_loop.simps Let_def 1 prod.case 2 3]
  show ?case
  proof (cases "st1 = NIXL_SUCCESS \<and> st2 = NIXL_SUCCESS \<and> st3 = NIXL_SUCCESS")
    case True
    then have "reg_loop env e m ds (lb @ [section_of d md1 b3]) (if supportsLocal env e then sb @ [section_of d md2 []] else sb) h3 =
      (st, lb', sb', h')" using step by simp
    from Cons.IH [OF this] True bal1 bal2 bal3 show ?thesis by auto
  next
    case False
    with step bal1 bal2 bal3 show ?thesis
      by (auto simp: bk_deregisterMem_def bk_unloadMD_def split: if_splits)
  qed
qed simp

lemma rollback_bal:
  "reg_bal (rollback env e lb sb h) e' md = reg_bal h e' md - (if e' = e then batch_count md lb else 0)"
  by (induction lb arbitrary: sb h) (auto simp: bk_deregisterMem_def bk_unloadMD_def)

lemma batch_ready_UNSORTED [simp]: "batch_ready b UNSORTED l"
  by (simp add: batch_ready_def)

lemma local_addDescList_account:
  assumes "sections_wf s" and "local_addDescList env elms e rs s h = (st, rs', s', h')"
  shows "sections_wf s'" and "reg_bal h' e' md - held s' e' md = reg_bal h e' md - held s e' md"
    and "sec_wf rs \<Longrightarrow> sec_wf rs'" and "getType rs' = getType rs"
proof -
  have "sections_wf s' \<and> reg_bal h' e' md - held s' e' md = reg_bal h e' md - held s e' md \<and>
    (sec_wf rs \<longrightarrow> sec_wf rs') \<and> getType rs' = getType rs"
  proof (cases "e = 0")
    case False
    define m where "m = getType elms"
    obtain target where t: "section_at (emplace m e s) m e = Some target"
      by (cases "section_at s m e") simp_all
    obtain ret lb sb h1 where r: "reg_loop env e m (descs elms) [] [] h = (ret, lb, sb, h1)"
      by (metis prod.exhaust)
    note wf = emplace_wf [OF assms(1), of m e]
    note tw = sections_wfD(2,3) [OF wf t]
    have bal: "reg_bal h1 e' md = reg_bal h e' md + (if e' = e then batch_count md lb else 0)"
      using reg_loop_bal [OF r, of e' md] by simp
    show ?thesis
    proof (cases "ret = NIXL_SUCCESS")
      case True
      have eqs: "s' = put_section m e (addDescs lb UNSORTED target) (emplace m e s)" "h' = h1"
        "rs' = (if supportsLocal env e then addDescs sb UNSORTED rs else rs)"
        using assms(2) False r t True by (auto simp: local_addDescList_def Let_def m_def)
      have "sections_wf s'" unfolding eqs
        using wf t tw addDescs_wf [OF tw(2) batch_ready_UNSORTED] by (intro put_section_wf) auto
      moreover have "held s' e' md = held s e' md + (if e' = e then batch_count md lb else 0)"
        unfolding eqs held_put [OF wf t] using assms(1) tw(2)
        by (simp add: md_count_addDescs batch_count_def sec_wf_def)
      ultimately show ?thesis using bal addDescs_wf by (auto simp: eqs)
    next
      case False
      have "s' = emplace m e s" "h' = rollback env e lb sb h1" "rs' = rs"
        using assms(2) \<open>e \<noteq> 0\<close> r t False by (auto simp: local_addDescList_def Let_def m_def)
      with wf bal assms(1) show ?thesis by (simp add: rollback_bal)
    qed
  qed (use assms in \<open>auto simp: local_addDescList_def\<close>)
  then show "sections_wf s'" "reg_bal h' e' md - held s' e' md = reg_bal h e' md - held s e' md"
    "sec_wf rs \<Longrightarrow> sec_wf rs'" "getType rs' = getType rs" by auto
qed

text \<open>Deregistration. The regions named by a request are distinct when their ranges are, after the
  unbounded length has replaced zero on storage types.\<close>

definition distinct_elms :: "nixl_reg_dlist_t \<Rightarrow> bool" where
  "distinct_elms elms \<longleftrightarrow>
     distinct (map (\<lambda>d. normalizeQuery \<lparr>getType = getType elms, descs = []\<rparr> (basic d)) (descs elms))"

lemma normalizeQuery_type: "getType l = getType l' \<Longrightarrow> normalizeQuery l q = normalizeQuery l' q"
  by (simp add: normalizeQuery_def usesUnboundedLen_def)

lemma find_indices_spec:
  assumes "sec_sorted t" and "find_indices t elms = Some idx"
  shows "list_all2 (\<lambda>elm i. i < length (descs t) \<and> basic (descs t ! i) = normalizeQuery t (basic elm)) elms idx"
  using assms(2)
proof (induction elms arbitrary: idx)
  case (Cons elm elms)
  have "0 \<le> sec_getIndex t (basic elm)" and *: "find_indices t elms \<noteq> None"
    using Cons.prems by (auto simp: Let_def split: if_splits)
  then obtain i where "i < length (descs t)" "sec_getIndex t (basic elm) = int i" "basic (descs t ! i) = normalizeQuery t (basic elm)"
    using sec_getIndex_cases [OF assms(1), of "basic elm"] by auto
  with Cons * show ?case by (auto simp: Let_def split: if_splits)
qed simp

lemma list_all2_distinct:
  assumes "list_all2 P xs ys" and "distinct (map f xs)" and "\<And>x y. P x y \<Longrightarrow> f x = g y"
  shows "distinct ys"
proof -
  have "map f xs = map g ys"
    using assms(1,3) by (induction rule: list_all2_induct) auto
  with assms(2) show ?thesis by (simp add: distinct_map)
qed

lemma find_indices_distinct:
  assumes "sec_sorted t" and "find_indices t (descs elms) = Some idx" and "getType t = getType elms" and "distinct_elms elms"
  shows "distinct idx" and "\<forall>i \<in> set idx. i < length (descs t)"
proof -
  note l = find_indices_spec [OF assms(1,2)]
  show "\<forall>i \<in> set idx. i < length (descs t)"
    using l by (auto simp: list_all2_conv_all_nth in_set_conv_nth)
  have eq: "normalizeQuery t q = normalizeQuery \<lparr>getType = getType elms, descs = []\<rparr> q" for q
    using assms(3) by (intro normalizeQuery_type) simp
  show "distinct idx"
    by (rule list_all2_distinct [OF l, where g = "\<lambda>i. basic (descs t ! i)"
          and f = "\<lambda>d. normalizeQuery \<lparr>getType = getType elms, descs = []\<rparr> (basic d)"])
      (use assms(4) eq in \<open>auto simp: distinct_elms_def\<close>)
qed

lemma deregister_all_bal:
  "reg_bal (deregister_all e mds h) e' md = reg_bal h e' md - (if e' = e then \<Sum>x\<leftarrow>mds. of_bool (x = md) else 0)"
  by (induction mds arbitrary: h) (auto simp: bk_deregisterMem_def)

lemma sum_list_nths: "sum_list (map f (nths xs A)) = (\<Sum>i\<in>{i. i < length xs \<and> i \<in> A}. f (xs ! i))"
  for f :: "'a \<Rightarrow> int"
proof (induction xs rule: rev_induct)
  case (snoc x xs)
  have split: "{i. i < length (xs @ [x]) \<and> i \<in> A} =
      {i. i < length xs \<and> i \<in> A} \<union> (if length xs \<in> A then {length xs} else {})"
    by (auto simp: less_Suc_eq)
  have "(\<Sum>i\<in>{i. i < length xs \<and> i \<in> A}. f ((xs @ [x]) ! i)) = (\<Sum>i\<in>{i. i < length xs \<and> i \<in> A}. f (xs ! i))"
    by (rule sum.cong) (auto simp: nth_append)
  with snoc show ?case
    unfolding split by (subst sum.union_disjoint) (auto simp: nths_append nths_singleton)
qed simp

lemma sum_list_without:
  fixes f :: "'a \<Rightarrow> int"
  assumes "distinct idx" and "\<forall>i \<in> set idx. i < length xs"
  shows "sum_list (map f (nths xs (- set idx))) = sum_list (map f xs) - (\<Sum>i\<leftarrow>idx. f (xs ! i))"
proof -
  have "sum_list (map f xs) = (\<Sum>i\<in>{i. i < length xs \<and> i \<in> UNIV}. f (xs ! i))"
    using sum_list_nths [of f xs UNIV] by (simp add: nths_all)
  also have "{i. i < length xs \<and> i \<in> UNIV} = {i. i < length xs \<and> i \<in> - set idx} \<union> set idx"
    using assms(2) by auto
  also have "(\<Sum>i\<in>{i. i < length xs \<and> i \<in> - set idx} \<union> set idx. f (xs ! i)) =
      (\<Sum>i\<in>{i. i < length xs \<and> i \<in> - set idx}. f (xs ! i)) + (\<Sum>i\<in>set idx. f (xs ! i))"
    by (rule sum.union_disjoint) auto
  finally show ?thesis
    using assms(1) by (simp add: sum_list_nths sum_list_distinct_conv_sum_set)
qed

lemma md_count_remDescs:
  assumes "distinct idx" and "\<forall>i \<in> set idx. i < length (descs l)"
  shows "md_count md (remDescs idx UNSORTED l) = md_count md l - (\<Sum>x\<leftarrow>map (\<lambda>i. metadataP (descs l ! i)) idx. of_bool (x = md))"
  using sum_list_without [OF assms, of "\<lambda>d. of_bool (metadataP d = md)"]
  by (simp add: md_count_def remDescs_UNSORTED [OF assms(1)] comp_def)

lemma replaced_section:
  assumes "sections_wf s" and "section_at s m e = Some l" and "sec_wf l'" "getType l' = getType l"
    and "s' = (if isEmpty l' then erase_section m e s else put_section m e l' s)"
  shows "sections_wf s'" and "held s' e' md = held s e' md - (if e' = e then md_count md l - md_count md l' else 0)"
proof -
  show "sections_wf s'"
    using assms sections_wfD(2) [OF assms(1,2)] by auto
  have "md_count md l' = 0" if "isEmpty l'" using that by (simp add: isEmpty_def md_count_def)
  then show "held s' e' md = held s e' md - (if e' = e then md_count md l - md_count md l' else 0)"
    unfolding assms(5) by (simp add: held_put [OF assms(1,2)] held_erase [OF assms(1,2)])
qed

lemma local_remDescList_cases:
  assumes "local_remDescList elms e s h = (st, s', h')"
  obtains "s' = s" "h' = h" "st \<noteq> NIXL_SUCCESS"
  | t idx where "section_at s (getType elms) e = Some t" "find_indices t (descs elms) = Some idx" "st = NIXL_SUCCESS"
      "s' = (if isEmpty (remDescs idx UNSORTED t) then erase_section (getType elms) e s
        else put_section (getType elms) e (remDescs idx UNSORTED t) s)"
      "h' = deregister_all e (map (\<lambda>i. metadataP (descs t ! i)) idx) h"
proof (cases "e = 0")
  case True
  with assms that(1) show ?thesis by (simp add: local_remDescList_def)
next
  case e: False
  show ?thesis
  proof (cases "section_at s (getType elms) e")
    case None
    with assms e that(1) show ?thesis by (simp add: local_remDescList_def)
  next
    case (Some t)
    with assms e that(1) that(2) [OF Some] show ?thesis
      by (cases "find_indices t (descs elms)") (simp_all add: local_remDescList_def Let_def)
  qed
qed

lemma local_remDescList_account:
  assumes "sections_wf s" and "local_remDescList elms e s h = (st, s', h')"
  shows "sections_wf s'" and "distinct_elms elms \<Longrightarrow> reg_bal h' e' md - held s' e' md = reg_bal h e' md - held s e' md"
proof -
  have "sections_wf s' \<and> (distinct_elms elms \<longrightarrow> reg_bal h' e' md - held s' e' md = reg_bal h e' md - held s e' md)"
    using assms(2)
  proof (cases rule: local_remDescList_cases)
    case 1
    with assms(1) show ?thesis by simp
  next
    case (2 t idx)
    note tw = sections_wfD(2,3) [OF assms(1) 2(1)]
    note r = replaced_section [OF assms(1) 2(1) remDescs_wf [OF tw(2)] getType_ops(4) 2(4)]
    have "md_count md (remDescs idx UNSORTED t) =
        md_count md t - (\<Sum>x\<leftarrow>map (\<lambda>i. metadataP (descs t ! i)) idx. of_bool (x = md))" if "distinct_elms elms"
      using find_indices_distinct [OF _ 2(2) tw(1) that] tw(2) by (intro md_count_remDescs) (auto simp: sec_wf_def)
    then show ?thesis
      using r(1) r(2) [of e' md] by (simp add: 2(5) deregister_all_bal)
  qed
  then show "sections_wf s'" "distinct_elms elms \<Longrightarrow> reg_bal h' e' md - held s' e' md = reg_bal h e' md - held s e' md"
    by auto
qed

lemma deregister_sections_bal:
  "reg_bal (deregister_sections secs h) e md =
     reg_bal h e md - al_sum (\<lambda>(m, e') l. if e' = e then md_count md l else 0) secs"
proof (induction secs arbitrary: h)
  case (Cons kv secs)
  obtain m e' l where "kv = ((m, e'), l)" by (metis prod.exhaust)
  with Cons show ?case by (simp add: deregister_all_bal md_count_def comp_def)
qed simp

lemma local_destroy_bal: "reg_bal (local_destroy s h) e md = reg_bal h e md - held s e md"
  by (simp add: local_destroy_def held_def deregister_sections_bal)

text \<open>The life of a local section: registrations, deregistrations of distinct regions, and any
  engine call that neither registers nor deregisters.\<close>

inductive local_step :: "benv \<Rightarrow> nixlLocalSection \<times> bhist \<Rightarrow> nixlLocalSection \<times> bhist \<Rightarrow> bool" for env where
  step_register: "local_addDescList env elms e rs s h = (st, rs', s', h') \<Longrightarrow> local_step env (s, h) (s', h')"
| step_deregister: "distinct_elms elms \<Longrightarrow> local_remDescList elms e s h = (st, s', h') \<Longrightarrow> local_step env (s, h) (s', h')"
| step_other: "(\<And>e md. reg_delta e md ev = 0) \<Longrightarrow> local_step env (s, h) (s, ev # h)"

definition local_start :: "nixlLocalSection \<times> bhist \<Rightarrow> bool" where
  "local_start sh \<longleftrightarrow> sh = (mem_section_new, [])"

definition local_inv :: "nixlLocalSection \<times> bhist \<Rightarrow> bool" where
  "local_inv sh \<longleftrightarrow> sections_wf (fst sh) \<and> (\<forall>e md. reg_bal (snd sh) e md = held (fst sh) e md)"

interpretation local_life: invariant_system local_start "local_step env" local_inv
proof unfold_locales
  fix s
  assume "local_start s"
  then show "local_inv s"
    by (simp add: local_start_def local_inv_def sections_wf_new) (simp add: held_def mem_section_new_def)
next
  fix s t
  assume inv: "local_inv s" and "local_step env s t"
  from this(2) show "local_inv t"
  proof cases
    case (step_register elms e rs s0 h st rs' s' h')
    with inv local_addDescList_account(1,2) [OF _ step_register(3)] show ?thesis
      by (fastforce simp: local_inv_def)
  next
    case (step_deregister elms e s0 h st s' h')
    with inv local_remDescList_account [OF _ step_deregister(4)] show ?thesis
      by (fastforce simp: local_inv_def)
  next
    case (step_other ev s0 h)
    with inv show ?thesis by (simp add: local_inv_def)
  qed
qed

subsection \<open>Loading accounts of remote sections\<close>

lemma md_count_sec_addDesc:
  assumes "sec_sorted l"
  shows "md_count md (sec_addDesc d l) = md_count md l + of_bool (metadataP d = md)"
  using sec_addDesc_sorted [OF assms, of d] md_count_mset [of l "mset (descs l)" md]
  by (simp add: md_count_mset [of "sec_addDesc d l" "add_mset (normalizeSecDesc l d) (mset (descs l))"])

lemma load_loop_account:
  assumes "sec_wf t" and "load_loop env e m ag ds t h = (st, t', h')"
  shows "sec_wf t' \<and> getType t' = getType t \<and>
    load_bal h' e' md = load_bal h e' md + (if e' = e then md_count md t' - md_count md t else 0)"
  using assms
proof (induction ds arbitrary: t h)
  case (Cons d ds)
  obtain ret md1 h1 where l: "bk_loadRemoteMD env e d m ag h = (ret, md1, h1)" by (metis prod.exhaust)
  have bal1: "load_bal h1 e' md = load_bal h e' md + of_bool (e = e' \<and> md1 = md \<and> \<not> is_err ret)"
    using l by (auto simp: bk_loadRemoteMD_def split: prod.splits)
  consider "sec_getIndex t (basic d) < 0" "is_err ret" | "sec_getIndex t (basic d) < 0" "\<not> is_err ret"
    | "0 \<le> sec_getIndex t (basic d)" by linarith
  then show ?case
  proof cases
    case 1
    with Cons.prems l bal1 show ?thesis by (simp add: Let_def)
  next
    case 2
    then have r: "load_loop env e m ag ds (sec_addDesc (section_of d md1 (metaInfo d)) t) h1 = (st, t', h')"
      using Cons.prems(2) l by (simp add: Let_def)
    have "md_count md (sec_addDesc (section_of d md1 (metaInfo d)) t) = md_count md t + of_bool (md1 = md)"
      using Cons.prems(1) by (simp add: md_count_sec_addDesc sec_wf_def)
    with Cons.IH [OF sec_addDesc_wf [OF Cons.prems(1)] r] bal1 2 show ?thesis by auto
  next
    case 3
    with Cons show ?thesis by (auto simp: Let_def split: if_splits)
  qed
qed simp

lemma remote_addDescList_account:
  assumes "sections_wf s" and "remote_addDescList env elms e s h = (st, s', h')"
  shows "sections_wf s'" and "load_bal h' e' md - held s' e' md = load_bal h e' md - held s e' md"
    and "agentName s' = agentName s"
proof -
  have "sections_wf s' \<and> load_bal h' e' md - held s' e' md = load_bal h e' md - held s e' md \<and> agentName s' = agentName s"
  proof (cases "supportsRemote env e")
    case True
    define m where "m = getType elms"
    obtain t where t: "section_at (emplace m e s) m e = Some t" by (cases "section_at s m e") simp_all
    obtain ret t' h1 where r: "load_loop env e m (agentName (emplace m e s)) (descs elms) t h = (ret, t', h1)"
      by (metis prod.exhaust)
    note wf = emplace_wf [OF assms(1), of m e]
    note tw = sections_wfD(2,3) [OF wf t]
    have eqs: "s' = put_section m e t' (emplace m e s)" "h' = h1"
      using assms(2) True r t by (auto simp: remote_addDescList_def Let_def m_def)
    note a = load_loop_account [OF tw(2) r]
    have "sections_wf s'" unfolding eqs
      using wf t tw a by (intro put_section_wf) auto
    moreover have "held s' e' md = held s e' md + (if e' = e then md_count md t' - md_count md t else 0)"
      unfolding eqs held_put [OF wf t] using assms(1) by simp
    moreover have "agentName s' = agentName s" by (simp add: eqs put_section_def emplace_def split: option.split)
    ultimately show ?thesis using a [of e' md] by (auto simp: eqs)
  qed (use assms in \<open>auto simp: remote_addDescList_def\<close>)
  then show "sections_wf s'" "load_bal h' e' md - held s' e' md = load_bal h e' md - held s e' md" "agentName s' = agentName s"
    by auto
qed

lemma load_segments_account:
  assumes "sections_wf s" and "load_segments env g engines n sd s h = (st, sd', s', h')"
  shows "sections_wf s' \<and> load_bal h' e' md - held s' e' md = load_bal h e' md - held s e' md"
  using assms
proof (induction n arbitrary: sd s h)
  case (Suc n)
  obtain b sd1 where b: "getStr ''bknd'' sd = (b, sd1)" by fastforce
  obtain r sd2 where r: "desclist_load KBlob blob_desc_of_blob g sd1 = (r, sd2)" by fastforce
  show ?case
  proof (cases "b = [] \<or> isEmpty (blob_list_of r)")
    case True
    with Suc.prems b r show ?thesis by (auto simp: Let_def split: if_splits)
  next
    case go: False
    show ?thesis
    proof (cases "map_of engines b")
      case None
      with go Suc b r show ?thesis by (simp add: Let_def)
    next
      case (Some e)
      obtain ret s1 h1 where a: "remote_addDescList env (blob_list_of r) e s h = (ret, s1, h1)" by (metis prod.exhaust)
      note acc = remote_addDescList_account(1,2) [OF Suc.prems(1) a]
      have "(if ret \<noteq> NIXL_SUCCESS then (ret, sd2, s1, h1) else load_segments env g engines n sd2 s1 h1) = (st, sd', s', h')"
        using Suc.prems(2) go Some b r a by (simp add: Let_def)
      with Suc.IH [OF acc(1)] acc(1) acc(2) [of e' md] show ?thesis by (cases "ret = NIXL_SUCCESS") auto
    qed
  qed
qed simp

lemma loadRemoteData_account:
  assumes "sections_wf s" and "loadRemoteData env g engines sd s h = (st, sd', s', h')"
  shows "sections_wf s'" and "load_bal h' e' md - held s' e' md = load_bal h e' md - held s e' md"
  using assms load_segments_account [OF assms(1)]
  by (auto simp: loadRemoteData_def split: prod.splits if_splits)

lemma unload_all_bal:
  "load_bal (unload_all e mds h) e' md = load_bal h e' md - (if e' = e then \<Sum>x\<leftarrow>mds. of_bool (x = md) else 0)"
  by (induction mds arbitrary: h) (auto simp: bk_unloadMD_def)

lemma unload_sections_bal:
  "load_bal (unload_sections secs h) e md =
     load_bal h e md - al_sum (\<lambda>(m, e') l. if e' = e then md_count md l else 0) secs"
proof (induction secs arbitrary: h)
  case (Cons kv secs)
  obtain m e' l where "kv = ((m, e'), l)" by (metis prod.exhaust)
  with Cons show ?case by (simp add: unload_all_bal md_count_def comp_def)
qed simp

lemma remote_destroy_bal: "load_bal (remote_destroy s h) e md = load_bal h e md - held s e md"
  by (simp add: remote_destroy_def held_def unload_sections_bal)

subsection \<open>The wire image of published sections\<close>

definition segment_image :: "benv \<Rightarrow> section_key_t \<times> nixlSecDescList \<Rightarrow> string" where
  "segment_image env kl = field_image ''bknd'' (engineType env (snd (fst kl))) @
     elm_list_image ''nixlSDList'' section_desc_serialize (snd kl)"

definition sections_image :: "benv \<Rightarrow> section_map_t \<Rightarrow> string" where
  "sections_image env secs = field_image ''nixlSecElms'' (u64_bytes (size_of (published env secs))) @
     concat (map (segment_image env) (published env secs))"

lemma serialize_each_image:
  "serialize_each env secs sd =
     (NIXL_SUCCESS, sd\<lparr>workingStr := workingStr sd @ concat (map (segment_image env) (published env secs))\<rparr>)"
proof (induction secs arbitrary: sd)
  case (Cons kl secs)
  obtain m e l where "kl = ((m, e), l)" by (metis prod.exhaust)
  with Cons show ?case
    by (simp add: published_def segment_image_def desclist_serialize_elms list_name_def)
qed (simp add: published_def)

lemma serializeSections_image:
  "serializeSections env secs sd = (NIXL_SUCCESS, sd\<lparr>workingStr := workingStr sd @ sections_image env secs\<rparr>)"
  by (simp add: serializeSections_def serialize_each_image sections_image_def)

text \<open>What publication means without a wire: the peer adds the published lists one by one, each
  under the engine it has for the backend's name, and skips names it has no engine for.\<close>

fun apply_published :: "benv \<Rightarrow> backend_map_t \<Rightarrow> (nixl_backend_t \<times> nixl_reg_dlist_t) list \<Rightarrow> nixlRemoteSection \<Rightarrow> bhist \<Rightarrow>
    nixl_status_t \<times> nixlRemoteSection \<times> bhist" where
  "apply_published env engines [] s h = (NIXL_SUCCESS, s, h)"
| "apply_published env engines ((b, l) # pubs) s h =
     (case map_of engines b of
        None \<Rightarrow> apply_published env engines pubs s h
      | Some e \<Rightarrow>
          let (ret, s, h) = remote_addDescList env l e s h
          in if ret \<noteq> NIXL_SUCCESS then (ret, s, h) else apply_published env engines pubs s h)"

definition public_view :: "benv \<Rightarrow> section_key_t \<times> nixlSecDescList \<Rightarrow> nixl_backend_t \<times> nixl_reg_dlist_t" where
  "public_view env kl =
     (engineType env (snd (fst kl)), \<lparr>getType = getType (snd kl), descs = map section_to_blob (descs (snd kl))\<rparr>)"

definition segment_ok :: "benv \<Rightarrow> section_key_t \<times> nixlSecDescList \<Rightarrow> bool" where
  "segment_ok env kl \<longleftrightarrow> engineType env (snd (fst kl)) \<noteq> [] \<and> descs (snd kl) \<noteq> [] \<and> fits (descs (snd kl))"

lemma short_section_tags [simp]: "short_tag ''bknd''" "short_tag ''nixlSecElms''"
  by (simp_all add: short_tag_def)

lemma blob_list_of_Loaded [simp]: "blob_list_of (Loaded l) = l"
  by (simp add: blob_list_of_def)

lemma load_segment:
  assumes "serdes_wf sd" and "remaining sd = segment_image env kl @ rest" and "segment_ok env kl"
  shows "load_segments env' g engines (Suc n) sd s h =
    (let (b, l) = public_view env kl; sd' = advance (segment_image env kl) sd
     in case map_of engines b of
          None \<Rightarrow> load_segments env' g engines n sd' s h
        | Some e \<Rightarrow> let (ret, s, h) = remote_addDescList env' l e s h
            in if ret \<noteq> NIXL_SUCCESS then (ret, sd', s, h) else load_segments env' g engines n sd' s h)"
proof -
  let ?b = "field_image ''bknd'' (engineType env (snd (fst kl)))"
  let ?l = "elm_list_image ''nixlSDList'' section_desc_serialize (snd kl)"
  have r: "remaining sd = ?b @ (?l @ rest)" using assms(2) by (simp add: segment_image_def)
  note a = advance_remaining [OF assms(1) r]
  have "desclist_load KBlob blob_desc_of_blob g (advance ?b sd) =
      (Loaded \<lparr>getType = getType (snd kl), descs = map (blob_desc_of_blob \<circ> section_desc_serialize) (descs (snd kl))\<rparr>,
       advance ?l (advance ?b sd))"
    by (rule blob_list_load [where rest = rest])
      (use a assms(3) in \<open>auto simp: segment_ok_def section_desc_serialize_def\<close>)
  moreover have "advance ?l (advance ?b sd) = advance (segment_image env kl) sd"
    by (simp add: advance_def segment_image_def size_of_append add.assoc)
  moreover have "getStr ''bknd'' sd = (engineType env (snd (fst kl)), advance ?b sd)"
    using getStr_field [OF assms(1) _ r] by simp
  ultimately show ?thesis
    using assms(3)
    by (cases "map_of engines (engineType env (snd (fst kl)))")
      (simp_all add: Let_def public_view_def isEmpty_def segment_ok_def comp_def)
qed

lemma load_segments_published:
  assumes "serdes_wf sd" and "remaining sd = concat (map (segment_image env) kls) @ rest"
    and "\<forall>kl \<in> set kls. segment_ok env kl"
  shows "let (st, sd', s', h') = load_segments env' g engines (length kls) sd s h
    in (st, s', h') = apply_published env' engines (map (public_view env) kls) s h \<and>
       (st = NIXL_SUCCESS \<longrightarrow> serdes_wf sd' \<and> remaining sd' = rest)"
  using assms
proof (induction kls arbitrary: sd s h)
  case (Cons kl kls)
  let ?sd = "advance (segment_image env kl) sd"
  obtain b l where v: "public_view env kl = (b, l)" by fastforce
  have r: "remaining sd = segment_image env kl @ (concat (map (segment_image env) kls) @ rest)"
    using Cons.prems(2) by simp
  note step = load_segment [OF Cons.prems(1) r, of env' g engines "length kls" s h]
  note a = advance_remaining [OF Cons.prems(1) r]
  have ok: "segment_ok env kl" "\<forall>kl \<in> set kls. segment_ok env kl" using Cons.prems(3) by simp_all
  show ?case
  proof (cases "map_of engines b")
    case None
    with Cons.IH [OF a ok(2)] step ok(1) v show ?thesis by simp
  next
    case (Some e)
    obtain ret s1 h1 where "remote_addDescList env' l e s h = (ret, s1, h1)" by (metis prod.exhaust)
    with Cons.IH [OF a ok(2), of s1 h1] step ok(1) v Some show ?thesis
      by (cases "ret = NIXL_SUCCESS") simp_all
  qed
qed simp

lemma loadRemoteData_published:
  assumes "serdes_wf sd" and "remaining sd = sections_image env secs @ rest" and "fits (published env secs)"
    and "\<forall>kl \<in> set (published env secs). segment_ok env kl"
  shows "let (st, sd', s', h') = loadRemoteData env' g engines sd s h
    in (st, s', h') = apply_published env' engines (map (public_view env) (published env secs)) s h \<and>
       (st = NIXL_SUCCESS \<longrightarrow> serdes_wf sd' \<and> remaining sd' = rest)"
proof -
  let ?f = "field_image ''nixlSecElms'' (u64_bytes (size_of (published env secs)))"
  have r: "remaining sd = ?f @ (concat (map (segment_image env) (published env secs)) @ rest)"
    using assms(2) by (simp add: sections_image_def)
  have "getBuf ''nixlSecElms'' 8 sd = (NIXL_SUCCESS, u64_bytes (size_of (published env secs)), advance ?f sd)"
    using getBuf_field [OF assms(1) _ r] by simp
  then show ?thesis
    using load_segments_published [OF advance_remaining [OF assms(1) r] assms(4), of env' g engines s h] assms(3)
    by (simp add: loadRemoteData_def unat_size_of)
qed

subsection \<open>What the peer sees\<close>

definition has_region :: "'a nixlMemSection_scheme \<Rightarrow> nixl_mem_t \<Rightarrow> engine \<Rightarrow> nixlBasicDesc \<Rightarrow> blob \<Rightarrow> bool" where
  "has_region s m e q b \<longleftrightarrow> (\<exists>t d. section_at s m e = Some t \<and> d \<in> set (descs t) \<and> basic d = q \<and> metaBlob d = b)"

lemma basic_normalize: "basic (normalizeSecDesc t d) = normalizeQuery t (basic d)"
  by (simp add: normalizeSecDesc_def normalizeQuery_def nixlBasicDesc.truncate_def)

lemma metaBlob_normalize [simp]: "metaBlob (normalizeSecDesc t d) = metaBlob d"
  by (simp add: normalizeSecDesc_def)

lemma set_sec_addDesc: "sec_sorted l \<Longrightarrow> set (descs (sec_addDesc d l)) = insert (normalizeSecDesc l d) (set (descs l))"
  using arg_cong [OF sec_addDesc_sorted(2), of l set_mset d] by simp

lemma load_loop_content:
  assumes "sec_wf t" and "load_loop env e m ag ds t h = (st, t', h')"
  shows "set (descs t) \<subseteq> set (descs t') \<and>
    (st = NIXL_SUCCESS \<longrightarrow> (\<forall>d \<in> set ds. \<exists>d' \<in> set (descs t').
      basic d' = normalizeQuery t (basic d) \<and> metaBlob d' = metaInfo d))"
  using assms
proof (induction ds arbitrary: t h)
  case (Cons d ds)
  obtain ret md1 h1 where l: "bk_loadRemoteMD env e d m ag h = (ret, md1, h1)" by (metis prod.exhaust)
  consider "sec_getIndex t (basic d) < 0" "is_err ret" | "sec_getIndex t (basic d) < 0" "\<not> is_err ret"
    | "0 \<le> sec_getIndex t (basic d)" by linarith
  then show ?case
  proof cases
    case 1
    then have "ret \<noteq> NIXL_SUCCESS" by auto
    with 1 Cons.prems l show ?thesis by (auto simp: Let_def)
  next
    case 2
    define t1 where "t1 = sec_addDesc (section_of d md1 (metaInfo d)) t"
    have r: "load_loop env e m ag ds t1 h1 = (st, t', h')"
      using Cons.prems(2) l 2 by (simp add: Let_def t1_def)
    have set1: "set (descs t1) = insert (normalizeSecDesc t (section_of d md1 (metaInfo d))) (set (descs t))"
      using Cons.prems(1) by (simp add: t1_def set_sec_addDesc sec_wf_def)
    have nq: "normalizeQuery t1 q = normalizeQuery t q" for q
      by (rule normalizeQuery_type) (simp add: t1_def)
    have "sec_wf t1" using Cons.prems(1) by (simp add: t1_def sec_addDesc_wf)
    from Cons.IH [OF this r] show ?thesis
      by (auto simp: set1 nq basic_normalize intro!: bexI [of _ "normalizeSecDesc t (section_of d md1 (metaInfo d))"])
  next
    case 3
    then obtain i where i: "i < length (descs t)" "sec_getIndex t (basic d) = int i" "basic (descs t ! i) = normalizeQuery t (basic d)"
      using sec_getIndex_cases [of t "basic d"] Cons.prems(1) by (auto simp: sec_wf_def)
    show ?thesis
    proof (cases "metaBlob (descs t ! i) = metaInfo d")
      case True
      then have "load_loop env e m ag ds t h = (st, t', h')" using Cons.prems(2) i by (simp add: Let_def)
      from Cons.IH [OF Cons.prems(1) this] i True show ?thesis
        by (auto intro!: bexI [of _ "descs t ! i"])
    next
      case False
      with Cons.prems(2) i show ?thesis by (auto simp: Let_def)
    qed
  qed
qed simp

lemma remote_addDescList_content:
  assumes "sections_wf s" and "remote_addDescList env l e s h = (st, s', h')"
  shows "has_region s m e' q b \<Longrightarrow> has_region s' m e' q b"
    and "st = NIXL_SUCCESS \<Longrightarrow> d \<in> set (descs l) \<Longrightarrow>
      has_region s' (getType l) e (normalizeQuery \<lparr>getType = getType l, descs = []\<rparr> (basic d)) (metaInfo d)"
proof -
  let ?q = "normalizeQuery \<lparr>getType = getType l, descs = []\<rparr> (basic d)"
  have "(has_region s m e' q b \<longrightarrow> has_region s' m e' q b) \<and>
    (st = NIXL_SUCCESS \<longrightarrow> d \<in> set (descs l) \<longrightarrow> has_region s' (getType l) e ?q (metaInfo d))"
  proof (cases "supportsRemote env e")
    case True
    define m0 where "m0 = getType l"
    obtain t where t: "section_at (emplace m0 e s) m0 e = Some t" by (cases "section_at s m0 e") simp_all
    obtain ret t' h1 where r: "load_loop env e m0 (agentName (emplace m0 e s)) (descs l) t h = (ret, t', h1)"
      by (metis prod.exhaust)
    note tw = sections_wfD(2,3) [OF emplace_wf [OF assms(1)] t]
    have eqs: "s' = put_section m0 e t' (emplace m0 e s)" "st = ret"
      using assms(2) True r t by (auto simp: remote_addDescList_def Let_def m0_def)
    note c = load_loop_content [OF tw(2) r]
    have "has_region s m e' q b \<longrightarrow> has_region s' m e' q b"
      using c t by (fastforce simp: eqs has_region_def split: if_splits)
    moreover have "?q = normalizeQuery t (basic d)"
      using tw(1) by (intro normalizeQuery_type) (simp add: m0_def)
    moreover have "st = NIXL_SUCCESS \<longrightarrow> d \<in> set (descs l) \<longrightarrow>
        has_region s' m0 e (normalizeQuery t (basic d)) (metaInfo d)"
      using c unfolding eqs has_region_def by auto
    ultimately show ?thesis by (simp add: m0_def)
  qed (use assms in \<open>auto simp: remote_addDescList_def\<close>)
  then show "has_region s m e' q b \<Longrightarrow> has_region s' m e' q b"
    and "st = NIXL_SUCCESS \<Longrightarrow> d \<in> set (descs l) \<Longrightarrow> has_region s' (getType l) e ?q (metaInfo d)"
    by auto
qed

lemma apply_published_content:
  assumes "sections_wf s" and "apply_published env engines pubs s h = (st, s', h')"
  shows "(has_region s m e' q b \<longrightarrow> has_region s' m e' q b) \<and>
    (st = NIXL_SUCCESS \<longrightarrow> (\<forall>(name, l) \<in> set pubs. \<forall>e. map_of engines name = Some e \<longrightarrow>
      (\<forall>d \<in> set (descs l). has_region s' (getType l) e (normalizeQuery \<lparr>getType = getType l, descs = []\<rparr> (basic d)) (metaInfo d))))"
  using assms
proof (induction pubs arbitrary: s h m e' q b)
  case (Cons p pubs)
  obtain name l where p: "p = (name, l)" by fastforce
  show ?case
  proof (cases "map_of engines name")
    case None
    then have "apply_published env engines pubs s h = (st, s', h')" using Cons.prems(2) p by simp
    from Cons.IH [OF Cons.prems(1) this, of m e' q b] None p show ?thesis by simp
  next
    case (Some e)
    obtain ret s1 h1 where a: "remote_addDescList env l e s h = (ret, s1, h1)" by (metis prod.exhaust)
    note c = remote_addDescList_content [OF Cons.prems(1) a]
    note wf = remote_addDescList_account(1) [OF Cons.prems(1) a]
    show ?thesis
    proof (cases "ret = NIXL_SUCCESS")
      case True
      then have r: "apply_published env engines pubs s1 h1 = (st, s', h')" using Cons.prems(2) p a Some by simp
      note ih = Cons.IH [OF wf r]
      have "has_region s' (getType l) e (normalizeQuery \<lparr>getType = getType l, descs = []\<rparr> (basic d)) (metaInfo d)"
        if "d \<in> set (descs l)" for d
        using ih c(2) [of d] True that by auto
      with ih c(1) Some p show ?thesis by auto
    next
      case False
      with Cons.prems(2) p a Some c(1) show ?thesis by auto
    qed
  qed
qed simp

lemma published_visible:
  assumes "sections_wf s"
    and "\<forall>(name, l) \<in> set (map (public_view env) (published env (sectionMap s))). \<forall>e. map_of engines name = Some e \<longrightarrow>
      (\<forall>d \<in> set (descs l). has_region r (getType l) e (normalizeQuery \<lparr>getType = getType l, descs = []\<rparr> (basic d)) (metaInfo d))"
    and "section_at s m e = Some l" and "supportsRemote env e" and "d \<in> set (descs l)"
    and "map_of engines (engineType env e) = Some e'"
  shows "has_region r m e' (basic d) (metaBlob d)"
proof -
  have kl: "((m, e), l) \<in> set (published env (sectionMap s))"
    using map_of_SomeD [OF assms(3)] assms(4) by (simp add: published_def)
  have lw: "getType l = m" "sec_wf l"
    by (rule sections_wfD(2,3) [OF assms(1,3)])+
  let ?b = "section_to_blob d"
  have "has_region r m e' (normalizeQuery \<lparr>getType = m, descs = []\<rparr> (basic ?b)) (metaInfo ?b)"
    using assms(2) kl assms(5,6) lw(1) by (fastforce simp: public_view_def)
  moreover have "basic ?b = basic d" "metaInfo ?b = metaBlob d"
    by (simp_all add: section_to_blob_def nixlBasicDesc.truncate_def)
  moreover have "normalizeQuery \<lparr>getType = m, descs = []\<rparr> (basic d) = basic d"
    using lw assms(5) by (auto simp: normalizeQuery_def sec_wf_def usesUnboundedLen_def)
  ultimately show ?thesis by simp
qed

lemma load_segment_empty:
  assumes "serdes_wf sd" and "remaining sd = segment_image env kl @ rest"
    and "engineType env (snd (fst kl)) \<noteq> []" and "descs (snd kl) = []"
  shows "fst (load_segments env' g engines (Suc n) sd s h) = NIXL_ERR_NOT_FOUND"
proof -
  let ?b = "field_image ''bknd'' (engineType env (snd (fst kl)))"
  let ?l = "elm_list_image ''nixlSDList'' section_desc_serialize (snd kl)"
  have r: "remaining sd = ?b @ (?l @ rest)" using assms(2) by (simp add: segment_image_def)
  note a = advance_remaining [OF assms(1) r]
  have "desclist_load KBlob blob_desc_of_blob g (advance ?b sd) =
      (Loaded \<lparr>getType = getType (snd kl), descs = map (blob_desc_of_blob \<circ> section_desc_serialize) (descs (snd kl))\<rparr>,
       advance ?l (advance ?b sd))"
    by (rule blob_list_load [where rest = rest])
      (use a assms(4) in \<open>auto simp: section_desc_serialize_def fits_def\<close>)
  moreover have "getStr ''bknd'' sd = (engineType env (snd (fst kl)), advance ?b sd)"
    using getStr_field [OF assms(1) _ r] by simp
  ultimately show ?thesis
    using assms(3,4) by (simp add: isEmpty_def)
qed

subsection \<open>An example engine\<close>

text \<open>An engine that always succeeds and numbers its handles by the calls it has seen.\<close>

definition ex_env :: benv where
  "ex_env =
     \<lparr>supportsLocal = (\<lambda>_. True), supportsRemote = (\<lambda>_. True), supportsNotif = (\<lambda>_. True),
      engineType = (\<lambda>e. if e = 1 then ''UCX'' else ''GDS''), getSupportedMems = (\<lambda>_. [DRAM_SEG, VRAM_SEG]),
      on_registerMem = (\<lambda>h e d m. (NIXL_SUCCESS, Suc (length h))),
      on_loadLocalMD = (\<lambda>h e md. (NIXL_SUCCESS, md)),
      on_getPublicData = (\<lambda>h e md. (NIXL_SUCCESS, ''k'')),
      on_loadRemoteMD = (\<lambda>h e d m ag. (NIXL_SUCCESS, Suc (length h))),
      on_createEngine = (\<lambda>h t. Some (Suc (length h))), on_getInitErr = (\<lambda>_. False),
      on_getConnInfo = (\<lambda>h e. (NIXL_SUCCESS, ''conn'')),
      on_loadRemoteConnInfo = (\<lambda>h e ag info. NIXL_SUCCESS),
      on_connect = (\<lambda>h e ag. NIXL_SUCCESS), on_disconnect = (\<lambda>h e ag. NIXL_SUCCESS),
      on_prepXfer = (\<lambda>h e op l r ag args. (NIXL_SUCCESS, Suc (length h))),
      on_postXfer = (\<lambda>h e op l r ag q args. (NIXL_IN_PROG, q)),
      on_checkXfer = (\<lambda>h e q. NIXL_SUCCESS), on_releaseReqH = (\<lambda>h e q. NIXL_SUCCESS),
      on_getNotifs = (\<lambda>h e. (NIXL_SUCCESS, [])), on_genNotif = (\<lambda>h e ag msg. NIXL_SUCCESS),
      on_prepMemView = (\<lambda>h e r l p. (NIXL_SUCCESS, Suc (length h)))\<rparr>"

definition ex_reg :: nixl_reg_dlist_t where
  "ex_reg = \<lparr>getType = DRAM_SEG, descs = [\<lparr>addr = 0, len = 64, devId = 0, metaInfo = []\<rparr>]\<rparr>"

definition ex_empty :: nixlSecDescList where
  "ex_empty = \<lparr>getType = DRAM_SEG, descs = []\<rparr>"

subsection \<open>Properties\<close>

text \<open>C9: No registration leaks and none is undone twice: over any sequence of registrations,
  deregistrations of distinct regions and other engine calls, with any engine behaviour, the
  successful registrations of a backend handle minus its deregistrations are exactly the regions
  of the local section that carry it, the section keeps its invariant, and destroying the section
  brings every account to zero. Failed registrations are rolled back completely.\<close>

theorem local_registrations_balanced:
  assumes "reach local_start (local_step env) (s, h)"
  shows "sections_wf s \<and> reg_bal h e md = held s e md \<and> reg_bal (local_destroy s h) e md = 0"
  using local_life.reach_inv [OF assms] by (simp add: local_inv_def local_destroy_bal)

theorem local_registrations_balanced_witness:
  "let (st, rs, s, h) = local_addDescList ex_env ex_reg 1 ex_empty mem_section_new []
   in sections_wf s \<and> reg_bal h 1 1 = held s 1 1 \<and> reg_bal (local_destroy s h) 1 1 = 0"
proof -
  obtain st rs s h where a: "local_addDescList ex_env ex_reg 1 ex_empty mem_section_new [] = (st, rs, s, h)"
    by (metis prod.exhaust)
  have "reach local_start (local_step ex_env) (mem_section_new, [])"
    by (rule reach_start) (simp add: local_start_def)
  from reach_step [OF this step_register [OF a]] have "reach local_start (local_step ex_env) (s, h)" .
  from local_registrations_balanced [OF this] a show ?thesis by simp
qed



text \<open>C29: Publishing works end to end: when an agent serialises its sections and a peer with a fresh
  remote section loads the bytes successfully, then every region of every published section is in
  the peer's section of the same memory type under the peer's engine for that backend name, with
  the same range and the same public metadata. Sections must be non-empty and their backend names
  non-empty.\<close>

theorem published_regions_visible:
  assumes "sections_wf s" and "\<forall>kl \<in> set (published env (sectionMap s)). segment_ok env kl"
    and "fits (published env (sectionMap s))"
    and "fits (workingStr (snd (local_serialize env s serdes_new)))"
    and "loadRemoteData env' g engines (received (snd (local_serialize env s serdes_new))) (remote_section_new ag) h =
      (NIXL_SUCCESS, sd', s', h')"
    and "section_at s m e = Some l" and "supportsRemote env e" and "d \<in> set (descs l)"
    and "map_of engines (engineType env e) = Some e'"
  shows "has_region s' m e' (basic d) (metaBlob d)"
proof -
  have ser: "local_serialize env s serdes_new =
      (NIXL_SUCCESS, serdes_new\<lparr>workingStr := serdes_magic @ sections_image env (sectionMap s)\<rparr>)"
    by (simp add: local_serialize_def serializeSections_image)
  note r = received_wf [of "snd (local_serialize env s serdes_new)" "sections_image env (sectionMap s)", OF _ assms(4)]
  have a: "apply_published env' engines (map (public_view env) (published env (sectionMap s))) (remote_section_new ag) h =
      (NIXL_SUCCESS, s', h')"
    using loadRemoteData_published [of "received (snd (local_serialize env s serdes_new))" env "sectionMap s" "[]", OF _ _ assms(3,2),
        of env' g engines "remote_section_new ag" h] r assms(5) by (simp add: ser)
  show ?thesis
    by (rule published_visible [OF assms(1) _ assms(6-9)])
      (use apply_published_content [OF sections_wf_new(2) a] in simp)
qed

definition ex_secs :: "nixl_mem_t \<Rightarrow> section_map_t" where
  "ex_secs m = [((m, 1), \<lparr>getType = m, descs = [ex_region 0 7]\<rparr>)]"

lemma ex_env_fields [simp]:
  "supportsRemote ex_env e" "engineType ex_env (Suc 0) = ''UCX''"
  "on_loadRemoteMD ex_env h e d m ag = (NIXL_SUCCESS, Suc (length h))"
  by (simp_all add: ex_env_def)

lemma ex_secs_ok:
  "published ex_env (ex_secs m) = ex_secs m" "\<forall>kl \<in> set (ex_secs m). segment_ok ex_env kl" "fits (ex_secs m)"
  "fits (serdes_magic @ sections_image ex_env (ex_secs m))"
  by (simp_all add: ex_secs_def published_def segment_ok_def fits_def ex_region_def sections_image_def
      segment_image_def serdes_magic_def length_field_image elm_list_image_def list_header_def section_desc_serialize_def)

lemma sec_getIndex_empty: "sec_getIndex \<lparr>getType = m, descs = []\<rparr> q = -4"
  by (simp add: sec_getIndex_def lower_bound_def part_search.simps)

lemma ex_loaded:
  "apply_published ex_env [(''UCX'', 1)] (map (public_view ex_env) (ex_secs m)) (remote_section_new ag) h =
     (NIXL_SUCCESS,
      put_section m 1 (sec_addDesc (section_of (ex_region 0 7) (Suc (length h)) ''k'') \<lparr>getType = m, descs = []\<rparr>)
        (emplace m 1 (remote_section_new ag)),
      EvLoadRemoteMD 1 (section_to_blob (ex_region 0 7)) m ag NIXL_SUCCESS (Suc (length h)) # h)"
proof -
  have "agentName (emplace m 1 (remote_section_new ag)) = ag" "map_of (sectionMap (remote_section_new ag)) k = None" for k
    by (simp_all add: emplace_def remote_section_new_def)
  then show ?thesis
    by (simp add: ex_secs_def public_view_def remote_addDescList_def sec_getIndex_empty bk_loadRemoteMD_def
        section_to_blob_def section_of_def ex_region_def)
qed

lemma ex_received:
  assumes "sd = received (serdes_new\<lparr>workingStr := serdes_magic @ sections_image ex_env (ex_secs m)\<rparr>)"
  shows "\<exists>sd'. loadRemoteData ex_env g [(''UCX'', 1)] sd (remote_section_new ag) [] =
    (NIXL_SUCCESS, sd', put_section m 1 (sec_addDesc (section_of (ex_region 0 7) 1 ''k'') \<lparr>getType = m, descs = []\<rparr>)
        (emplace m 1 (remote_section_new ag)),
      [EvLoadRemoteMD 1 (section_to_blob (ex_region 0 7)) m ag NIXL_SUCCESS 1])"
proof -
  have r: "serdes_wf sd" "remaining sd = sections_image ex_env (ex_secs m) @ []"
    using received_wf [of "serdes_new\<lparr>workingStr := serdes_magic @ sections_image ex_env (ex_secs m)\<rparr>"
        "sections_image ex_env (ex_secs m)"] ex_secs_ok(4) [of m] by (simp_all add: assms)
  show ?thesis
    using loadRemoteData_published [OF r, of ex_env g "[(''UCX'', 1)]" "remote_section_new ag" "[]"]
      ex_loaded [of m ag "[]"] ex_secs_ok [of m] by (auto split: prod.splits)
qed

theorem published_regions_visible_witness:
  "\<exists>s'. (\<exists>sd' h'. loadRemoteData ex_env DRAM_SEG [(''UCX'', 1)]
      (received (snd (local_serialize ex_env \<lparr>memToBackend = (\<lambda>m. if m = VRAM_SEG then [1] else []), sectionMap = ex_secs VRAM_SEG\<rparr> serdes_new)))
      (remote_section_new ''me'') [] = (NIXL_SUCCESS, sd', s', h')) \<and>
    has_region s' VRAM_SEG 1 \<lparr>addr = 0, len = 64, devId = 0\<rparr> ''k''"
proof -
  define s where "s = \<lparr>memToBackend = (\<lambda>m. if m = VRAM_SEG then [1] else []), sectionMap = ex_secs VRAM_SEG\<rparr>"
  have wf: "sections_wf s"
    by (auto simp: s_def sections_wf_def ex_secs_def om_ordered_def sec_wf_def sec_sorted_def ex_region_def split: if_splits)
  have ser: "local_serialize ex_env s serdes_new =
      (NIXL_SUCCESS, serdes_new\<lparr>workingStr := serdes_magic @ sections_image ex_env (ex_secs VRAM_SEG)\<rparr>)"
    by (simp add: local_serialize_def serializeSections_image s_def)
  obtain sd' s' h' where l: "loadRemoteData ex_env DRAM_SEG [(''UCX'', 1)]
      (received (snd (local_serialize ex_env s serdes_new))) (remote_section_new ''me'') [] = (NIXL_SUCCESS, sd', s', h')"
    using ex_received [of "received (snd (local_serialize ex_env s serdes_new))" VRAM_SEG DRAM_SEG "''me''"] ser by auto
  have "has_region s' VRAM_SEG 1 (basic (ex_region 0 7)) (metaBlob (ex_region 0 7))"
    by (rule published_regions_visible [OF wf _ _ _ l, where e = 1 and l = "\<lparr>getType = VRAM_SEG, descs = [ex_region 0 7]\<rparr>"])
      (use ex_secs_ok [of VRAM_SEG] ser in \<open>auto simp: s_def ex_secs_def\<close>)
  with l show ?thesis
    unfolding s_def by (auto simp: ex_region_def nixlBasicDesc.truncate_def)
qed

subsection \<open>Where the code falls short\<close>

text \<open>C40: A failed first registration poisons the agent's metadata. \<open>addDescList\<close> creates the section
  before it registers anything and leaves it behind, empty, when registration fails; the next
  serialisation publishes the empty list, and every peer that loads it stops with
  \<open>NIXL_ERR_NOT_FOUND\<close>.\<close>

theorem failed_registration_poisons_metadata:
  assumes "local_addDescList env elms e rs mem_section_new h = (st, rs', s', h')" and "st \<noteq> NIXL_SUCCESS"
    and "e \<noteq> 0" and "supportsRemote env e" and "engineType env e \<noteq> []"
    and "fits (workingStr (snd (local_serialize env s' serdes_new)))"
  shows "fst (loadRemoteData env' g engines (received (snd (local_serialize env s' serdes_new))) r hr) = NIXL_ERR_NOT_FOUND"
proof -
  define m where "m = getType elms"
  have s': "s' = emplace m e mem_section_new"
    using assms(1-3) by (auto simp: local_addDescList_def Let_def m_def split: prod.splits if_splits)
  have sm: "sectionMap s' = [((m, e), \<lparr>getType = m, descs = []\<rparr>)]"
    by (simp add: s' emplace_def mem_section_new_def)
  then have pub: "published env (sectionMap s') = [((m, e), \<lparr>getType = m, descs = []\<rparr>)]"
    using assms(4) by (simp add: published_def)
  have ser: "local_serialize env s' serdes_new =
      (NIXL_SUCCESS, serdes_new\<lparr>workingStr := serdes_magic @ sections_image env (sectionMap s')\<rparr>)"
    by (simp add: local_serialize_def serializeSections_image)
  let ?sd = "received (snd (local_serialize env s' serdes_new))"
  let ?f = "field_image ''nixlSecElms'' (u64_bytes (size_of (published env (sectionMap s'))))"
  let ?kl = "((m, e), \<lparr>getType = m, descs = []\<rparr> :: nixlSecDescList)"
  have r: "serdes_wf ?sd" "remaining ?sd = ?f @ (segment_image env ?kl @ [])"
    using received_wf [of "snd (local_serialize env s' serdes_new)" "sections_image env (sectionMap s')", OF _ assms(6)]
    by (simp_all add: ser sections_image_def pub)
  have "getBuf ''nixlSecElms'' 8 ?sd = (NIXL_SUCCESS, u64_bytes (size_of (published env (sectionMap s'))), advance ?f ?sd)"
    using getBuf_field [OF r(1) _ r(2)] by simp
  moreover have "unat (size_of [?kl]) = Suc 0" by (simp add: size_of_def)
  ultimately show ?thesis
    using load_segment_empty [OF advance_remaining [OF r], of env' g engines 0 r hr] assms(5)
    by (simp add: loadRemoteData_def pub)
qed

definition ex_fail :: benv where
  "ex_fail = ex_env\<lparr>on_registerMem := (\<lambda>h e d m. (NIXL_ERR_BACKEND, 0))\<rparr>"

theorem failed_registration_poisons_metadata_witness:
  "let (st, rs, s, h) = local_addDescList ex_fail ex_reg 1 ex_empty mem_section_new []
   in st = NIXL_ERR_BACKEND \<and>
     fst (loadRemoteData ex_env DRAM_SEG [(''UCX'', 1)] (received (snd (local_serialize ex_fail s serdes_new)))
       (remote_section_new ''a'') []) = NIXL_ERR_NOT_FOUND"
proof -
  let ?s = "emplace DRAM_SEG 1 mem_section_new" and ?h = "[EvRegisterMem 1 \<lparr>addr = 0, len = 64, devId = 0, metaInfo = []\<rparr> DRAM_SEG NIXL_ERR_BACKEND 0]"
  have a: "local_addDescList ex_fail ex_reg 1 ex_empty mem_section_new [] = (NIXL_ERR_BACKEND, ex_empty, ?s, ?h)"
    by (simp add: local_addDescList_def ex_reg_def ex_fail_def bk_registerMem_def)
  have "fits (workingStr (snd (local_serialize ex_fail ?s serdes_new)))"
    by (simp add: local_serialize_def serializeSections_image fits_def sections_image_def published_def segment_image_def
        emplace_def mem_section_new_def serdes_magic_def length_field_image elm_list_image_def list_header_def ex_fail_def)
  with failed_registration_poisons_metadata [OF a, of ex_env DRAM_SEG "[(''UCX'', 1)]" "remote_section_new ''a''" "[]"]
  show ?thesis unfolding a by (simp add: ex_fail_def)
qed

text \<open>Deregistering the same region twice in one call deregisters its handle twice: the duplicate
  resolves to the same position, \<open>deregisterMem\<close> is called for both, and one region is removed.
  The engine's account ends one below the regions held.\<close>

theorem duplicate_deregistration:
  assumes "sections_wf s" and "e \<noteq> 0" and "section_at s m e = Some t" and "sec_getIndex t (basic d) = int i"
    and "reg_bal h e (metadataP (descs t ! i)) = held s e (metadataP (descs t ! i))"
  shows "let (st, s', h') = local_remDescList \<lparr>getType = m, descs = [d, d]\<rparr> e s h
    in st = NIXL_SUCCESS \<and> reg_bal h' e (metadataP (descs t ! i)) = held s' e (metadataP (descs t ! i)) - 1"
proof -
  let ?md = "metadataP (descs t ! i)"
  note tw = sections_wfD(2,3) [OF assms(1,3)]
  have i: "i < length (descs t)"
    using sec_getIndex_cases [of t "basic d"] tw(2) assms(4) by (auto simp: sec_wf_def)
  have "remDescs [i, i] UNSORTED t = remDescs [i] UNSORTED t"
  proof -
    have "skip_indices [i] xs j = xs" if "i < j" for xs :: "nixlSectionDesc list" and j
      using that by (induction xs arbitrary: j) auto
    then have "skip_indices [i, i] xs j = skip_indices [i] xs j" for xs :: "nixlSectionDesc list" and j
      by (induction xs arbitrary: j) auto
    then show ?thesis
      using compact_skip [of 0 0 "descs t" 0 "[i, i]"] compact_skip [of 0 0 "descs t" 0 "[i]"]
      by (simp add: remDescs_def)
  qed
  then have cnt: "md_count ?md (remDescs [i, i] UNSORTED t) = md_count ?md t - 1"
    using md_count_remDescs [of "[i]" t ?md] i by simp
  define s' where "s' = (if isEmpty (remDescs [i, i] UNSORTED t) then erase_section m e s
    else put_section m e (remDescs [i, i] UNSORTED t) s)"
  have "held s' e ?md = held s e ?md - 1"
    using replaced_section(2) [OF assms(1,3) remDescs_wf [OF tw(2)] _ s'_def, of e ?md] cnt by simp
  moreover have "local_remDescList \<lparr>getType = m, descs = [d, d]\<rparr> e s h =
      (NIXL_SUCCESS, s', EvDeregisterMem e ?md # EvDeregisterMem e ?md # h)"
    using assms(2-4) by (simp add: local_remDescList_def s'_def bk_deregisterMem_def)
  ultimately show ?thesis using assms(5) by simp
qed

theorem duplicate_deregistration_witness:
  "let s = \<lparr>memToBackend = (\<lambda>m. if m = DRAM_SEG then [1] else []), sectionMap = ex_secs DRAM_SEG\<rparr>;
       d = \<lparr>addr = 0, len = 64, devId = 0, metaInfo = []\<rparr>;
       (st, s', h') = local_remDescList \<lparr>getType = DRAM_SEG, descs = [d, d]\<rparr> 1 s [EvRegisterMem 1 d DRAM_SEG NIXL_SUCCESS 7]
   in st = NIXL_SUCCESS \<and> reg_bal h' 1 7 = held s' 1 7 - 1"
proof -
  define s where "s = \<lparr>memToBackend = (\<lambda>m. if m = DRAM_SEG then [1] else []), sectionMap = ex_secs DRAM_SEG\<rparr>"
  define d :: nixlBlobDesc where "d = \<lparr>addr = 0, len = 64, devId = 0, metaInfo = []\<rparr>"
  let ?t = "\<lparr>getType = DRAM_SEG, descs = [ex_region 0 7]\<rparr>" and ?h = "[EvRegisterMem 1 d DRAM_SEG NIXL_SUCCESS 7]"
  have wf: "sections_wf s"
    by (auto simp: s_def sections_wf_def ex_secs_def om_ordered_def sec_wf_def sec_sorted_def ex_region_def split: if_splits)
  have at: "section_at s DRAM_SEG 1 = Some ?t" by (simp add: s_def ex_secs_def)
  have "sec_sorted ?t" "basic (ex_region 0 7) = basic d" "normalizeQuery ?t (basic d) = basic d"
    by (simp_all add: sec_sorted_def ex_region_def d_def normalizeQuery_def nixlBasicDesc.truncate_def)
  then have idx: "sec_getIndex ?t (basic d) = int 0"
    using sec_getIndex_cases [of ?t "basic d"] by auto
  have "reg_bal ?h 1 (metadataP (descs ?t ! 0)) = held s 1 (metadataP (descs ?t ! 0))"
    by (simp add: held_def s_def ex_secs_def md_count_def ex_region_def)
  from duplicate_deregistration [OF wf _ at idx this] show ?thesis
    unfolding Let_def s_def [symmetric] d_def [symmetric] by (simp add: ex_region_def)
qed

text \<open>The memory type of a received section is used as an array index unchecked: for every type
  above \<open>FILE_SEG\<close> there are bytes a peer can send that make \<open>loadRemoteData\<close> succeed and store
  a backend in the slot of that index, outside the five-element array.\<close>

theorem remote_type_out_of_bounds:
  assumes "m > FILE_SEG"
  shows "\<exists>bytes sd' s' h'. loadRemoteData ex_env g [(''UCX'', 1)] (snd (importStr bytes serdes_new)) (remote_section_new ag) [] =
      (NIXL_SUCCESS, sd', s', h') \<and> memToBackend s' m = [1] \<and> queryBackends m s' = None"
proof -
  let ?sd = "serdes_new\<lparr>workingStr := serdes_magic @ sections_image ex_env (ex_secs m)\<rparr>"
  have "memToBackend (put_section m 1 l (emplace m 1 (remote_section_new ag))) m = [1]" for l
    by (simp add: put_section_def emplace_def remote_section_new_def set_emplace_def insort_insert_key_def)
  with ex_received [of "received ?sd" m g ag] assms show ?thesis
    by (fastforce simp: received_def queryBackends_def)
qed

theorem remote_type_out_of_bounds_witness:
  "\<exists>bytes sd' s' h'. loadRemoteData ex_env DRAM_SEG [(''UCX'', 1)] (snd (importStr bytes serdes_new)) (remote_section_new ''p'') [] =
      (NIXL_SUCCESS, sd', s', h') \<and> memToBackend s' 1000 = [1] \<and> queryBackends 1000 s' = None"
  by (rule remote_type_out_of_bounds) (simp add: FILE_SEG_def)

subsection \<open>Loopback metadata\<close>

lemma loadLocalData_wf:
  assumes "sections_wf s" and "sec_wf l" and "loadLocalData l e s = (st, s')"
  shows "sections_wf s'"
proof (cases "isEmpty l")
  case False
  define m where "m = getType l"
  obtain t where t: "section_at (emplace m e s) m e = Some t" by (cases "section_at s m e") simp_all
  note wf = emplace_wf [OF assms(1), of m e]
  note tw = sections_wfD(2,3) [OF wf t]
  have "normalizeSecDesc t d = d" if "d \<in> set (descs l)" for d
    using that assms(2) tw(1) by (intro normalize_id) (auto simp: sec_wf_def usesUnboundedLen_def m_def)
  then have "map (normalizeSecDesc t) (descs l) = descs l" by (simp add: map_idI)
  then have "batch_ready (descs l) SORTED t"
    using assms(2) by (simp add: batch_ready_def sec_wf_def sec_sorted_def)
  from addDescs_wf [OF tw(2) this] have "sec_wf (addDescs_list l t)" "getType (addDescs_list l t) = m"
    using tw(1) by (simp_all add: addDescs_list_def)
  moreover have "s' = put_section m e (addDescs_list l t) (emplace m e s)"
    using assms(3) False t by (auto simp: loadLocalData_def Let_def m_def)
  ultimately show ?thesis using wf t by auto
qed (use assms in \<open>auto simp: loadLocalData_def\<close>)

lemma removeLocalData_wf:
  assumes "sections_wf s" and "removeLocalData elms e s h = (s', h')"
  shows "sections_wf s'"
proof (cases "section_at s (getType elms) e")
  case (Some t)
  note tw = sections_wfD(2,3) [OF assms(1) Some]
  from replaced_section(1) [OF assms(1) Some remDescs_wf [OF tw(2)] getType_ops(4) refl] assms(2) Some
  show ?thesis by (auto simp: removeLocalData_def Let_def)
qed (use assms in \<open>auto simp: removeLocalData_def\<close>)

end
