(* ===== verification/Nixl_Agent.thy ===== *)
theory Nixl_Agent
  imports Nixl_Sections
begin

text \<open>
  The agent (\<open>nixlAgentData\<close> in \<open>src/core/agent_data.h\<close>, \<open>nixlAgent\<close> in \<open>src/core/nixl_agent.cpp\<close>):
  its state, backend creation, memory registration and destruction. Public methods hold the
  agent's lock for their whole body (shared for the data path), so each is one step here. The
  registration accounts of the local section carry over to the agent, across every operation.
\<close>

text \<open>Optional arguments of the public methods; a backend handle is the engine it wraps.\<close>

record nixl_opt_args_t =
  backends :: "engine list"
  notif :: "blob option"
  notifMsg :: blob
  hasNotif :: bool
  customParam :: blob
  skipDescMerge :: bool
  includeConnInfo :: bool
  ipAddr :: string
  port :: int
  metadataLabel :: string

definition opt_args_default :: nixl_opt_args_t where
  "opt_args_default = \<lparr>backends = [], notif = None, notifMsg = [], hasNotif = False, customParam = [],
     skipDescMerge = False, includeConnInfo = False, ipAddr = [], port = 8888, metadataLabel = []\<rparr>"

text \<open>A remote section is owned by a shared pointer per registration generation; handles keep weak
  references. The generation is a number that is never used again.\<close>

type_synonym generation = nat

record nixlAgentData =
  agName :: string
  notifEngines :: "engine list"
  agMemToBackend :: "nixl_mem_t \<Rightarrow> engine list"
  mvhToEngine :: "(mvh_ptr \<times> engine) list"
  remoteBackends :: "(string \<times> (nixl_backend_t \<times> blob) list) list"
  telemetryOn :: bool
  errorLog :: "nixl_status_t list"
  memLog :: "(bool \<times> u64) list"
  xferLog :: "(nat \<times> bool \<times> u64 \<times> nat) list"
  backendHandles :: "(nixl_backend_t \<times> engine) list"
  connMd :: "(nixl_backend_t \<times> blob) list"
  backendEngines :: backend_map_t
  remoteSections :: "(string \<times> generation \<times> nixlRemoteSection) list"
  nextGen :: generation
  localSection :: nixlLocalSection
  hist :: bhist

datatype agent_error = InvalidArgument

definition agent_new :: "string \<Rightarrow> bool option \<Rightarrow> bool \<Rightarrow> agent_error + nixlAgentData" where
  "agent_new name telemetry_enabled captureTelemetry =
     (if name = [] then Inl InvalidArgument
      else Inr \<lparr>agName = name, notifEngines = [], agMemToBackend = (\<lambda>_. []), mvhToEngine = [], remoteBackends = [],
        telemetryOn = (case telemetry_enabled of Some b \<Rightarrow> b | None \<Rightarrow> captureTelemetry),
        errorLog = [], memLog = [], xferLog = [], backendHandles = [], connMd = [], backendEngines = [],
        remoteSections = [], nextGen = 0, localSection = mem_section_new, hist = []\<rparr>)"

definition addErrorTelemetry :: "nixl_status_t \<Rightarrow> nixlAgentData \<Rightarrow> nixlAgentData" where
  "addErrorTelemetry st a = (if telemetryOn a then a\<lparr>errorLog := st # errorLog a\<rparr> else a)"

subsection \<open>Backends\<close>

definition illegal_plugin_combinations :: "string list list" where
  "illegal_plugin_combinations = [[''GDS'', ''GDS_MT'']]"

definition illegal_combination :: "nixl_backend_t \<Rightarrow> nixlAgentData \<Rightarrow> bool" where
  "illegal_combination type a \<longleftrightarrow>
     (\<exists>combination \<in> set illegal_plugin_combinations. type \<in> set combination \<and>
        (\<exists>plugin_name \<in> set combination. plugin_name \<noteq> type \<and> map_of (backendEngines a) plugin_name \<noteq> None))"

definition push_mems :: "engine \<Rightarrow> nixl_mem_t list \<Rightarrow> (nixl_mem_t \<Rightarrow> engine list) \<Rightarrow> nixl_mem_t \<Rightarrow> engine list" where
  "push_mems e mems f = fold (\<lambda>m f. f(m := f m @ [e])) mems f"

text \<open>The three queries a new engine has to answer before it is installed; a failed one destroys
  the engine when its owning pointer goes out of scope.\<close>

definition vet_backend :: "benv \<Rightarrow> string \<Rightarrow> engine \<Rightarrow> bhist \<Rightarrow> nixl_status_t \<times> blob \<times> bhist" where
  "vet_backend env self e h =
     (if on_getInitErr env e then (NIXL_ERR_BACKEND, [], h)
      else if supportsRemote env e \<and> \<not> supportsNotif env e then (NIXL_ERR_BACKEND, [], h)
      else let (ret, conn_info, h) = (if supportsRemote env e then bk_getConnInfo env e h else (NIXL_SUCCESS, [], h))
           in if ret \<noteq> NIXL_SUCCESS then (ret, [], h)
              else if supportsLocal env e
              then let (ret, h) = bk_connect env e self h in (ret, conn_info, h)
              else (NIXL_SUCCESS, conn_info, h))"

definition createBackend :: "benv \<Rightarrow> nixl_backend_t \<Rightarrow> nixlAgentData \<Rightarrow> nixl_status_t \<times> engine \<times> nixlAgentData" where
  "createBackend env type a =
     (if map_of (backendEngines a) type \<noteq> None then (NIXL_ERR_INVALID_PARAM, 0, a)
      else if illegal_combination type a then (NIXL_ERR_NOT_ALLOWED, 0, a)
      else case on_createEngine env (hist a) type of
        None \<Rightarrow> (NIXL_ERR_NOT_FOUND, 0, a)
      | Some e \<Rightarrow>
          if e = 0 then (NIXL_ERR_BACKEND, 0, a)
          else let (ret, conn_info, h) = vet_backend env (agName a) e (EvCreateEngine type e # hist a)
               in if ret \<noteq> NIXL_SUCCESS then (ret, 0, a\<lparr>hist := EvDestroyEngine e # h\<rparr>)
                  else let a = a\<lparr>agMemToBackend := push_mems e (getSupportedMems env e) (agMemToBackend a), hist := h\<rparr>;
                           a = (if supportsRemote env e
                                then a\<lparr>notifEngines := notifEngines a @ [e], connMd := um_update type conn_info (connMd a)\<rparr>
                                else a)
                       in (NIXL_SUCCESS, e, a\<lparr>backendHandles := um_update type e (backendHandles a),
                             backendEngines := um_update type e (backendEngines a)\<rparr>))"

definition getBackendParams :: "benv \<Rightarrow> engine option \<Rightarrow> nixl_status_t \<times> nixl_mem_t list" where
  "getBackendParams env backend =
     (case backend of None \<Rightarrow> (NIXL_ERR_INVALID_PARAM, []) | Some e \<Rightarrow> (NIXL_SUCCESS, getSupportedMems env e))"

subsection \<open>Registration\<close>

definition total_size :: "nixl_reg_dlist_t \<Rightarrow> u64" where
  "total_size ds = foldl (\<lambda>s d. s + len d) 0 (descs ds)"

text \<open>\<open>try_emplace\<close> on the section map of the agent's own name.\<close>

definition remote_section_of :: "string \<Rightarrow> nixlAgentData \<Rightarrow> generation \<times> nixlRemoteSection \<times> nixlAgentData" where
  "remote_section_of ag a =
     (case map_of (remoteSections a) ag of
        Some (g, s) \<Rightarrow> (g, s, a)
      | None \<Rightarrow> let s = remote_section_new ag; g = nextGen a
                in (g, s, a\<lparr>remoteSections := um_update ag (g, s) (remoteSections a), nextGen := Suc g\<rparr>))"

definition put_remote :: "string \<Rightarrow> generation \<Rightarrow> nixlRemoteSection \<Rightarrow> nixlAgentData \<Rightarrow> nixlAgentData" where
  "put_remote ag g s a = a\<lparr>remoteSections := um_update ag (g, s) (remoteSections a)\<rparr>"

definition register_one :: "benv \<Rightarrow> nixl_reg_dlist_t \<Rightarrow> engine \<Rightarrow> nixlAgentData \<Rightarrow> bool \<times> nixlAgentData" where
  "register_one env ds e a =
     (let (ret, sec_descs, ls, h) = local_addDescList env ds e \<lparr>getType = getType ds, descs = []\<rparr> (localSection a) (hist a);
          a = a\<lparr>localSection := ls, hist := h\<rparr>
      in if ret \<noteq> NIXL_SUCCESS then (False, a)
         else if supportsLocal env e
         then let (g, rs, a) = remote_section_of (agName a) a;
                  (ret, rs) = loadLocalData sec_descs e rs;
                  a = put_remote (agName a) g rs a
              in if ret = NIXL_SUCCESS then (True, a)
                 else let (_, ls, h) = local_remDescList ds e (localSection a) (hist a)
                      in (False, a\<lparr>localSection := ls, hist := h\<rparr>)
         else (True, a))"

fun register_each :: "benv \<Rightarrow> nixl_reg_dlist_t \<Rightarrow> engine list \<Rightarrow> nat \<Rightarrow> nixlAgentData \<Rightarrow> nat \<times> nixlAgentData" where
  "register_each env ds [] n a = (n, a)"
| "register_each env ds (e # es) n a =
     (let (ok, a) = register_one env ds e a in register_each env ds es (if ok then n + 1 else n) a)"

abbreviation no_backends :: "nixl_opt_args_t option \<Rightarrow> bool" where
  "no_backends extra \<equiv> (case extra of None \<Rightarrow> True | Some x \<Rightarrow> backends x = [])"

definition registerMem :: "benv \<Rightarrow> nixl_reg_dlist_t \<Rightarrow> nixl_opt_args_t option \<Rightarrow> nixlAgentData \<Rightarrow> nixl_status_t \<times> nixlAgentData" where
  "registerMem env ds extra a =
     (let backend_list = (if no_backends extra then agMemToBackend a (getType ds) else backends (the extra))
      in if no_backends extra \<and> backend_list = [] then (NIXL_ERR_NOT_FOUND, a)
         else let (n, a) = register_each env ds backend_list 0 a
              in if n > 0
                 then (NIXL_SUCCESS, if telemetryOn a then a\<lparr>memLog := (True, total_size ds) # memLog a\<rparr> else a)
                 else (NIXL_ERR_BACKEND, a))"

definition deregister_one :: "benv \<Rightarrow> nixl_reg_dlist_t \<Rightarrow> engine \<Rightarrow> nixlAgentData \<Rightarrow> nixl_status_t \<times> nixlAgentData" where
  "deregister_one env ds e a =
     (let a = (if supportsLocal env e
               then case map_of (remoteSections a) (agName a) of
                      None \<Rightarrow> a
                    | Some (g, rs) \<Rightarrow> let (rs, h) = removeLocalData ds e rs (hist a)
                                      in put_remote (agName a) g rs (a\<lparr>hist := h\<rparr>)
               else a);
          (ret, ls, h) = local_remDescList ds e (localSection a) (hist a)
      in (ret, a\<lparr>localSection := ls, hist := h\<rparr>))"

fun deregister_each :: "benv \<Rightarrow> nixl_reg_dlist_t \<Rightarrow> engine list \<Rightarrow> nixl_status_t \<Rightarrow> nixlAgentData \<Rightarrow> nixl_status_t \<times> nixlAgentData" where
  "deregister_each env ds [] bad a = (bad, a)"
| "deregister_each env ds (e # es) bad a =
     (let (ret, a) = deregister_one env ds e a
      in deregister_each env ds es (if ret \<noteq> NIXL_SUCCESS then ret else bad) a)"

definition set_of_handles :: "engine list \<Rightarrow> engine list" where
  "set_of_handles hs = fold set_emplace hs []"

definition deregisterMem :: "benv \<Rightarrow> nixl_reg_dlist_t \<Rightarrow> nixl_opt_args_t option \<Rightarrow> nixlAgentData \<Rightarrow> nixl_status_t \<times> nixlAgentData" where
  "deregisterMem env ds extra a =
     (let avail = queryBackends (getType ds) (localSection a)
      in if no_backends extra \<and> (avail = None \<or> avail = Some []) then (NIXL_ERR_NOT_FOUND, a)
         else let backend_set = (if no_backends extra then the avail else set_of_handles (backends (the extra)));
                  (bad, a) = deregister_each env ds backend_set NIXL_SUCCESS a
              in (bad, if bad = NIXL_SUCCESS \<and> telemetryOn a then a\<lparr>memLog := (False, total_size ds) # memLog a\<rparr> else a))"

subsection \<open>Destruction\<close>

text \<open>Members are destroyed in the reverse order of their declaration: the local section, the remote
  sections, then the engines.\<close>

definition destroy_engines :: "backend_map_t \<Rightarrow> bhist \<Rightarrow> bhist" where
  "destroy_engines es h = fold (\<lambda>(t, e) h. EvDestroyEngine e # h) es h"

definition agent_destroy :: "nixlAgentData \<Rightarrow> bhist" where
  "agent_destroy a =
     destroy_engines (backendEngines a)
       (fold (\<lambda>(ag, g, s) h. remote_destroy s h) (remoteSections a) (local_destroy (localSection a) (hist a)))"

subsection \<open>The agent's invariant\<close>

text \<open>Remote sections are well formed, filed under the name of their agent, and each has a
  generation of its own.\<close>

definition remotes_wf :: "nixlAgentData \<Rightarrow> bool" where
  "remotes_wf a \<longleftrightarrow> distinct (map fst (remoteSections a)) \<and>
     (\<forall>ag g s. map_of (remoteSections a) ag = Some (g, s) \<longrightarrow> sections_wf s \<and> agentName s = ag \<and> g < nextGen a) \<and>
     (\<forall>ag ag' g s s'. map_of (remoteSections a) ag = Some (g, s) \<longrightarrow> map_of (remoteSections a) ag' = Some (g, s') \<longrightarrow> ag = ag')"

text \<open>The bookkeeping of backends agrees: handles and engines have the same types, connection data
  exists exactly for the engines that support remote operation, the notification engines are those
  engines, no illegal combination is installed, and connection info of a remote agent is only kept
  for backends this agent has.\<close>

definition backends_wf :: "benv \<Rightarrow> nixlAgentData \<Rightarrow> bool" where
  "backends_wf env a \<longleftrightarrow>
     map_of (backendHandles a) = map_of (backendEngines a) \<and>
     (\<forall>t e. map_of (backendEngines a) t = Some e \<longrightarrow> e \<noteq> 0 \<and> engineType env e = t) \<and>
     (\<forall>t. map_of (connMd a) t \<noteq> None \<longleftrightarrow> (\<exists>e. map_of (backendEngines a) t = Some e \<and> supportsRemote env e)) \<and>
     (\<forall>e. e \<in> set (notifEngines a) \<longleftrightarrow> (\<exists>t. map_of (backendEngines a) t = Some e \<and> supportsRemote env e)) \<and>
     (\<forall>e \<in> set (notifEngines a). supportsNotif env e) \<and>
     (map_of (backendEngines a) ''GDS'' = None \<or> map_of (backendEngines a) ''GDS_MT'' = None) \<and>
     (\<forall>ag m t. map_of (remoteBackends a) ag = Some m \<longrightarrow> map_of m t \<noteq> None \<longrightarrow> map_of (backendEngines a) t \<noteq> None)"

definition regs_balanced :: "nixlAgentData \<Rightarrow> bool" where
  "regs_balanced a \<longleftrightarrow> sections_wf (localSection a) \<and> (\<forall>e md. reg_bal (hist a) e md = held (localSection a) e md)"

definition agent_inv :: "benv \<Rightarrow> nixlAgentData \<Rightarrow> bool" where
  "agent_inv env a \<longleftrightarrow> remotes_wf a \<and> backends_wf env a \<and> regs_balanced a"

lemma agent_new_inv: "agent_new name te ct = Inr a \<Longrightarrow> agent_inv env a"
  by (auto simp: agent_new_def agent_inv_def remotes_wf_def backends_wf_def regs_balanced_def sections_wf_new
      held_def mem_section_new_def sections_wf_def om_ordered_def split: if_splits)

lemma backends_wf_cong:
  assumes "backends_wf env a" and "backendHandles a' = backendHandles a" "backendEngines a' = backendEngines a"
    "connMd a' = connMd a" "notifEngines a' = notifEngines a" "remoteBackends a' = remoteBackends a"
  shows "backends_wf env a'"
  using assms by (simp add: backends_wf_def)

lemma remotes_wf_cong:
  assumes "remotes_wf a" and "remoteSections a' = remoteSections a" "nextGen a' = nextGen a"
  shows "remotes_wf a'"
  using assms by (simp add: remotes_wf_def)

lemma regs_balanced_cong:
  assumes "regs_balanced a" and "localSection a' = localSection a" "\<And>e md. reg_bal (hist a') e md = reg_bal (hist a) e md"
  shows "regs_balanced a'"
  using assms by (simp add: regs_balanced_def)

lemma agentName_new [simp]: "agentName (remote_section_new ag) = ag"
  by (simp add: remote_section_new_def)

lemma remote_section_of_spec:
  assumes "remote_section_of ag a = (g, s, a')" and "remotes_wf a"
  shows "remotes_wf a'" and "map_of (remoteSections a') ag = Some (g, s)" and "sections_wf s" and "agentName s = ag"
    and "a' = a\<lparr>remoteSections := remoteSections a', nextGen := nextGen a'\<rparr>"
proof -
  have "remotes_wf a' \<and> map_of (remoteSections a') ag = Some (g, s) \<and> sections_wf s \<and> agentName s = ag \<and>
    a' = a\<lparr>remoteSections := remoteSections a', nextGen := nextGen a'\<rparr>"
  proof (cases "map_of (remoteSections a) ag")
    case None
    have "remotes_wf (a\<lparr>remoteSections := um_update ag (nextGen a, remote_section_new ag) (remoteSections a), nextGen := Suc (nextGen a)\<rparr>)"
      using assms(2) by (fastforce simp: remotes_wf_def sections_wf_new(2) split: if_splits)
    with None assms(1) show ?thesis
      by (auto simp: remote_section_of_def Let_def sections_wf_new)
  next
    case (Some gs)
    with assms show ?thesis by (cases gs) (auto simp: remote_section_of_def remotes_wf_def)
  qed
  then show "remotes_wf a'" "map_of (remoteSections a') ag = Some (g, s)" "sections_wf s" "agentName s = ag"
    "a' = a\<lparr>remoteSections := remoteSections a', nextGen := nextGen a'\<rparr>" by auto
qed

lemma put_remote_wf:
  assumes "remotes_wf a" and "map_of (remoteSections a) ag = Some (g, s0)" and "sections_wf s" and "agentName s = ag"
  shows "remotes_wf (put_remote ag g s a)"
  using assms unfolding remotes_wf_def put_remote_def by (auto split: if_splits) metis

lemma agentName_ops [simp]:
  "agentName (emplace m e s) = agentName s" "agentName (put_section m e l s) = agentName s"
  "agentName (erase_section m e s) = agentName s"
  by (simp_all add: emplace_def put_section_def erase_section_def split: option.split)

lemma loadLocalData_agent: "loadLocalData l e s = (st, s') \<Longrightarrow> agentName s' = agentName s"
  by (auto simp: loadLocalData_def Let_def split: if_splits)

lemma removeLocalData_agent: "removeLocalData ds e s h = (s', h') \<Longrightarrow> agentName s' = agentName s"
  by (auto simp: removeLocalData_def Let_def split: if_splits option.splits)

lemma unload_all_reg_bal: "reg_bal (unload_all e mds h) e' md = reg_bal h e' md"
  by (induction mds arbitrary: h) (simp_all add: bk_unloadMD_def)

lemma removeLocalData_reg_bal: "removeLocalData ds e s h = (s', h') \<Longrightarrow> reg_bal h' e' md = reg_bal h e' md"
  by (auto simp: removeLocalData_def Let_def unload_all_reg_bal split: option.splits)

subsection \<open>Every operation keeps the invariant\<close>

text \<open>The fields registration does not touch.\<close>

definition same_backends :: "nixlAgentData \<Rightarrow> nixlAgentData \<Rightarrow> bool" where
  "same_backends a a' \<longleftrightarrow> agName a' = agName a \<and> backendHandles a' = backendHandles a \<and> backendEngines a' = backendEngines a \<and>
     connMd a' = connMd a \<and> notifEngines a' = notifEngines a \<and> remoteBackends a' = remoteBackends a"

lemma same_backends_wf: "same_backends a a' \<Longrightarrow> backends_wf env a \<Longrightarrow> backends_wf env a'"
  by (rule backends_wf_cong) (simp_all add: same_backends_def)

lemma register_one_inv:
  assumes "remotes_wf a" "regs_balanced a" and "distinct_elms ds" and "register_one env ds e a = (ok, a')"
  shows "remotes_wf a' \<and> regs_balanced a' \<and> same_backends a a'"
proof -
  let ?empty = "\<lparr>getType = getType ds, descs = []\<rparr> :: nixlSecDescList"
  obtain ret sl ls h where add: "local_addDescList env ds e ?empty (localSection a) (hist a) = (ret, sl, ls, h)"
    by (metis prod.exhaust)
  define a1 where "a1 = a\<lparr>localSection := ls, hist := h\<rparr>"
  have wf: "sections_wf (localSection a)" using assms(2) by (simp add: regs_balanced_def)
  note acc = local_addDescList_account [OF wf add]
  have a1: "remotes_wf a1" "regs_balanced a1" "same_backends a a1"
    using assms(1,2) acc(1) acc(2) by (auto simp: a1_def regs_balanced_def same_backends_def intro: remotes_wf_cong)
  show ?thesis
  proof (cases "ret = NIXL_SUCCESS \<and> supportsLocal env e")
    case False
    then have "a' = a1" using assms(4) add by (auto simp: register_one_def a1_def Let_def split: if_splits)
    with a1 show ?thesis by simp
  next
    case True
    obtain g rs a2 where ra: "remote_section_of (agName a1) a1 = (g, rs, a2)" by (metis prod.exhaust)
    obtain ret2 rs' where ld: "loadLocalData sl e rs = (ret2, rs')" by fastforce
    note r = remote_section_of_spec [OF ra a1(1)]
    define a3 where "a3 = put_remote (agName a2) g rs' a2"
    have name: "agName a2 = agName a1" by (subst r(5)) simp
    have "sections_wf rs'" using loadLocalData_wf [OF r(3) _ ld] acc(3) by simp
    moreover have "agentName rs' = agName a2" using loadLocalData_agent [OF ld] r(4) name by simp
    ultimately have a3: "remotes_wf a3"
      unfolding a3_def using r(1,2) name by (intro put_remote_wf) auto
    have rest: "localSection a3 = localSection a1" "hist a3 = hist a1" "same_backends a1 a3"
      unfolding a3_def same_backends_def by (subst r(5), simp add: put_remote_def)+
    have bal3: "regs_balanced a3" using a1(2) rest by (auto intro: regs_balanced_cong)
    obtain ret3 ls3 h3 where rem: "local_remDescList ds e (localSection a3) (hist a3) = (ret3, ls3, h3)" by (metis prod.exhaust)
    have "sections_wf (localSection a3)" using bal3 by (simp add: regs_balanced_def)
    note acc3 = local_remDescList_account [OF this rem]
    have "a' = (if ret2 = NIXL_SUCCESS then a3 else a3\<lparr>localSection := ls3, hist := h3\<rparr>)"
      using assms(4) add True ra ld rem by (simp add: register_one_def a1_def a3_def Let_def split: if_splits)
    then show ?thesis
      using a1(3) a3 bal3 rest(3) acc3(1) acc3(2) [OF assms(3)]
      by (auto simp: same_backends_def regs_balanced_def intro: remotes_wf_cong)
  qed
qed

lemma register_each_inv:
  assumes "remotes_wf a" "regs_balanced a" and "distinct_elms ds" and "register_each env ds es n a = (n', a')"
  shows "remotes_wf a' \<and> regs_balanced a' \<and> same_backends a a'"
  using assms
proof (induction es arbitrary: n a)
  case (Cons e es)
  obtain ok a1 where one: "register_one env ds e a = (ok, a1)" by fastforce
  note i = register_one_inv [OF Cons.prems(1-3) one]
  have "register_each env ds es (if ok then n + 1 else n) a1 = (n', a')"
    using Cons.prems(4) one by simp
  from Cons.IH [OF _ _ Cons.prems(3) this] i show ?case by (simp add: same_backends_def)
qed (simp add: same_backends_def)

lemma registerMem_inv:
  assumes "agent_inv env a" and "distinct_elms ds" and "registerMem env ds extra a = (st, a')"
  shows "agent_inv env a'"
proof -
  have "remotes_wf a' \<and> regs_balanced a' \<and> same_backends a a'"
  proof (cases "a' = a")
    case False
    then obtain es n a1 where r: "register_each env ds es 0 a = (n, a1)"
      and a': "a' = a1 \<or> a' = a1\<lparr>memLog := (True, total_size ds) # memLog a1\<rparr>"
      using assms(3) by (auto simp: registerMem_def Let_def split: if_splits prod.splits)
    from register_each_inv [OF _ _ assms(2) r] assms(1) a' show ?thesis
      by (auto simp: agent_inv_def same_backends_def intro: remotes_wf_cong regs_balanced_cong)
  qed (use assms(1) in \<open>simp add: agent_inv_def same_backends_def\<close>)
  with assms(1) show ?thesis by (auto simp: agent_inv_def intro: same_backends_wf)
qed

lemma deregister_one_inv:
  assumes "remotes_wf a" "regs_balanced a" and "distinct_elms ds" and "deregister_one env ds e a = (ret, a')"
  shows "remotes_wf a' \<and> regs_balanced a' \<and> same_backends a a'"
proof -
  define a1 where "a1 = (if supportsLocal env e
    then case map_of (remoteSections a) (agName a) of
           None \<Rightarrow> a
         | Some (g, rs) \<Rightarrow> let (rs, h) = removeLocalData ds e rs (hist a) in put_remote (agName a) g rs (a\<lparr>hist := h\<rparr>)
    else a)"
  have a1: "remotes_wf a1 \<and> regs_balanced a1 \<and> same_backends a a1"
  proof (cases "supportsLocal env e \<and> map_of (remoteSections a) (agName a) \<noteq> None")
    case True
    then obtain g rs where m: "map_of (remoteSections a) (agName a) = Some (g, rs)" by auto
    obtain rs' h where r: "removeLocalData ds e rs (hist a) = (rs', h)" by fastforce
    have a1: "a1 = put_remote (agName a) g rs' (a\<lparr>hist := h\<rparr>)" using True m r by (simp add: a1_def)
    have rs: "sections_wf rs" "agentName rs = agName a" using assms(1) m by (auto simp: remotes_wf_def)
    have "remotes_wf (a\<lparr>hist := h\<rparr>)" using assms(1) by (rule remotes_wf_cong) simp_all
    then have "remotes_wf a1"
      unfolding a1 using m removeLocalData_wf [OF rs(1) r] removeLocalData_agent [OF r] rs(2)
      by (intro put_remote_wf [where ?s0.0 = rs]) simp_all
    moreover have "regs_balanced a1"
      using assms(2) by (rule regs_balanced_cong) (simp_all add: a1 put_remote_def removeLocalData_reg_bal [OF r])
    ultimately show ?thesis by (simp add: a1 put_remote_def same_backends_def)
  next
    case False
    then have "a1 = a" unfolding a1_def by (auto split: option.splits)
    with assms(1,2) show ?thesis by (simp add: same_backends_def)
  qed
  obtain st ls h where rem: "local_remDescList ds e (localSection a1) (hist a1) = (st, ls, h)" by (metis prod.exhaust)
  have "sections_wf (localSection a1)" using a1 by (simp add: regs_balanced_def)
  note acc = local_remDescList_account [OF this rem]
  have "a' = a1\<lparr>localSection := ls, hist := h\<rparr>"
    using assms(4) rem unfolding deregister_one_def a1_def [symmetric] by simp
  with a1 acc(1) acc(2) [OF assms(3)] show ?thesis
    by (auto simp: regs_balanced_def same_backends_def intro: remotes_wf_cong)
qed

lemma deregister_each_inv:
  assumes "remotes_wf a" "regs_balanced a" and "distinct_elms ds" and "deregister_each env ds es bad a = (ret, a')"
  shows "remotes_wf a' \<and> regs_balanced a' \<and> same_backends a a'"
  using assms
proof (induction es arbitrary: bad a)
  case (Cons e es)
  obtain st a1 where one: "deregister_one env ds e a = (st, a1)" by fastforce
  note i = deregister_one_inv [OF Cons.prems(1-3) one]
  have "deregister_each env ds es (if st \<noteq> NIXL_SUCCESS then st else bad) a1 = (ret, a')"
    using Cons.prems(4) one by simp
  from Cons.IH [OF _ _ Cons.prems(3) this] i show ?case by (simp add: same_backends_def)
qed (simp add: same_backends_def)

lemma deregisterMem_inv:
  assumes "agent_inv env a" and "distinct_elms ds" and "deregisterMem env ds extra a = (st, a')"
  shows "agent_inv env a'"
proof -
  have "remotes_wf a' \<and> regs_balanced a' \<and> same_backends a a'"
  proof (cases "a' = a")
    case False
    then obtain es bad a1 where r: "deregister_each env ds es NIXL_SUCCESS a = (bad, a1)"
      and a': "a' = a1 \<or> a' = a1\<lparr>memLog := (False, total_size ds) # memLog a1\<rparr>"
      using assms(3) by (auto simp: deregisterMem_def Let_def split: if_splits prod.splits)
    from deregister_each_inv [OF _ _ assms(2) r] assms(1) a' show ?thesis
      by (auto simp: agent_inv_def same_backends_def intro: remotes_wf_cong regs_balanced_cong)
  qed (use assms(1) in \<open>simp add: agent_inv_def same_backends_def\<close>)
  with assms(1) show ?thesis by (auto simp: agent_inv_def intro: same_backends_wf)
qed

text \<open>The plugin manager hands out engines of the type it was asked for.\<close>

definition creates_typed :: "benv \<Rightarrow> bool" where
  "creates_typed env \<longleftrightarrow> (\<forall>h t e. on_createEngine env h t = Some e \<longrightarrow> engineType env e = t)"

lemma vet_backend_spec:
  assumes "vet_backend env self e h = (ret, conn, h')"
  shows "reg_bal h' e' md = reg_bal h e' md" and "ret = NIXL_SUCCESS \<Longrightarrow> supportsRemote env e \<Longrightarrow> supportsNotif env e"
  using assms by (auto simp: vet_backend_def bk_getConnInfo_def bk_connect_def Let_def split: if_splits prod.splits)

lemma illegal_combination_gds:
  "illegal_combination ''GDS'' a \<longleftrightarrow> map_of (backendEngines a) ''GDS_MT'' \<noteq> None"
  "illegal_combination ''GDS_MT'' a \<longleftrightarrow> map_of (backendEngines a) ''GDS'' \<noteq> None"
  by (simp_all add: illegal_combination_def illegal_plugin_combinations_def)

lemma createBackend_cases:
  assumes "createBackend env type a = (st, e, a')"
  obtains "a' = a" "st \<noteq> NIXL_SUCCESS"
  | e' conn h where "vet_backend env (agName a) e' (EvCreateEngine type e' # hist a) = (st, conn, h)" "st \<noteq> NIXL_SUCCESS"
      "a' = a\<lparr>hist := EvDestroyEngine e' # h\<rparr>"
  | conn h where "st = NIXL_SUCCESS" "map_of (backendEngines a) type = None" "\<not> illegal_combination type a" "e \<noteq> 0"
      "on_createEngine env (hist a) type = Some e"
      "vet_backend env (agName a) e (EvCreateEngine type e # hist a) = (NIXL_SUCCESS, conn, h)"
      "a' = (if supportsRemote env e
       then a\<lparr>agMemToBackend := push_mems e (getSupportedMems env e) (agMemToBackend a), hist := h,
         notifEngines := notifEngines a @ [e], connMd := um_update type conn (connMd a)\<rparr>
       else a\<lparr>agMemToBackend := push_mems e (getSupportedMems env e) (agMemToBackend a), hist := h\<rparr>)
       \<lparr>backendHandles := um_update type e (backendHandles a), backendEngines := um_update type e (backendEngines a)\<rparr>"
proof (cases "map_of (backendEngines a) type \<noteq> None \<or> illegal_combination type a \<or>
    on_createEngine env (hist a) type = None \<or> on_createEngine env (hist a) type = Some 0")
  case True
  with assms that(1) show ?thesis by (auto simp: createBackend_def split: if_splits)
next
  case False
  then obtain e' where e': "on_createEngine env (hist a) type = Some e'" "e' \<noteq> 0" by auto
  obtain ret conn h where v: "vet_backend env (agName a) e' (EvCreateEngine type e' # hist a) = (ret, conn, h)"
    by (metis prod.exhaust)
  show ?thesis
  proof (cases "ret = NIXL_SUCCESS")
    case True
    have "e = e'" "st = NIXL_SUCCESS"
      using assms False e' v True by (simp_all add: createBackend_def Let_def split: if_splits)
    with assms False e' v True that(3) [of conn h] show ?thesis
      by (cases "supportsRemote env e'") (simp_all add: createBackend_def Let_def)
  next
    case ret: False
    with assms False e' v that(2) [of e' conn h] show ?thesis
      by (simp add: createBackend_def Let_def)
  qed
qed

lemma createBackend_inv:
  assumes "agent_inv env a" and "creates_typed env" and "createBackend env type a = (st, e, a')"
  shows "agent_inv env a'"
  using assms(3)
proof (cases rule: createBackend_cases)
  case 1
  with assms(1) show ?thesis by simp
next
  case (2 e' conn h)
  with assms(1) vet_backend_spec(1) [OF 2(1)] show ?thesis
    by (auto simp: agent_inv_def intro: remotes_wf_cong backends_wf_cong regs_balanced_cong)
next
  case (3 conn h)
  note vet = vet_backend_spec [OF 3(6)]
  have ty: "engineType env e = type" using assms(2) 3(5) by (auto simp: creates_typed_def)
  have b: "backends_wf env a" using assms(1) by (simp add: agent_inv_def)
  have gds: "type = ''GDS'' \<Longrightarrow> map_of (backendEngines a) ''GDS_MT'' = None"
      "type = ''GDS_MT'' \<Longrightarrow> map_of (backendEngines a) ''GDS'' = None"
    using 3(3) illegal_combination_gds [of a] by auto
  have eng: "backendEngines a' = um_update type e (backendEngines a)" "backendHandles a' = um_update type e (backendHandles a)"
      "connMd a' = (if supportsRemote env e then um_update type conn (connMd a) else connMd a)"
      "notifEngines a' = (if supportsRemote env e then notifEngines a @ [e] else notifEngines a)"
      "remoteBackends a' = remoteBackends a"
    by (simp_all add: 3(7))
  have n: "x \<in> set (notifEngines a') \<longleftrightarrow> (\<exists>t. map_of (backendEngines a') t = Some x \<and> supportsRemote env x)" for x
  proof -
    have "(\<exists>t. map_of (backendEngines a') t = Some x) \<longleftrightarrow> x = e \<or> (\<exists>t. map_of (backendEngines a) t = Some x)"
      unfolding eng map_of_um_update by (metis 3(2) fun_upd_apply option.distinct(1) option.sel)
    then show ?thesis
      using b unfolding backends_wf_def eng by auto
  qed
  have "backends_wf env a'"
    unfolding backends_wf_def
  proof (intro conjI)
    show "\<forall>e \<in> set (notifEngines a'). supportsNotif env e"
      using b vet(2) by (auto simp: backends_wf_def eng)
    show "map_of (backendEngines a') ''GDS'' = None \<or> map_of (backendEngines a') ''GDS_MT'' = None"
      using b gds by (auto simp: backends_wf_def eng)
    show "\<forall>ag m t. map_of (remoteBackends a') ag = Some m \<longrightarrow> map_of m t \<noteq> None \<longrightarrow> map_of (backendEngines a') t \<noteq> None"
      using b by (fastforce simp: backends_wf_def eng)
    show "\<forall>t. map_of (connMd a') t \<noteq> None \<longleftrightarrow> (\<exists>e. map_of (backendEngines a') t = Some e \<and> supportsRemote env e)"
      using b 3(2) by (auto simp: backends_wf_def eng)
    show "\<forall>t e. map_of (backendEngines a') t = Some e \<longrightarrow> e \<noteq> 0 \<and> engineType env e = t"
      using b 3(4) ty by (auto simp: backends_wf_def eng)
    show "map_of (backendHandles a') = map_of (backendEngines a')"
      using b by (simp add: backends_wf_def eng)
  qed (use n in blast)
  moreover have "regs_balanced a'"
    using assms(1) vet(1) by (auto simp: 3(7) agent_inv_def intro: regs_balanced_cong)
  moreover have "remotes_wf a'"
    using assms(1) by (auto simp: 3(7) agent_inv_def intro: remotes_wf_cong)
  ultimately show ?thesis by (simp add: agent_inv_def)
qed

subsection \<open>Destroying an agent\<close>

lemma unload_sections_reg_bal: "reg_bal (unload_sections secs h) e md = reg_bal h e md"
proof (induction secs arbitrary: h)
  case (Cons kv secs)
  obtain m e' l where "kv = ((m, e'), l)" by (metis prod.exhaust)
  with Cons show ?case by (simp add: unload_all_reg_bal)
qed simp

lemma remote_destroy_reg_bal: "reg_bal (remote_destroy s h) e md = reg_bal h e md"
  by (simp add: remote_destroy_def unload_sections_reg_bal)

lemma agent_destroy_reg_bal:
  assumes "regs_balanced a"
  shows "reg_bal (agent_destroy a) e md = 0"
proof -
  have eng: "reg_bal (destroy_engines es h) e md = reg_bal h e md" for es h
    unfolding destroy_engines_def by (induction es arbitrary: h) auto
  have rem: "reg_bal (fold (\<lambda>(ag, g, s) h. remote_destroy s h) rs h) e md = reg_bal h e md" for rs h
    by (induction rs arbitrary: h) (auto simp: remote_destroy_reg_bal)
  show ?thesis
    using assms by (simp add: agent_destroy_def eng rem local_destroy_bal regs_balanced_def)
qed

end
