(* ===== verification/Nixl_AgentMD.thy ===== *)
theory Nixl_AgentMD
  imports Nixl_Agent "HOL-Library.List_Lexorder" "HOL-Library.Char_ord"
begin

text \<open>
  Metadata exchange of the agent (\<open>src/core/nixl_agent.cpp\<close>): the blob an agent publishes, loading
  and invalidating a peer, connections, notifications and memory views. A dereferenced null engine
  is the result \<open>None\<close>, so that its absence is a theorem.
\<close>

subsection \<open>Publishing\<close>

fun add_conns :: "(nixl_backend_t \<times> blob) list \<Rightarrow> nixlSerDes \<Rightarrow> nixl_status_t \<times> nixlSerDes" where
  "add_conns [] sd = (NIXL_SUCCESS, sd)"
| "add_conns ((t, c) # cs) sd = st_then (addStr ''t'' t sd) (\<lambda>sd. st_then (addStr ''c'' c sd) (add_conns cs))"

text \<open>Every failed write before the sections is reported as \<open>NIXL_ERR_UNKNOWN\<close>.\<close>

definition md_header :: "string \<Rightarrow> (nixl_backend_t \<times> blob) list \<Rightarrow> nixl_status_t \<times> nixlSerDes" where
  "md_header name conns =
     (let (ret, sd) = st_then (addStr ''Agent'' name serdes_new) (\<lambda>sd.
                      st_then (addBuf ''Conns'' (u64_bytes (size_of conns)) sd) (\<lambda>sd.
                      st_then (add_conns conns sd) (\<lambda>sd.
                      addStr [] ''MemSection'' sd)))
      in (if ret \<noteq> NIXL_SUCCESS then NIXL_ERR_UNKNOWN else NIXL_SUCCESS, sd))"

definition getLocalMD :: "benv \<Rightarrow> nixlAgentData \<Rightarrow> nixl_status_t \<times> blob" where
  "getLocalMD env a =
     (if connMd a = [] then (NIXL_ERR_INVALID_PARAM, [])
      else let (ret, sd) = st_then (md_header (agName a) (connMd a)) (local_serialize env (localSection a))
           in (ret, if ret = NIXL_SUCCESS then exportStr sd else []))"

fun found_conns :: "benv \<Rightarrow> engine list \<Rightarrow> nixlAgentData \<Rightarrow> (nixl_backend_t \<times> blob) list \<times> engine list" where
  "found_conns env [] a = ([], [])"
| "found_conns env (e # es) a =
     (let (its, sel) = found_conns env es a
      in case map_of (connMd a) (engineType env e) of
           None \<Rightarrow> (its, sel)
         | Some c \<Rightarrow> ((engineType env e, c) # its, set_emplace e sel))"

definition getLocalPartialMD :: "benv \<Rightarrow> nixl_reg_dlist_t \<Rightarrow> nixl_opt_args_t option \<Rightarrow> nixlAgentData \<Rightarrow> nixl_status_t \<times> blob" where
  "getLocalPartialMD env ds extra a =
     (let backend_list = (if \<not> no_backends extra then backends (the extra)
                          else if \<not> isEmpty ds then agMemToBackend a (getType ds)
                          else map snd (backendEngines a))
      in if no_backends extra \<and> \<not> isEmpty ds \<and> backend_list = [] then (NIXL_ERR_NOT_FOUND, [])
         else let (found, selected) = found_conns env backend_list a
              in if selected = [] \<and> descCount ds > 0 then (NIXL_ERR_BACKEND, [])
                 else let include_conns = ((case extra of None \<Rightarrow> False | Some x \<Rightarrow> includeConnInfo x) \<or> descCount ds = 0);
                          (ret, sd) = st_then (md_header (agName a) (if include_conns then found else []))
                                        (serializePartial env selected ds (localSection a))
                      in (ret, if ret = NIXL_SUCCESS then exportStr sd else []))"

subsection \<open>Loading and invalidating a peer\<close>

definition engine_ref :: "nixl_backend_t \<Rightarrow> nixlAgentData \<Rightarrow> engine \<times> nixlAgentData" where
  "engine_ref t a =
     (case map_of (backendEngines a) t of
        Some e \<Rightarrow> (e, a)
      | None \<Rightarrow> (0, a\<lparr>backendEngines := um_update t 0 (backendEngines a)\<rparr>))"

fun disconnect_each :: "benv \<Rightarrow> string \<Rightarrow> (nixl_backend_t \<times> blob) list \<Rightarrow> nixl_status_t \<Rightarrow> nixlAgentData \<Rightarrow>
    (nixl_status_t \<times> nixlAgentData) option" where
  "disconnect_each env ag [] ret a = Some (ret, a)"
| "disconnect_each env ag ((t, c) # bs) ret a =
     (let (e, a) = engine_ref t a
      in if e = 0 then None
         else let (st, h) = bk_disconnect env e ag (hist a)
              in disconnect_each env ag bs (if st \<noteq> NIXL_SUCCESS then st else ret) (a\<lparr>hist := h\<rparr>))"

definition invalidateRemoteMDLocked :: "benv \<Rightarrow> string \<Rightarrow> nixlAgentData \<Rightarrow> (nixl_status_t \<times> nixlAgentData) option" where
  "invalidateRemoteMDLocked env ag a =
     (let (ret, a) = (case map_of (remoteSections a) ag of
                        None \<Rightarrow> (NIXL_ERR_NOT_FOUND, a)
                      | Some (g, s) \<Rightarrow> (NIXL_SUCCESS,
                          a\<lparr>remoteSections := al_delete ag (remoteSections a), hist := remote_destroy s (hist a)\<rparr>))
      in case map_of (remoteBackends a) ag of
           None \<Rightarrow> Some (ret, a)
         | Some bs \<Rightarrow> map_option (\<lambda>(ret, a). (ret, a\<lparr>remoteBackends := al_delete ag (remoteBackends a)\<rparr>))
                        (disconnect_each env ag bs ret a))"

definition invalidateRemoteMD :: "benv \<Rightarrow> string \<Rightarrow> nixlAgentData \<Rightarrow> (nixl_status_t \<times> nixlAgentData) option" where
  "invalidateRemoteMD env ag a =
     (if ag = agName a then Some (NIXL_ERR_INVALID_PARAM, a) else invalidateRemoteMDLocked env ag a)"

definition loadConnInfo :: "benv \<Rightarrow> string \<Rightarrow> nixl_backend_t \<Rightarrow> blob \<Rightarrow> nixlAgentData \<Rightarrow> nixl_status_t \<times> nixlAgentData" where
  "loadConnInfo env ag t conn a =
     (case map_of (backendEngines a) t of
        None \<Rightarrow> (NIXL_ERR_NOT_SUPPORTED, a)
      | Some e \<Rightarrow>
          let known = (case map_of (remoteBackends a) ag of None \<Rightarrow> [] | Some bs \<Rightarrow> bs)
          in case map_of known t of
               Some conn' \<Rightarrow> (if conn' \<noteq> conn then NIXL_ERR_NOT_ALLOWED else NIXL_SUCCESS, a)
             | None \<Rightarrow>
                 if \<not> supportsRemote env e then (NIXL_ERR_NOT_SUPPORTED, a)
                 else let (ret, h) = bk_loadRemoteConnInfo env e ag conn (hist a); a = a\<lparr>hist := h\<rparr>
                      in if ret \<noteq> NIXL_SUCCESS then (ret, a)
                         else (NIXL_SUCCESS, a\<lparr>remoteBackends := um_update ag (um_update t conn known) (remoteBackends a)\<rparr>))"

definition loadRemoteSections :: "benv \<Rightarrow> nixl_mem_t \<Rightarrow> string \<Rightarrow> nixlSerDes \<Rightarrow> nixlAgentData \<Rightarrow>
    (nixl_status_t \<times> nixlAgentData) option" where
  "loadRemoteSections env g ag sd a =
     (let (gen, s, a) = remote_section_of ag a;
          (ret, sd, s, h) = loadRemoteData env g (backendEngines a) sd s (hist a);
          a = put_remote ag gen s (a\<lparr>hist := h\<rparr>)
      in if ret \<noteq> NIXL_SUCCESS then map_option (\<lambda>(_, a). (ret, a)) (invalidateRemoteMDLocked env ag a)
         else Some (NIXL_SUCCESS, a))"

text \<open>The loop over the connection entries; the status is \<open>NIXL_SUCCESS\<close> when all were read.\<close>

fun load_conns :: "benv \<Rightarrow> string \<Rightarrow> nat \<Rightarrow> nat \<Rightarrow> nixlSerDes \<Rightarrow> nixlAgentData \<Rightarrow> nixl_status_t \<times> nat \<times> nixlSerDes \<times> nixlAgentData" where
  "load_conns env ag 0 cnt sd a = (NIXL_SUCCESS, cnt, sd, a)"
| "load_conns env ag (Suc n) cnt sd a =
     (let (t, sd) = getStr ''t'' sd; (c, sd) = getStr ''c'' sd
      in if t = [] \<or> c = [] then (NIXL_ERR_MISMATCH, cnt, sd, a)
         else let (ret, a) = loadConnInfo env ag t c a
              in if ret = NIXL_SUCCESS then load_conns env ag n (cnt + 1) sd a
                 else if ret \<noteq> NIXL_ERR_NOT_SUPPORTED then (ret, cnt, sd, a)
                 else load_conns env ag n cnt sd a)"

definition loadRemoteMD :: "benv \<Rightarrow> nixl_mem_t \<Rightarrow> blob \<Rightarrow> nixlAgentData \<Rightarrow> (nixl_status_t \<times> string \<times> nixlAgentData) option" where
  "loadRemoteMD env g blob a =
     (let (ret, sd) = importStr blob serdes_new
      in if ret \<noteq> NIXL_SUCCESS then Some (NIXL_ERR_MISMATCH, [], a)
         else let (ag, sd) = getStr ''Agent'' sd
              in if ag = [] then Some (NIXL_ERR_MISMATCH, [], a)
                 else if ag = agName a then Some (NIXL_ERR_INVALID_PARAM, [], a)
                 else let (ret, buf, sd) = getBuf ''Conns'' 8 sd
                      in if ret \<noteq> NIXL_SUCCESS then Some (NIXL_ERR_MISMATCH, [], a)
                         else let conn_cnt = bytes_u64 buf;
                                  (ret, cnt, sd, a) = load_conns env ag (unat conn_cnt) 0 sd a
                              in if ret \<noteq> NIXL_SUCCESS then Some (ret, [], a)
                                 else if cnt = 0 \<and> conn_cnt > 0 then Some (NIXL_ERR_BACKEND, [], a)
                                 else let (tag, sd) = getStr [] sd
                                      in if tag \<noteq> ''MemSection'' then Some (NIXL_ERR_MISMATCH, [], a)
                                         else map_option (\<lambda>(ret, a). (ret, if ret = NIXL_SUCCESS then ag else [], a))
                                                (loadRemoteSections env g ag sd a))"

text \<open>A checker that uses \<open>operator[]\<close> on both maps and so creates the entry it looks for.\<close>

fun check_each :: "(nixl_backend_t \<times> blob) list \<Rightarrow> nixlRemoteSection \<Rightarrow> nixl_xfer_dlist_t \<Rightarrow> nixl_meta_dlist_t \<Rightarrow> nixlAgentData \<Rightarrow>
    nixl_status_t \<times> nixlAgentData" where
  "check_each [] s ds dummy a = (NIXL_ERR_NOT_FOUND, a)"
| "check_each ((t, c) # bs) s ds dummy a =
     (let (e, a) = engine_ref t a; (st, dummy) = populate s ds e dummy
      in if st = NIXL_SUCCESS then (NIXL_SUCCESS, a) else check_each bs s ds dummy a)"

definition checkRemoteMD :: "string \<Rightarrow> nixl_xfer_dlist_t \<Rightarrow> nixlAgentData \<Rightarrow> nixl_status_t \<times> nixlAgentData" where
  "checkRemoteMD ag ds a =
     (case map_of (remoteSections a) ag of
        None \<Rightarrow> (NIXL_ERR_NOT_FOUND, a)
      | Some (g, s) \<Rightarrow>
          if isEmpty ds then (NIXL_SUCCESS, a)
          else case map_of (remoteBackends a) ag of
            None \<Rightarrow> (NIXL_ERR_NOT_FOUND, a\<lparr>remoteBackends := um_update ag [] (remoteBackends a)\<rparr>)
          | Some bs \<Rightarrow> check_each bs s ds \<lparr>getType = getType ds, descs = []\<rparr> a)"

subsection \<open>Connections\<close>

fun connect_each :: "benv \<Rightarrow> string \<Rightarrow> nixl_backend_t list \<Rightarrow> nat \<Rightarrow> nixlAgentData \<Rightarrow> nixl_status_t \<times> nat \<times> nixlAgentData" where
  "connect_each env ag [] n a = (NIXL_SUCCESS, n, a)"
| "connect_each env ag (t # ts) n a =
     (case map_of (backendEngines a) t of
        None \<Rightarrow> connect_each env ag ts n a
      | Some e \<Rightarrow>
          let (ret, h) = bk_connect env e ag (hist a); a = a\<lparr>hist := h\<rparr>
          in if ret \<noteq> NIXL_SUCCESS then (ret, n, a) else connect_each env ag ts (n + 1) a)"

definition makeConnection :: "benv \<Rightarrow> string \<Rightarrow> nixl_opt_args_t option \<Rightarrow> nixlAgentData \<Rightarrow> nixl_status_t \<times> nixlAgentData" where
  "makeConnection env ag extra a =
     (case map_of (remoteBackends a) ag of
        None \<Rightarrow> (NIXL_ERR_NOT_FOUND, a)
      | Some bs \<Rightarrow>
          if no_backends extra \<and> bs = [] then (NIXL_ERR_NOT_FOUND, a)
          else let names = (if no_backends extra then map fst bs else map (engineType env) (backends (the extra)));
                   (ret, n, a) = connect_each env ag (sort (remdups names)) 0 a
               in if ret \<noteq> NIXL_SUCCESS then (ret, a)
                  else if n = 0 then (NIXL_ERR_BACKEND, a) else (NIXL_SUCCESS, a))"

subsection \<open>Notifications\<close>

type_synonym nixl_notifs_t = "(string \<times> blob list) list"

fun merge_notifs :: "(string \<times> blob) list \<Rightarrow> nixl_notifs_t \<Rightarrow> nixl_notifs_t" where
  "merge_notifs [] m = m"
| "merge_notifs ((ag, msg) # ns) m =
     merge_notifs ns (um_update ag ((case map_of m ag of None \<Rightarrow> [] | Some l \<Rightarrow> l) @ [msg]) m)"

fun notifs_each :: "benv \<Rightarrow> engine list \<Rightarrow> nixl_status_t \<Rightarrow> nixl_notifs_t \<Rightarrow> nixlAgentData \<Rightarrow> nixl_status_t \<times> nixl_notifs_t \<times> nixlAgentData" where
  "notifs_each env [] bad m a = (bad, m, a)"
| "notifs_each env (e # es) bad m a =
     (let (ret, ns, h) = bk_getNotifs env e (hist a)
      in notifs_each env es (if is_err ret then ret else bad) (merge_notifs ns m) (a\<lparr>hist := h\<rparr>))"

definition getNotifs :: "benv \<Rightarrow> nixl_notifs_t \<Rightarrow> nixl_opt_args_t option \<Rightarrow> nixlAgentData \<Rightarrow>
    nixl_status_t \<times> nixl_notifs_t \<times> nixlAgentData" where
  "getNotifs env m extra a =
     (let backend_list = (if no_backends extra then notifEngines a else filter (supportsNotif env) (backends (the extra)))
      in if backend_list = [] then (NIXL_ERR_BACKEND, m, a) else notifs_each env backend_list NIXL_SUCCESS m a)"

definition genNotif :: "benv \<Rightarrow> string \<Rightarrow> blob \<Rightarrow> nixl_opt_args_t option \<Rightarrow> nixlAgentData \<Rightarrow> nixl_status_t \<times> nixlAgentData" where
  "genNotif env ag msg extra a =
     (let backend_list = (if no_backends extra then notifEngines a else filter (supportsNotif env) (backends (the extra)));
          usable = (if agName a = ag then supportsLocal env
                    else (\<lambda>e. case map_of (remoteBackends a) ag of None \<Rightarrow> False
                              | Some bs \<Rightarrow> map_of bs (engineType env e) \<noteq> None))
      in if backend_list = [] then (NIXL_ERR_BACKEND, a)
         else case List.find usable backend_list of
           None \<Rightarrow> (NIXL_ERR_NOT_FOUND, a)
         | Some e \<Rightarrow> let (ret, h) = bk_genNotif env e ag msg (hist a) in (ret, a\<lparr>hist := h\<rparr>))"

subsection \<open>Memory views\<close>

definition getBackends :: "nixl_opt_args_t option \<Rightarrow> 'a nixlMemSection_scheme \<Rightarrow> nixl_mem_t \<Rightarrow> engine list" where
  "getBackends extra s m =
     (if \<not> no_backends extra then set_of_handles (backends (the extra))
      else case queryBackends m s of Some bs \<Rightarrow> bs | None \<Rightarrow> [])"

definition nixl_null_agent :: string where
  "nixl_null_agent = ''NULL_AGENT''"

fun pick_engine :: "nixlRemoteSection \<Rightarrow> nixlRemoteDesc \<Rightarrow> engine list \<Rightarrow> nixl_remote_meta_dlist_t \<Rightarrow> engine \<times> nixl_remote_meta_dlist_t" where
  "pick_engine s d [] resp = (0, resp)"
| "pick_engine s d (e # es) resp =
     (let (st, resp') = addElement s d e resp
      in if st = NIXL_SUCCESS then (e, resp') else pick_engine s d es resp')"

text \<open>The engine is 0 until one is selected; the result is the status, the engine and the list.\<close>

fun view_loop :: "nixl_opt_args_t option \<Rightarrow> nixlAgentData \<Rightarrow> nixlRemoteDesc list \<Rightarrow> engine \<Rightarrow> nixl_remote_meta_dlist_t \<Rightarrow>
    nixl_status_t \<times> engine \<times> nixl_remote_meta_dlist_t" where
  "view_loop extra a [] eng resp = (NIXL_SUCCESS, eng, resp)"
| "view_loop extra a (d # ds) eng resp =
     (if remoteAgent d = nixl_null_agent
      then view_loop extra a ds eng
             (dlist_addDesc \<lparr>addr = 0, len = 0, devId = 0, metadataP = 0, metaRemoteAgent = nixl_null_agent\<rparr> resp)
      else case map_of (remoteSections a) (remoteAgent d) of
        None \<Rightarrow> (NIXL_ERR_NOT_FOUND, eng, resp)
      | Some (g, s) \<Rightarrow>
          if eng \<noteq> 0
          then let (st, resp') = addElement s d eng resp
               in if st \<noteq> NIXL_SUCCESS then (st, eng, resp') else view_loop extra a ds eng resp'
          else let (eng', resp') = pick_engine s d (getBackends extra s (getType resp)) resp
               in if eng' = 0 then (NIXL_SUCCESS, 0, resp') else view_loop extra a ds eng' resp')"

definition finish_view :: "benv \<Rightarrow> engine \<Rightarrow> nixlRemoteMetaDesc list \<Rightarrow> nixlMetaDesc list \<Rightarrow> blob \<Rightarrow> nixlAgentData \<Rightarrow>
    nixl_status_t \<times> mvh_ptr \<times> nixlAgentData" where
  "finish_view env eng rem loc param a =
     (let (st, mvh, h) = bk_prepMemView env eng rem loc param (hist a); a = a\<lparr>hist := h\<rparr>
      in if st = NIXL_SUCCESS
         then (st, mvh, if map_of (mvhToEngine a) mvh = None then a\<lparr>mvhToEngine := um_update mvh eng (mvhToEngine a)\<rparr> else a)
         else (st, mvh, a))"

definition view_param :: "nixl_opt_args_t option \<Rightarrow> blob" where
  "view_param extra = (case extra of None \<Rightarrow> [] | Some x \<Rightarrow> customParam x)"

definition prepMemView_remote :: "benv \<Rightarrow> nixlRemoteDesc nixlDescList \<Rightarrow> nixl_opt_args_t option \<Rightarrow> nixlAgentData \<Rightarrow>
    nixl_status_t \<times> mvh_ptr \<times> nixlAgentData" where
  "prepMemView_remote env ds extra a =
     (let (st, eng, resp) = view_loop extra a (descs ds) 0 \<lparr>getType = getType ds, descs = []\<rparr>
      in if st \<noteq> NIXL_SUCCESS then (st, 0, a)
         else if eng = 0 then (NIXL_ERR_NOT_FOUND, 0, a)
         else finish_view env eng (descs resp) [] (view_param extra) a)"

fun first_populated :: "nixlLocalSection \<Rightarrow> nixl_xfer_dlist_t \<Rightarrow> engine list \<Rightarrow> nixl_meta_dlist_t \<Rightarrow> engine \<times> nixl_meta_dlist_t" where
  "first_populated s ds [] resp = (0, resp)"
| "first_populated s ds (e # es) resp =
     (let (st, resp') = populate s ds e resp
      in if st = NIXL_SUCCESS then (e, resp') else first_populated s ds es resp')"

definition prepMemView_local :: "benv \<Rightarrow> nixl_xfer_dlist_t \<Rightarrow> nixl_opt_args_t option \<Rightarrow> nixlAgentData \<Rightarrow>
    nixl_status_t \<times> mvh_ptr \<times> nixlAgentData" where
  "prepMemView_local env ds extra a =
     (let (eng, resp) = first_populated (localSection a) ds (getBackends extra (localSection a) (getType ds))
                          \<lparr>getType = getType ds, descs = []\<rparr>
      in if eng = 0 then (NIXL_ERR_NOT_FOUND, 0, a)
         else finish_view env eng [] (descs resp) (view_param extra) a)"

definition releaseMemView :: "mvh_ptr \<Rightarrow> nixlAgentData \<Rightarrow> nixlAgentData" where
  "releaseMemView mvh a =
     (case map_of (mvhToEngine a) mvh of
        None \<Rightarrow> a
      | Some e \<Rightarrow> a\<lparr>hist := bk_releaseMemView e mvh (hist a), mvhToEngine := al_delete mvh (mvhToEngine a)\<rparr>)"

subsection \<open>Operations that only talk to engines\<close>

definition hist_only :: "nixlAgentData \<Rightarrow> nixlAgentData \<Rightarrow> bool" where
  "hist_only a a' \<longleftrightarrow> (\<exists>h. a' = a\<lparr>hist := h\<rparr> \<and> (\<forall>e md. reg_bal h e md = reg_bal (hist a) e md))"

lemma hist_only_refl [simp]: "hist_only a a"
  unfolding hist_only_def by (rule exI [of _ "hist a"]) simp

lemma hist_only_trans: "hist_only a b \<Longrightarrow> hist_only b c \<Longrightarrow> hist_only a c"
  by (auto simp: hist_only_def)

lemma hist_only_event: "(\<And>e md. reg_delta e md ev = 0) \<Longrightarrow> hist_only a (a\<lparr>hist := ev # hist a\<rparr>)"
  by (auto simp: hist_only_def)

lemma hist_only_fields:
  assumes "hist_only a a'"
  shows "agName a' = agName a" "remoteSections a' = remoteSections a" "nextGen a' = nextGen a" "backendEngines a' = backendEngines a"
    "remoteBackends a' = remoteBackends a" "localSection a' = localSection a"
  using assms by (auto simp: hist_only_def)

lemma hist_only_inv:
  assumes "hist_only a a'" and "agent_inv env a"
  shows "agent_inv env a'"
proof -
  obtain h where "a' = a\<lparr>hist := h\<rparr>" "\<forall>e md. reg_bal h e md = reg_bal (hist a) e md"
    using assms(1) by (auto simp: hist_only_def)
  with assms(2) show ?thesis
    by (simp add: agent_inv_def remotes_wf_def backends_wf_def regs_balanced_def)
qed

lemma connect_each_hist: "connect_each env ag ts n a = (ret, n', a') \<Longrightarrow> hist_only a a'"
proof (induction ts arbitrary: n a)
  case (Cons t ts)
  show ?case
  proof (cases "map_of (backendEngines a) t")
    case (Some e)
    obtain st h where c: "bk_connect env e ag (hist a) = (st, h)" by fastforce
    then have ho: "hist_only a (a\<lparr>hist := h\<rparr>)"
      by (auto simp: bk_connect_def Let_def intro: hist_only_event)
    show ?thesis
      using Cons.prems Some c ho hist_only_trans [OF ho] Cons.IH [of "n + 1" "a\<lparr>hist := h\<rparr>"]
      by (auto simp: Let_def split: if_splits)
  qed (use Cons in auto)
qed simp

lemma makeConnection_hist: "makeConnection env ag extra a = (st, a') \<Longrightarrow> hist_only a a'"
  using connect_each_hist by (auto simp: makeConnection_def Let_def split: option.splits if_splits prod.splits)

lemma notifs_each_hist: "notifs_each env es bad m a = (st, m', a') \<Longrightarrow> hist_only a a'"
proof (induction es arbitrary: bad m a)
  case (Cons e es)
  obtain st' ns h where c: "bk_getNotifs env e (hist a) = (st', ns, h)" by (metis prod.exhaust)
  then have ho: "hist_only a (a\<lparr>hist := h\<rparr>)"
    by (auto simp: bk_getNotifs_def split: prod.splits intro: hist_only_event)
  from Cons.prems c have "notifs_each env es (if is_err st' then st' else bad) (merge_notifs ns m) (a\<lparr>hist := h\<rparr>) = (st, m', a')"
    by simp
  from hist_only_trans [OF ho Cons.IH [OF this]] show ?case .
qed simp

lemma getNotifs_hist: "getNotifs env m extra a = (st, m', a') \<Longrightarrow> hist_only a a'"
  using notifs_each_hist by (auto simp: getNotifs_def Let_def split: if_splits)

lemma genNotif_hist: "genNotif env ag msg extra a = (st, a') \<Longrightarrow> hist_only a a'"
  by (auto simp: genNotif_def Let_def bk_genNotif_def split: if_splits option.splits intro: hist_only_event)

lemma mvh_inv: "agent_inv env (a\<lparr>mvhToEngine := m\<rparr>) \<longleftrightarrow> agent_inv env a"
  by (simp add: agent_inv_def remotes_wf_def backends_wf_def regs_balanced_def)

lemma finish_view_inv:
  assumes "agent_inv env a" and "finish_view env e rem loc p a = (st, v, a')"
  shows "agent_inv env a'"
proof -
  obtain st' v' h where c: "bk_prepMemView env e rem loc p (hist a) = (st', v', h)" by (metis prod.exhaust)
  then have "hist_only a (a\<lparr>hist := h\<rparr>)"
    by (auto simp: bk_prepMemView_def split: prod.splits intro: hist_only_event)
  from hist_only_inv [OF this assms(1)] have "agent_inv env (a\<lparr>hist := h, mvhToEngine := mvhToEngine a'\<rparr>)"
    using mvh_inv [where a = "a\<lparr>hist := h\<rparr>"] by simp
  moreover have "a' = a\<lparr>hist := h, mvhToEngine := mvhToEngine a'\<rparr>"
    using assms(2) c by (auto simp: finish_view_def Let_def split: if_splits)
  ultimately show ?thesis by simp
qed

lemma prepMemView_inv:
  assumes "agent_inv env a"
  shows "prepMemView_remote env ds extra a = (st, v, a') \<Longrightarrow> agent_inv env a'"
    and "prepMemView_local env ds' extra a = (st, v, a') \<Longrightarrow> agent_inv env a'"
  using assms finish_view_inv [OF assms]
  by (auto simp: prepMemView_remote_def prepMemView_local_def Let_def split: if_splits prod.splits)

lemma releaseMemView_inv: "agent_inv env a \<Longrightarrow> agent_inv env (releaseMemView v a)"
  by (auto simp: releaseMemView_def bk_releaseMemView_def agent_inv_def remotes_wf_def backends_wf_def regs_balanced_def split: option.split)

subsection \<open>Loading and invalidating keep the invariant\<close>

lemma engine_ref_known: "map_of (backendEngines a) t = Some e \<Longrightarrow> engine_ref t a = (e, a)"
  by (simp add: engine_ref_def)

lemma disconnect_each_total:
  assumes "\<forall>(t, c) \<in> set bs. \<exists>e. map_of (backendEngines a) t = Some e \<and> e \<noteq> 0"
  shows "\<exists>ret' a'. disconnect_each env ag bs ret a = Some (ret', a') \<and> hist_only a a'"
  using assms
proof (induction bs arbitrary: ret a)
  case (Cons tc bs)
  obtain t c where tc: "tc = (t, c)" by fastforce
  then obtain e where e: "map_of (backendEngines a) t = Some e" "e \<noteq> 0" using Cons.prems by auto
  obtain st h where d: "bk_disconnect env e ag (hist a) = (st, h)" by fastforce
  then have ho: "hist_only a (a\<lparr>hist := h\<rparr>)"
    by (auto simp: bk_disconnect_def Let_def intro: hist_only_event)
  have "\<forall>(t, c) \<in> set bs. \<exists>e. map_of (backendEngines (a\<lparr>hist := h\<rparr>)) t = Some e \<and> e \<noteq> 0"
    using Cons.prems by auto
  from Cons.IH [OF this, of "if st \<noteq> NIXL_SUCCESS then st else ret"] obtain ret' a' where
    "disconnect_each env ag bs (if st \<noteq> NIXL_SUCCESS then st else ret) (a\<lparr>hist := h\<rparr>) = Some (ret', a')"
    "hist_only (a\<lparr>hist := h\<rparr>) a'" by blast
  with hist_only_trans [OF ho] show ?case
    using tc e d by (auto simp: engine_ref_known)
qed simp

lemma backends_known:
  assumes "backends_wf env a" and "map_of (remoteBackends a) ag = Some bs"
  shows "\<forall>(t, c) \<in> set bs. \<exists>e. map_of (backendEngines a) t = Some e \<and> e \<noteq> 0"
proof safe
  fix t c assume "(t, c) \<in> set bs"
  then have "map_of bs t \<noteq> None" by (metis domIff dom_map_of_conv_image_fst imageI fst_conv)
  with assms show "\<exists>e. map_of (backendEngines a) t = Some e \<and> e \<noteq> 0"
    unfolding backends_wf_def by (metis not_None_eq)
qed

lemma backends_wf_forget: "backends_wf env a \<Longrightarrow> backends_wf env (a\<lparr>remoteBackends := al_delete ag (remoteBackends a)\<rparr>)"
  by (auto simp: backends_wf_def split: if_splits)

lemma remotes_wf_forget: "remotes_wf a \<Longrightarrow> remotes_wf (a\<lparr>remoteSections := al_delete ag (remoteSections a), hist := h\<rparr>)"
  by (auto simp: remotes_wf_def split: if_splits)

lemma invalidate_total:
  assumes "agent_inv env a"
  shows "\<exists>ret a'. invalidateRemoteMDLocked env ag a = Some (ret, a') \<and> agent_inv env a' \<and>
    remoteSections a' = al_delete ag (remoteSections a) \<and> map_of (remoteBackends a') ag = None \<and>
    backendEngines a' = backendEngines a \<and> agName a' = agName a"
proof -
  define a1 where "a1 = (case map_of (remoteSections a) ag of None \<Rightarrow> a
    | Some (g, s) \<Rightarrow> a\<lparr>remoteSections := al_delete ag (remoteSections a), hist := remote_destroy s (hist a)\<rparr>)"
  define r1 where "r1 = (if map_of (remoteSections a) ag = None then NIXL_ERR_NOT_FOUND else NIXL_SUCCESS)"
  have none: "map_of (remoteSections a) ag = None \<Longrightarrow> al_delete ag (remoteSections a) = remoteSections a"
    by (force simp: al_delete_def map_of_eq_None_iff filter_id_conv)
  have inv1: "agent_inv env a1" and rs1: "remoteSections a1 = al_delete ag (remoteSections a)"
    and same: "remoteBackends a1 = remoteBackends a" "backendEngines a1 = backendEngines a" "agName a1 = agName a"
  proof -
    show "agent_inv env a1"
    proof (cases "map_of (remoteSections a) ag")
      case (Some gs)
      then obtain g s where gs: "map_of (remoteSections a) ag = Some (g, s)" by (cases gs) simp
      show ?thesis
        using assms remotes_wf_forget [where a = a and ag = ag and h = "remote_destroy s (hist a)"] gs
        by (simp add: a1_def agent_inv_def backends_wf_def regs_balanced_def remote_destroy_reg_bal)
    qed (use assms in \<open>simp add: a1_def\<close>)
  qed (auto simp: a1_def none split: option.split)
  have step: "invalidateRemoteMDLocked env ag a =
      (case map_of (remoteBackends a1) ag of None \<Rightarrow> Some (r1, a1)
       | Some bs \<Rightarrow> map_option (\<lambda>(ret, a). (ret, a\<lparr>remoteBackends := al_delete ag (remoteBackends a)\<rparr>))
                      (disconnect_each env ag bs r1 a1))"
    by (auto simp: invalidateRemoteMDLocked_def a1_def r1_def split: option.split)
  show ?thesis
  proof (cases "map_of (remoteBackends a1) ag")
    case None
    with step inv1 rs1 same show ?thesis by simp
  next
    case (Some bs)
    obtain r2 a2 where d: "disconnect_each env ag bs r1 a1 = Some (r2, a2)" "hist_only a1 a2"
      using disconnect_each_total [OF backends_known [OF _ Some], of env env ag r1] inv1 by (auto simp: agent_inv_def)
    note i2 = hist_only_inv [OF d(2) inv1] and f2 = hist_only_fields [OF d(2)]
    have "agent_inv env (a2\<lparr>remoteBackends := al_delete ag (remoteBackends a2)\<rparr>)"
      using i2 backends_wf_forget [where env = env and a = a2 and ag = ag] by (simp add: agent_inv_def remotes_wf_def regs_balanced_def)
    with step Some d(1) f2 rs1 same show ?thesis by simp
  qed
qed

text \<open>What loading connection info changes: the entries of the one remote agent.\<close>

definition conns_only :: "string \<Rightarrow> nixlAgentData \<Rightarrow> nixlAgentData \<Rightarrow> bool" where
  "conns_only ag a a' \<longleftrightarrow> remoteSections a' = remoteSections a \<and> nextGen a' = nextGen a \<and> backendEngines a' = backendEngines a \<and>
     agName a' = agName a \<and> (\<forall>ag'. ag' \<noteq> ag \<longrightarrow> map_of (remoteBackends a') ag' = map_of (remoteBackends a) ag')"

definition conn_known :: "nixlAgentData \<Rightarrow> string \<Rightarrow> nixl_backend_t \<Rightarrow> blob \<Rightarrow> bool" where
  "conn_known a ag t c \<longleftrightarrow> (\<exists>bs. map_of (remoteBackends a) ag = Some bs \<and> map_of bs t = Some c)"

lemma loadConnInfo_inv:
  assumes "agent_inv env a" and "loadConnInfo env ag t c a = (ret, a')"
  shows "agent_inv env a'" and "conns_only ag a a'" and "conn_known a ag t' c' \<Longrightarrow> conn_known a' ag t' c'"
    and "ret = NIXL_SUCCESS \<Longrightarrow> conn_known a' ag t c"
proof -
  have "agent_inv env a' \<and> conns_only ag a a' \<and> (conn_known a ag t' c' \<longrightarrow> conn_known a' ag t' c') \<and>
    (ret = NIXL_SUCCESS \<longrightarrow> conn_known a' ag t c)"
  proof (cases "map_of (backendEngines a) t")
    case None
    with assms show ?thesis by (auto simp: loadConnInfo_def conns_only_def)
  next
    case (Some e)
    define known where "known = (case map_of (remoteBackends a) ag of None \<Rightarrow> [] | Some bs \<Rightarrow> bs)"
    show ?thesis
    proof (cases "map_of known t = None \<and> supportsRemote env e")
      case False
      then have "a' = a" "ret = NIXL_SUCCESS \<longrightarrow> map_of known t = Some c"
        using assms(2) Some unfolding loadConnInfo_def known_def by (auto simp: Let_def split: option.splits if_splits)
      with assms(1) show ?thesis by (auto simp: conns_only_def conn_known_def known_def split: option.splits)
    next
      case True
      obtain st h where l: "bk_loadRemoteConnInfo env e ag c (hist a) = (st, h)" by fastforce
      then have ho: "hist_only a (a\<lparr>hist := h\<rparr>)"
        by (auto simp: bk_loadRemoteConnInfo_def Let_def intro: hist_only_event)
      have a': "a' = (if st = NIXL_SUCCESS then a\<lparr>hist := h, remoteBackends := um_update ag (um_update t c known) (remoteBackends a)\<rparr>
          else a\<lparr>hist := h\<rparr>)" "ret = st"
        using assms(2) Some True l by (auto simp: loadConnInfo_def known_def Let_def split: if_splits)
      have inv: "agent_inv env (a\<lparr>hist := h\<rparr>)" by (rule hist_only_inv [OF ho assms(1)])
      moreover have "agent_inv env (a\<lparr>hist := h, remoteBackends := um_update ag (um_update t c known) (remoteBackends a)\<rparr>)"
        using inv Some by (auto simp: agent_inv_def remotes_wf_def regs_balanced_def backends_wf_def known_def split: option.splits)
      moreover have "conn_known a ag t' c' \<Longrightarrow> map_of known t' = Some c'"
        by (auto simp: conn_known_def known_def)
      ultimately show ?thesis
        using True unfolding a' by (auto simp: conns_only_def conn_known_def)
    qed
  qed
  then show "agent_inv env a'" and "conns_only ag a a'" and "conn_known a ag t' c' \<Longrightarrow> conn_known a' ag t' c'"
    and "ret = NIXL_SUCCESS \<Longrightarrow> conn_known a' ag t c" by auto
qed

lemma conns_only_trans: "conns_only ag a b \<Longrightarrow> conns_only ag b c \<Longrightarrow> conns_only ag a c"
  by (simp add: conns_only_def)

lemma load_conns_inv:
  assumes "agent_inv env a" and "load_conns env ag n cnt sd a = (ret, cnt', sd', a')"
  shows "agent_inv env a' \<and> conns_only ag a a'"
  using assms
proof (induction n arbitrary: cnt sd a)
  case (Suc n)
  obtain t sd1 where t: "getStr ''t'' sd = (t, sd1)" by fastforce
  obtain c sd2 where c: "getStr ''c'' sd1 = (c, sd2)" by fastforce
  obtain st a1 where l: "loadConnInfo env ag t c a = (st, a1)" by fastforce
  note i = loadConnInfo_inv(1,2) [OF Suc.prems(1) l]
  show ?case
  proof (cases "t = [] \<or> c = []")
    case True
    with Suc.prems t c show ?thesis by (auto simp: conns_only_def)
  next
    case False
    consider "ret = st" "a' = a1" | cnt1 where "load_conns env ag n cnt1 sd2 a1 = (ret, cnt', sd', a')"
      using Suc.prems(2) t c l False by (auto split: if_splits)
    then show ?thesis
    proof cases
      case 1
      with i show ?thesis by simp
    next
      case 2
      from Suc.IH [OF i(1) this] conns_only_trans [OF i(2)] show ?thesis by blast
    qed
  qed
qed (auto simp: conns_only_def)

lemma load_loop_reg_bal: "load_loop env e m ag ds t h = (st, t', h') \<Longrightarrow> reg_bal h' e' md = reg_bal h e' md"
proof (induction ds arbitrary: t h)
  case (Cons d ds)
  obtain ret md1 h1 where l: "bk_loadRemoteMD env e d m ag h = (ret, md1, h1)" by (metis prod.exhaust)
  then have "reg_bal h1 e' md = reg_bal h e' md" by (auto simp: bk_loadRemoteMD_def split: prod.splits)
  with Cons l show ?case by (auto simp: Let_def split: if_splits)
qed simp

lemma remote_addDescList_reg_bal: "remote_addDescList env l e s h = (st, s', h') \<Longrightarrow> reg_bal h' e' md = reg_bal h e' md"
  using load_loop_reg_bal by (auto simp: remote_addDescList_def Let_def split: if_splits prod.splits)

lemma load_segments_frame:
  assumes "sections_wf s" and "load_segments env g engines n sd s h = (st, sd', s', h')"
  shows "agentName s' = agentName s \<and> reg_bal h' e' md = reg_bal h e' md"
  using assms
proof (induction n arbitrary: sd s h)
  case (Suc n)
  obtain b sd1 where b: "getStr ''bknd'' sd = (b, sd1)" by fastforce
  obtain r sd2 where r: "desclist_load KBlob blob_desc_of_blob g sd1 = (r, sd2)" by fastforce
  show ?case
  proof (cases "b = [] \<or> isEmpty (blob_list_of r) \<or> map_of engines b = None")
    case True
    with Suc b r show ?thesis by (auto simp: Let_def split: if_splits)
  next
    case False
    then obtain e where e: "map_of engines b = Some e" by auto
    obtain ret s1 h1 where a: "remote_addDescList env (blob_list_of r) e s h = (ret, s1, h1)" by (metis prod.exhaust)
    note acc = remote_addDescList_account(1,3) [OF Suc.prems(1) a] remote_addDescList_reg_bal [OF a, of e' md]
    have "(if ret \<noteq> NIXL_SUCCESS then (ret, sd2, s1, h1) else load_segments env g engines n sd2 s1 h1) = (st, sd', s', h')"
      using Suc.prems(2) False e b r a by (simp add: Let_def)
    with Suc.IH [OF acc(1)] acc(2,3) show ?thesis by (cases "ret = NIXL_SUCCESS") auto
  qed
qed simp

lemma loadRemoteData_frame:
  assumes "sections_wf s" and "loadRemoteData env g engines sd s h = (st, sd', s', h')"
  shows "agentName s' = agentName s" and "reg_bal h' e' md = reg_bal h e' md"
  using assms load_segments_frame [OF assms(1)]
  by (auto simp: loadRemoteData_def split: prod.splits if_splits)

lemma loadRemoteSections_inv:
  assumes "agent_inv env a"
  shows "\<exists>ret a'. loadRemoteSections env g ag sd a = Some (ret, a') \<and> agent_inv env a' \<and>
    backendEngines a' = backendEngines a \<and> agName a' = agName a \<and>
    (ret \<noteq> NIXL_SUCCESS \<longrightarrow> map_of (remoteSections a') ag = None \<and> map_of (remoteBackends a') ag = None)"
proof -
  obtain gen s a1 where r: "remote_section_of ag a = (gen, s, a1)" by (metis prod.exhaust)
  have rw: "remotes_wf a" using assms by (simp add: agent_inv_def)
  note sp = remote_section_of_spec [OF r rw]
  obtain ret sd' s' h where l: "loadRemoteData env g (backendEngines a1) sd s (hist a1) = (ret, sd', s', h)"
    by (metis prod.exhaust)
  define a2 where "a2 = put_remote ag gen s' (a1\<lparr>hist := h\<rparr>)"
  have same: "backendEngines a2 = backendEngines a" "agName a2 = agName a"
    unfolding a2_def by (subst sp(5), simp add: put_remote_def)+
  have inv: "agent_inv env a2"
  proof -
    have "remotes_wf (a1\<lparr>hist := h\<rparr>)" using sp(1) by (rule remotes_wf_cong) simp_all
    moreover have "agentName s' = ag" using loadRemoteData_frame(1) [OF sp(3) l] sp(4) by simp
    ultimately have "remotes_wf a2"
      unfolding a2_def using sp(2) loadRemoteData_account(1) [OF sp(3) l]
      by (intro put_remote_wf [where ?s0.0 = s]) simp_all
    moreover have "localSection a1 = localSection a" "hist a1 = hist a" by (subst sp(5), simp)+
    then have "regs_balanced a2"
      using assms loadRemoteData_frame(2) [OF sp(3) l]
      by (simp add: agent_inv_def regs_balanced_def a2_def put_remote_def)
    moreover have "same_backends a a1" unfolding same_backends_def by (intro conjI; subst sp(5); simp)
    then have "same_backends a a2" by (simp add: a2_def put_remote_def same_backends_def)
    then have "backends_wf env a2" using assms by (auto simp: agent_inv_def intro: same_backends_wf)
    ultimately show ?thesis by (simp add: agent_inv_def)
  qed
  have step: "loadRemoteSections env g ag sd a =
      (if ret \<noteq> NIXL_SUCCESS then map_option (\<lambda>(_, a). (ret, a)) (invalidateRemoteMDLocked env ag a2) else Some (NIXL_SUCCESS, a2))"
    using r l by (simp add: loadRemoteSections_def a2_def)
  show ?thesis
  proof (cases "ret = NIXL_SUCCESS")
    case True
    with step inv same show ?thesis by simp
  next
    case False
    with step invalidate_total [OF inv, of ag] same show ?thesis by auto
  qed
qed

lemma loadRemoteMD_inv:
  assumes "agent_inv env a"
  shows "\<exists>ret name a'. loadRemoteMD env g blob a = Some (ret, name, a') \<and> agent_inv env a' \<and> backendEngines a' = backendEngines a"
proof -
  obtain r1 sd1 where 1: "importStr blob serdes_new = (r1, sd1)" by fastforce
  obtain ag sd2 where 2: "getStr ''Agent'' sd1 = (ag, sd2)" by fastforce
  obtain r3 buf sd3 where 3: "getBuf ''Conns'' 8 sd2 = (r3, buf, sd3)" by (metis prod.exhaust)
  obtain r4 cnt sd4 a4 where 4: "load_conns env ag (unat (bytes_u64 buf)) 0 sd3 a = (r4, cnt, sd4, a4)" by (metis prod.exhaust)
  obtain tag sd5 where 5: "getStr [] sd4 = (tag, sd5)" by fastforce
  have i4: "agent_inv env a4" "backendEngines a4 = backendEngines a"
    using load_conns_inv [OF assms 4] by (simp_all add: conns_only_def)
  show ?thesis
  proof (cases "r1 \<noteq> NIXL_SUCCESS \<or> ag = [] \<or> ag = agName a \<or> r3 \<noteq> NIXL_SUCCESS")
    case True
    with assms 1 2 3 show ?thesis by (auto simp: loadRemoteMD_def)
  next
    case go: False
    show ?thesis
    proof (cases "r4 \<noteq> NIXL_SUCCESS \<or> cnt = 0 \<and> bytes_u64 buf > 0 \<or> tag \<noteq> ''MemSection''")
      case True
      with go i4 1 2 3 4 5 show ?thesis by (auto simp: loadRemoteMD_def)
    next
      case False
      with go loadRemoteSections_inv [OF i4(1), of g ag sd5] i4(2) 1 2 3 4 5 show ?thesis
        by (auto simp: loadRemoteMD_def)
    qed
  qed
qed

lemma checkRemoteMD_inv:
  assumes "agent_inv env a" and "checkRemoteMD ag ds a = (st, a')"
  shows "agent_inv env a'"
proof -
  have each: "check_each bs s ds dummy a = (st, a') \<Longrightarrow> \<forall>(t, c) \<in> set bs. \<exists>e. map_of (backendEngines a) t = Some e \<and> e \<noteq> 0 \<Longrightarrow> a' = a"
    for bs s dummy
  proof (induction bs arbitrary: dummy)
    case (Cons tc bs)
    obtain t c where "tc = (t, c)" by fastforce
    with Cons show ?case by (auto simp: engine_ref_known split: if_splits prod.splits)
  qed simp
  have "a' = a \<or> a' = a\<lparr>remoteBackends := um_update ag [] (remoteBackends a)\<rparr>"
    using assms(2) each backends_known [of env a ag] assms(1)
    by (auto simp: checkRemoteMD_def agent_inv_def split: option.splits if_splits)
  moreover have "backends_wf env (a\<lparr>remoteBackends := um_update ag [] (remoteBackends a)\<rparr>)"
    using assms(1) by (simp add: agent_inv_def backends_wf_def)
  ultimately show ?thesis
    using assms(1) by (auto simp: agent_inv_def intro: remotes_wf_cong regs_balanced_cong)
qed

subsection \<open>The wire image of an agent's metadata\<close>

definition conns_image :: "(nixl_backend_t \<times> blob) list \<Rightarrow> string" where
  "conns_image conns = concat (map (\<lambda>(t, c). field_image ''t'' t @ field_image ''c'' c) conns)"

definition md_header_image :: "string \<Rightarrow> (nixl_backend_t \<times> blob) list \<Rightarrow> string" where
  "md_header_image name conns = field_image ''Agent'' name @ field_image ''Conns'' (u64_bytes (size_of conns)) @
     conns_image conns @ field_image [] ''MemSection''"

lemma add_conns_image: "add_conns conns sd = (NIXL_SUCCESS, sd\<lparr>workingStr := workingStr sd @ conns_image conns\<rparr>)"
  by (induction conns sd rule: add_conns.induct) (simp_all add: conns_image_def)

lemma md_header_image: "md_header name conns = (NIXL_SUCCESS, serdes_new\<lparr>workingStr := serdes_magic @ md_header_image name conns\<rparr>)"
  by (simp add: md_header_def add_conns_image md_header_image_def)

lemma getLocalMD_image:
  assumes "getLocalMD env a = (NIXL_SUCCESS, blob)"
  shows "blob = serdes_magic @ md_header_image (agName a) (connMd a) @ sections_image env (sectionMap (localSection a))"
    and "connMd a \<noteq> []"
  using assms by (auto simp: getLocalMD_def md_header_image local_serialize_def serializeSections_image exportStr_def split: if_splits)

lemma short_md_tags [simp]: "short_tag ''Agent''" "short_tag ''Conns''" "short_tag ''c''"
  by (simp_all add: short_tag_def)

lemma load_conns_read:
  assumes "serdes_wf sd" and "remaining sd = conns_image conns @ rest" and "\<forall>(t, c) \<in> set conns. t \<noteq> [] \<and> c \<noteq> []"
    and "agent_inv env a" and "load_conns env ag (length conns) cnt sd a = (NIXL_SUCCESS, cnt', sd', a')"
  shows "serdes_wf sd' \<and> remaining sd' = rest \<and> (\<forall>t c. conn_known a ag t c \<longrightarrow> conn_known a' ag t c) \<and>
    (cnt < cnt' \<longrightarrow> (\<exists>(t, c) \<in> set conns. conn_known a' ag t c))"
  using assms
proof (induction conns arbitrary: cnt sd a)
  case (Cons tc conns)
  obtain t c where tc: "tc = (t, c)" by fastforce
  have r1: "remaining sd = field_image ''t'' t @ (field_image ''c'' c @ conns_image conns @ rest)"
    using Cons.prems(2) tc by (simp add: conns_image_def)
  have g1: "getStr ''t'' sd = (t, advance (field_image ''t'' t) sd)" by (rule getStr_field [OF Cons.prems(1) _ r1]) simp
  note a1 = advance_remaining [OF Cons.prems(1) r1]
  have g2: "getStr ''c'' (advance (field_image ''t'' t) sd) = (c, advance (field_image ''c'' c) (advance (field_image ''t'' t) sd))"
    by (rule getStr_field [OF a1(1) _ a1(2)]) simp
  note a2 = advance_remaining [OF a1]
  let ?sd = "advance (field_image ''c'' c) (advance (field_image ''t'' t) sd)"
  obtain st a1 where l: "loadConnInfo env ag t c a = (st, a1)" by fastforce
  have ne: "t \<noteq> []" "c \<noteq> []" "\<forall>(t, c) \<in> set conns. t \<noteq> [] \<and> c \<noteq> []" using Cons.prems(3) tc by auto
  let ?cnt = "if st = NIXL_SUCCESS then cnt + 1 else cnt"
  have step: "load_conns env ag (length conns) ?cnt ?sd a1 = (NIXL_SUCCESS, cnt', sd', a')"
    using Cons.prems(5) g1 g2 l ne by (auto split: if_splits)
  note i = loadConnInfo_inv [OF Cons.prems(4) l]
  have ih: "serdes_wf sd'" "remaining sd' = rest" "\<And>t c. conn_known a1 ag t c \<Longrightarrow> conn_known a' ag t c"
    "?cnt < cnt' \<Longrightarrow> \<exists>(t, c) \<in> set conns. conn_known a' ag t c"
    using Cons.IH [OF a2 ne(3) i(1) step] by blast+
  show ?case
  proof (cases "st = NIXL_SUCCESS")
    case True
    then have "conn_known a' ag t c" using i(4) ih(3) by blast
    with ih(1-3) i(3) tc show ?thesis by auto
  next
    case False
    with ih i(3) show ?thesis by auto
  qed
qed (auto simp: conns_image_def)

lemma loadRemoteSections_content:
  assumes "agent_inv env' b" and "serdes_wf sd" and "remaining sd = sections_image env secs @ rest"
    and "fits (published env secs)" and "\<forall>kl \<in> set (published env secs). segment_ok env kl"
    and "loadRemoteSections env' g ag sd b = Some (NIXL_SUCCESS, b')"
  shows "\<exists>gen s. map_of (remoteSections b') ag = Some (gen, s) \<and> remoteBackends b' = remoteBackends b \<and>
    (\<forall>(name, l) \<in> set (map (public_view env) (published env secs)). \<forall>e. map_of (backendEngines b) name = Some e \<longrightarrow>
      (\<forall>d \<in> set (descs l). has_region s (getType l) e (normalizeQuery \<lparr>getType = getType l, descs = []\<rparr> (basic d)) (metaInfo d)))"
proof -
  obtain gen s b1 where r: "remote_section_of ag b = (gen, s, b1)" by (metis prod.exhaust)
  have "remotes_wf b" using assms(1) by (simp add: agent_inv_def)
  note sp = remote_section_of_spec [OF r this]
  obtain ret sd' s' h where l: "loadRemoteData env' g (backendEngines b1) sd s (hist b1) = (ret, sd', s', h)"
    by (metis prod.exhaust)
  have eng: "backendEngines b1 = backendEngines b" "remoteBackends b1 = remoteBackends b" by (subst sp(5), simp)+
  have ok: "ret = NIXL_SUCCESS" "b' = put_remote ag gen s' (b1\<lparr>hist := h\<rparr>)"
    using assms(6) r l by (auto simp: loadRemoteSections_def Let_def split: if_splits)
  have a: "apply_published env' (backendEngines b) (map (public_view env) (published env secs)) s (hist b1) = (NIXL_SUCCESS, s', h)"
    using loadRemoteData_published [OF assms(2-5), of env' g "backendEngines b1" s "hist b1"] l ok(1) eng by simp
  have "map_of (remoteSections b') ag = Some (gen, s')" "remoteBackends b' = remoteBackends b"
    using eng by (simp_all add: ok put_remote_def)
  moreover have "\<forall>(name, l) \<in> set (map (public_view env) (published env secs)). \<forall>e. map_of (backendEngines b) name = Some e \<longrightarrow>
      (\<forall>d \<in> set (descs l). has_region s' (getType l) e (normalizeQuery \<lparr>getType = getType l, descs = []\<rparr> (basic d)) (metaInfo d))"
    using apply_published_content [OF sp(3) a] by simp
  ultimately show ?thesis by blast
qed

subsection \<open>Properties\<close>

text \<open>C5: Metadata exchange between two agents works end to end: when agent \<open>a\<close> publishes its
  metadata and agent \<open>b\<close> loads the bytes successfully, \<open>b\<close> learns \<open>a\<close>'s name, holds connection info
  for at least one common backend, and has, for every region \<open>a\<close> registered with a backend that \<open>b\<close>
  also has, the same range with the same public metadata under its own engine, whatever \<open>b\<close> knew
  before.\<close>

theorem metadata_exchange:
  assumes inv: "agent_inv env a" "agent_inv env' b" and get: "getLocalMD env a = (NIXL_SUCCESS, blob)"
    and load: "loadRemoteMD env' g blob b = Some (NIXL_SUCCESS, name, b')"
    and wire: "fits blob" "fits (connMd a)" "\<forall>(t, c) \<in> set (connMd a). t \<noteq> [] \<and> c \<noteq> []"
      "fits (published env (sectionMap (localSection a)))"
      "\<forall>kl \<in> set (published env (sectionMap (localSection a))). segment_ok env kl"
    and reg: "section_at (localSection a) m e = Some l" "supportsRemote env e" "d \<in> set (descs l)"
      "map_of (backendEngines b) (engineType env e) = Some e'"
  shows "name = agName a \<and> (\<exists>t c. conn_known b' name t c) \<and>
    (\<exists>gen s. map_of (remoteSections b') name = Some (gen, s) \<and> has_region s m e' (basic d) (metaBlob d))"
proof -
  let ?secs = "sectionMap (localSection a)"
  let ?A = "field_image ''Agent'' (agName a)" and ?C = "field_image ''Conns'' (u64_bytes (size_of (connMd a)))"
    and ?M = "field_image [] ''MemSection''"
  note img = getLocalMD_image [OF get]
  obtain sd1 where imp: "importStr blob serdes_new = (NIXL_SUCCESS, sd1)"
    using img(1) by (simp add: importStr_magic)
  have r1: "serdes_wf sd1" "remaining sd1 = ?A @ (?C @ conns_image (connMd a) @ ?M @ sections_image env ?secs)"
    using importStr_wf [OF imp wire(1)] remaining_import [of _ serdes_new] imp img(1)
    by (simp_all add: md_header_image_def)
  have g2: "getStr ''Agent'' sd1 = (agName a, advance ?A sd1)" by (rule getStr_field [OF r1(1) _ r1(2)]) simp
  note r2 = advance_remaining [OF r1]
  have g3: "getBuf ''Conns'' 8 (advance ?A sd1) = (NIXL_SUCCESS, u64_bytes (size_of (connMd a)), advance ?C (advance ?A sd1))"
    using getBuf_field [OF r2(1) _ r2(2)] by simp
  note r3 = advance_remaining [OF r2]
  obtain st cnt sd4 b4 where c: "load_conns env' (agName a) (length (connMd a)) 0 (advance ?C (advance ?A sd1)) b = (st, cnt, sd4, b4)"
    by (metis prod.exhaust)
  obtain tag sd5 where tag: "getStr [] sd4 = (tag, sd5)" by fastforce
  have n: "unat (size_of (connMd a)) = length (connMd a)" "size_of (connMd a) \<noteq> 0"
    using wire(2) img(2) unat_size_of [OF wire(2)] by (auto simp flip: unat_eq_zero)
  have go: "st = NIXL_SUCCESS" "cnt \<noteq> 0" "tag = ''MemSection''" "agName a \<noteq> []" "agName a \<noteq> agName b"
    and sec: "loadRemoteSections env' g (agName a) sd5 b4 = Some (NIXL_SUCCESS, b')" and nm: "name = agName a"
    using load n by (auto simp: loadRemoteMD_def imp g2 g3 c tag word_neq_0_conv split: if_splits)
  note rd = load_conns_read [OF r3 wire(3) inv(2) c [unfolded go(1)]]
  have i4: "agent_inv env' b4" "backendEngines b4 = backendEngines b"
    using load_conns_inv [OF inv(2) c] by (simp_all add: conns_only_def)
  have r4: "serdes_wf sd4" "remaining sd4 = ?M @ sections_image env ?secs" using rd by simp_all
  have "getStr [] sd4 = (''MemSection'', advance ?M sd4)" by (rule getStr_field [OF r4(1) _ r4(2)]) simp
  then have sd5: "sd5 = advance ?M sd4" using tag by simp
  note r5 = advance_remaining [OF r4]
  obtain gen s where s: "map_of (remoteSections b') (agName a) = Some (gen, s)" "remoteBackends b' = remoteBackends b4"
    and vis: "\<forall>(name, l) \<in> set (map (public_view env) (published env ?secs)). \<forall>e. map_of (backendEngines b4) name = Some e \<longrightarrow>
      (\<forall>d \<in> set (descs l). has_region s (getType l) e (normalizeQuery \<lparr>getType = getType l, descs = []\<rparr> (basic d)) (metaInfo d))"
    using loadRemoteSections_content [OF i4(1) r5(1) _ wire(4,5), of "[]" g "agName a" b'] r5(2) sec sd5 by auto
  have "has_region s m e' (basic d) (metaBlob d)"
    by (rule published_visible [OF _ vis reg(1-3)]) (use inv(1) reg(4) i4(2) in \<open>auto simp: agent_inv_def regs_balanced_def\<close>)
  moreover have "\<exists>t c. conn_known b' name t c"
    using rd go(2) s(2) nm by (auto simp: conn_known_def)
  ultimately show ?thesis using s(1) nm by blast
qed

definition ex_agent :: "string \<Rightarrow> section_map_t \<Rightarrow> bhist \<Rightarrow> nixlAgentData" where
  "ex_agent name secs h =
     \<lparr>agName = name, notifEngines = [1], agMemToBackend = (\<lambda>m. if m = DRAM_SEG then [1] else []), mvhToEngine = [],
      remoteBackends = [], telemetryOn = False, errorLog = [], memLog = [], xferLog = [], backendHandles = [(''UCX'', 1)],
      connMd = [(''UCX'', ''conn'')], backendEngines = [(''UCX'', 1)], remoteSections = [], nextGen = 0,
      localSection = \<lparr>memToBackend = (\<lambda>m. if secs \<noteq> [] \<and> m = DRAM_SEG then [1] else []), sectionMap = secs\<rparr>, hist = h\<rparr>"

definition ex_publisher :: nixlAgentData where
  "ex_publisher = ex_agent ''alice'' (ex_secs DRAM_SEG) [EvRegisterMem 1 (section_to_blob (ex_region 0 7)) DRAM_SEG NIXL_SUCCESS 7]"

lemma ex_agent_inv: "agent_inv ex_env ex_publisher" "agent_inv ex_env (ex_agent name [] [])"
  by (auto simp: ex_publisher_def ex_agent_def agent_inv_def remotes_wf_def backends_wf_def regs_balanced_def
      sections_wf_def ex_secs_def om_ordered_def sec_wf_def sec_sorted_def ex_region_def held_def md_count_def ex_env_def
      split: if_splits)

lemma ex_exchange:
  "\<exists>blob b'. getLocalMD ex_env ex_publisher = (NIXL_SUCCESS, blob) \<and> fits blob \<and>
     loadRemoteMD ex_env DRAM_SEG blob (ex_agent ''bob'' [] []) = Some (NIXL_SUCCESS, ''alice'', b')"
proof -
  let ?b = "ex_agent ''bob'' [] []" and ?conns = "[(''UCX'', ''conn'')] :: (string \<times> string) list"
  let ?S = "sections_image ex_env (ex_secs DRAM_SEG)"
  define blob where "blob = serdes_magic @ md_header_image ''alice'' ?conns @ ?S"
  have get: "getLocalMD ex_env ex_publisher = (NIXL_SUCCESS, blob)"
    by (simp add: getLocalMD_def md_header_image local_serialize_def serializeSections_image exportStr_def blob_def
        ex_publisher_def ex_agent_def)
  have fb: "fits blob"
    using ex_secs_ok(4) [of DRAM_SEG]
    by (simp add: blob_def fits_def md_header_image_def conns_image_def length_field_image serdes_magic_def sections_image_def
        segment_image_def ex_secs_def published_def elm_list_image_def list_header_def section_desc_serialize_def ex_region_def)
  let ?A = "field_image ''Agent'' ''alice''" and ?C = "field_image ''Conns'' (u64_bytes (size_of ?conns))"
    and ?T = "field_image ''t'' ''UCX''" and ?c = "field_image ''c'' ''conn''" and ?M = "field_image [] ''MemSection''"
  obtain sd1 where imp: "importStr blob serdes_new = (NIXL_SUCCESS, sd1)" by (simp add: blob_def importStr_magic)
  have r1: "serdes_wf sd1" "remaining sd1 = ?A @ (?C @ ?T @ ?c @ ?M @ ?S)"
    using importStr_wf [OF imp fb] remaining_import [of _ serdes_new] imp
    by (simp_all add: blob_def md_header_image_def conns_image_def)
  note r2 = advance_remaining [OF r1] note r3 = advance_remaining [OF r2] note r4 = advance_remaining [OF r3]
  note r5 = advance_remaining [OF r4] note r6 = advance_remaining [OF r5]
  define b1 where "b1 = ?b\<lparr>hist := [EvLoadRemoteConnInfo 1 ''alice'' ''conn'' NIXL_SUCCESS], remoteBackends := [(''alice'', ?conns)]\<rparr>"
  have conn: "loadConnInfo ex_env ''alice'' ''UCX'' ''conn'' ?b = (NIXL_SUCCESS, b1)"
    by (simp add: loadConnInfo_def ex_agent_def b1_def bk_loadRemoteConnInfo_def ex_env_def)
  have "remote_section_of ''alice'' b1 = (0, remote_section_new ''alice'', b1\<lparr>remoteSections := [(''alice'', 0, remote_section_new ''alice'')], nextGen := 1\<rparr>)"
    by (simp add: remote_section_of_def b1_def ex_agent_def Let_def)
  moreover have "\<exists>sd' s' h'. loadRemoteData ex_env DRAM_SEG [(''UCX'', 1)] (advance ?M (advance ?c (advance ?T (advance ?C (advance ?A sd1)))))
      (remote_section_new ''alice'') (hist b1) = (NIXL_SUCCESS, sd', s', h')"
    using loadRemoteData_published [OF r6(1), of ex_env "ex_secs DRAM_SEG" "[]" ex_env DRAM_SEG "[(''UCX'', 1)]"
        "remote_section_new ''alice''" "hist b1"] r6(2) ex_secs_ok [of DRAM_SEG] ex_loaded [of DRAM_SEG "''alice''" "hist b1"]
    by (auto split: prod.splits)
  moreover have "backendEngines b1 = [(''UCX'', 1)]" by (simp add: b1_def ex_agent_def)
  ultimately obtain b' where sec: "loadRemoteSections ex_env DRAM_SEG ''alice''
      (advance ?M (advance ?c (advance ?T (advance ?C (advance ?A sd1))))) b1 = Some (NIXL_SUCCESS, b')"
    by (auto simp: loadRemoteSections_def Let_def)
  have "agName ?b = ''bob''" by (simp add: ex_agent_def)
  moreover have "unat (size_of ?conns) = Suc 0" by (simp add: size_of_def)
  ultimately have "loadRemoteMD ex_env DRAM_SEG blob ?b = Some (NIXL_SUCCESS, ''alice'', b')"
    using getStr_field [OF r1(1) _ r1(2)] getBuf_field [OF r2(1) _ r2(2)] getStr_field [OF r3(1) _ r3(2)]
      getStr_field [OF r4(1) _ r4(2)] getStr_field [OF r5(1) _ r5(2)] conn sec
    by (simp add: loadRemoteMD_def imp)
  with get fb show ?thesis by blast
qed

theorem metadata_exchange_witness:
  "\<exists>blob b' gen s. getLocalMD ex_env ex_publisher = (NIXL_SUCCESS, blob) \<and>
     loadRemoteMD ex_env DRAM_SEG blob (ex_agent ''bob'' [] []) = Some (NIXL_SUCCESS, ''alice'', b') \<and>
     map_of (remoteSections b') ''alice'' = Some (gen, s) \<and> has_region s DRAM_SEG 1 \<lparr>addr = 0, len = 64, devId = 0\<rparr> ''k''"
proof -
  obtain blob b' where x: "getLocalMD ex_env ex_publisher = (NIXL_SUCCESS, blob)" "fits blob"
    "loadRemoteMD ex_env DRAM_SEG blob (ex_agent ''bob'' [] []) = Some (NIXL_SUCCESS, ''alice'', b')"
    using ex_exchange by blast
  have w: "fits (connMd ex_publisher)" "\<forall>(t, c) \<in> set (connMd ex_publisher). t \<noteq> [] \<and> c \<noteq> []"
    "sectionMap (localSection ex_publisher) = ex_secs DRAM_SEG"
    by (simp_all add: ex_publisher_def ex_agent_def fits_def)
  have "''alice'' = agName ex_publisher \<and> (\<exists>t c. conn_known b' ''alice'' t c) \<and>
    (\<exists>gen s. map_of (remoteSections b') ''alice'' = Some (gen, s) \<and> has_region s DRAM_SEG 1 (basic (ex_region 0 7)) (metaBlob (ex_region 0 7)))"
    by (rule metadata_exchange [OF ex_agent_inv x(1,3,2) w(1,2), where e = 1 and l = "\<lparr>getType = DRAM_SEG, descs = [ex_region 0 7]\<rparr>"])
      (use ex_secs_ok [of DRAM_SEG] w(3) in \<open>auto simp: ex_secs_def ex_agent_def\<close>)
  with x show ?thesis by (auto simp: ex_region_def nixlBasicDesc.truncate_def)
qed



end
