(* ===== verification/Nixl_AgentXfer.thy ===== *)
theory Nixl_AgentXfer
  imports Nixl_AgentMD Nixl_Merge
begin

text \<open>
  Transfer requests (\<open>src/core/transfer_request.h\<close>, \<open>src/core/nixl_agent.cpp\<close>): prepared descriptor
  lists, building a request from indices or from lists, posting, polling and releasing it. A handle
  refers to the remote registration it was made for by its generation; the operations are proved to
  refuse a handle whose generation is gone, for all time. Trace spans and log output are left out;
  a duration read from the clock is an argument.
\<close>

datatype nixl_telemetry_stat_status_t = NIXL_TELEMETRY_POST | NIXL_TELEMETRY_POST_AND_FINISH | NIXL_TELEMETRY_FINISH

record nixlXferReqH =
  xEngine :: engine
  backendHandle :: req_ptr
  initiatorDescs :: nixl_meta_dlist_t
  targetDescs :: nixl_meta_dlist_t
  xRemoteAgent :: string
  xRemoteSection :: generation
  xNotifMsg :: blob
  xHasNotif :: bool
  backendOp :: nixl_xfer_op_t
  xStatus :: nixl_status_t
  totalBytes :: u64
  xDescCount :: nat
  postDuration :: nat
  xferDuration :: nat

record nixlDlistH =
  dRemoteAgent :: string
  dDescs :: "(engine \<times> nixlMetaStrideDescList) list"
  dRemoteSectionRef :: "generation option"

definition xfer_req_new :: "string \<Rightarrow> nixl_xfer_op_t \<Rightarrow> nixl_mem_t \<Rightarrow> nixl_mem_t \<Rightarrow> generation \<Rightarrow> nixlXferReqH" where
  "xfer_req_new ag op local_type remote_type gen =
     \<lparr>xEngine = 0, backendHandle = 0, initiatorDescs = \<lparr>getType = local_type, descs = []\<rparr>,
      targetDescs = \<lparr>getType = remote_type, descs = []\<rparr>, xRemoteAgent = ag, xRemoteSection = gen, xNotifMsg = [],
      xHasNotif = False, backendOp = op, xStatus = NIXL_ERR_NOT_POSTED, totalBytes = 0, xDescCount = 0,
      postDuration = 0, xferDuration = 0\<rparr>"

text \<open>\<open>weak_ptr::expired\<close>.\<close>

definition expired :: "generation \<Rightarrow> nixlAgentData \<Rightarrow> bool" where
  "expired g a \<longleftrightarrow> g \<notin> set (map (\<lambda>(ag, gen, s). gen) (remoteSections a))"

definition req_destroy :: "benv \<Rightarrow> nixlXferReqH \<Rightarrow> bhist \<Rightarrow> bhist" where
  "req_destroy env req h =
     (if backendHandle req \<noteq> 0 \<and> xEngine req \<noteq> 0 then snd (bk_releaseReqH env (xEngine req) (backendHandle req) h) else h)"

definition updateRequestStats :: "nat \<Rightarrow> nixl_telemetry_stat_status_t \<Rightarrow> nixlXferReqH \<Rightarrow> nixlAgentData \<Rightarrow> nixlXferReqH \<times> nixlAgentData" where
  "updateRequestStats duration stat req a =
     (let req = (case stat of
                   NIXL_TELEMETRY_POST \<Rightarrow> req\<lparr>postDuration := duration\<rparr>
                 | NIXL_TELEMETRY_POST_AND_FINISH \<Rightarrow> req\<lparr>postDuration := duration, xferDuration := duration\<rparr>
                 | NIXL_TELEMETRY_FINISH \<Rightarrow> req\<lparr>xferDuration := duration\<rparr>)
      in (req, if stat \<noteq> NIXL_TELEMETRY_POST
               then a\<lparr>xferLog := (duration, backendOp req = NIXL_WRITE, totalBytes req, postDuration req) # xferLog a\<rparr>
               else a))"

definition finish_stats :: "nat \<Rightarrow> nixlXferReqH \<Rightarrow> nixlAgentData \<Rightarrow> nixlXferReqH \<times> nixlAgentData" where
  "finish_stats duration req a =
     (if telemetryOn a then updateRequestStats duration NIXL_TELEMETRY_FINISH req a else (req, a))"

subsection \<open>Prepared descriptor lists\<close>

definition NIXL_INIT_AGENT :: string where
  "NIXL_INIT_AGENT = ''''"

type_synonym populate_fn = "nixlMemSection \<Rightarrow> engine \<Rightarrow> nixlMetaStrideDescList \<Rightarrow> nixl_status_t \<times> nixlMetaStrideDescList"

fun prep_each :: "populate_fn \<Rightarrow> nixlMemSection \<Rightarrow> nixl_mem_t \<Rightarrow> engine list \<Rightarrow> (engine \<times> nixlMetaStrideDescList) list" where
  "prep_each pop sec m [] = []"
| "prep_each pop sec m (e # es) =
     (let (st, dlist) = pop sec e \<lparr>getType = m, descs = []\<rparr>
      in if st = NIXL_SUCCESS then (e, dlist) # prep_each pop sec m es else prep_each pop sec m es)"

definition prep_xfer_dlist :: "populate_fn \<Rightarrow> string \<Rightarrow> nixl_mem_t \<Rightarrow> nixl_opt_args_t option \<Rightarrow> nixlAgentData \<Rightarrow>
    nixl_status_t \<times> nixlDlistH option \<times> nixlAgentData" where
  "prep_xfer_dlist pop ag m extra a =
     (let init_side = (ag = NIXL_INIT_AGENT); rem = map_of (remoteSections a) ag
      in if \<not> init_side \<and> rem = None then (NIXL_ERR_NOT_FOUND, None, addErrorTelemetry NIXL_ERR_NOT_FOUND a)
         else let sec = (if init_side then localSection a else nixlMemSection.truncate (snd (the rem)));
                  query = queryBackends m sec
              in if no_backends extra \<and> (query = None \<or> query = Some [])
                 then (NIXL_ERR_NOT_FOUND, None, addErrorTelemetry NIXL_ERR_NOT_FOUND a)
                 else let backend_set = (if no_backends extra then the query else set_of_handles (backends (the extra)));
                          dlists = prep_each pop sec m backend_set
                      in if dlists = [] then (NIXL_ERR_NOT_FOUND, None, addErrorTelemetry NIXL_ERR_NOT_FOUND a)
                         else (NIXL_SUCCESS,
                               Some \<lparr>dRemoteAgent = ag, dDescs = dlists,
                                     dRemoteSectionRef = (if init_side then None else Some (fst (the rem)))\<rparr>, a))"

definition prepXferDlist :: "string \<Rightarrow> nixl_xfer_dlist_t \<Rightarrow> nixl_opt_args_t option \<Rightarrow> nixlAgentData \<Rightarrow>
    nixl_status_t \<times> nixlDlistH option \<times> nixlAgentData" where
  "prepXferDlist ag ds extra a = prep_xfer_dlist (\<lambda>sec e. populate_compress sec ds e) ag (getType ds) extra a"

definition prepXferDlist_stride :: "string \<Rightarrow> nixl_stride_dlist_t \<Rightarrow> nixl_opt_args_t option \<Rightarrow> nixlAgentData \<Rightarrow>
    nixl_status_t \<times> nixlDlistH option \<times> nixlAgentData" where
  "prepXferDlist_stride ag ds extra a = prep_xfer_dlist (\<lambda>sec e. populate_stride sec ds e) ag (getType ds) extra a"

subsection \<open>Building a request\<close>

definition notif_args :: "nixl_opt_args_t option \<Rightarrow> nixl_opt_b_args_t" where
  "notif_args extra =
     (case extra of
        None \<Rightarrow> opt_b_args_default
      | Some x \<Rightarrow>
          (let args = opt_b_args_default\<lparr>b_customParam := customParam x\<rparr>
           in case notif x of
                Some msg \<Rightarrow> args\<lparr>b_notifMsg := msg, b_hasNotif := True\<rparr>
              | None \<Rightarrow> if hasNotif x then args\<lparr>b_notifMsg := notifMsg x, b_hasNotif := True\<rparr> else args))"

text \<open>The call into the engine that ends both builders; a failed request is destroyed, which releases
  a handle the engine may have set.\<close>

definition prep_request :: "benv \<Rightarrow> nixl_opt_b_args_t \<Rightarrow> nixlXferReqH \<Rightarrow> nixlAgentData \<Rightarrow>
    nixl_status_t \<times> nixlXferReqH option \<times> nixlAgentData" where
  "prep_request env args req a =
     (let (ret, q, h) = bk_prepXfer env (xEngine req) (backendOp req) (descs (initiatorDescs req)) (descs (targetDescs req))
                          (xRemoteAgent req) args (hist a);
          req = req\<lparr>backendHandle := q\<rparr>
      in if ret \<noteq> NIXL_SUCCESS then (ret, None, addErrorTelemetry ret (a\<lparr>hist := req_destroy env req h\<rparr>))
         else (NIXL_SUCCESS, Some req, a\<lparr>hist := h\<rparr>))"

definition common_backend :: "nixlDlistH \<Rightarrow> nixlDlistH \<Rightarrow> nixl_opt_args_t option \<Rightarrow> engine option" where
  "common_backend loc rem extra =
     List.find (\<lambda>e. map_of (dDescs loc) e \<noteq> None \<and> map_of (dDescs rem) e \<noteq> None)
       (if no_backends extra then map fst (dDescs loc) else backends (the extra))"

definition makeXferReq :: "benv \<Rightarrow> nixl_xfer_op_t \<Rightarrow> nixlDlistH option \<Rightarrow> u32 list \<Rightarrow> nixlDlistH option \<Rightarrow> u32 list \<Rightarrow>
    nixl_opt_args_t option \<Rightarrow> nixlAgentData \<Rightarrow> (nixl_status_t \<times> nixlXferReqH option \<times> nixlAgentData) option" where
  "makeXferReq env op local_side local_indices remote_side remote_indices extra a =
     (case (local_side, remote_side) of
        (Some loc, Some rem) \<Rightarrow>
          if dRemoteAgent loc \<noteq> [] \<or> dRemoteAgent rem = []
          then Some (NIXL_ERR_INVALID_PARAM, None, addErrorTelemetry NIXL_ERR_INVALID_PARAM a)
          else if local_indices = [] \<or> remote_indices = [] \<or> length local_indices \<noteq> length remote_indices
          then Some (NIXL_ERR_INVALID_PARAM, None, a)
          else (case common_backend loc rem extra of
             None \<Rightarrow> Some (NIXL_ERR_INVALID_PARAM, None, a)
           | Some e \<Rightarrow>
               let args = notif_args extra
               in if b_hasNotif args \<and> \<not> supportsNotif env e then Some (NIXL_ERR_BACKEND, None, a)
                  else case dRemoteSectionRef rem of
                    None \<Rightarrow> Some (NIXL_ERR_NOT_FOUND, None, addErrorTelemetry NIXL_ERR_NOT_FOUND a)
                  | Some gen \<Rightarrow>
                      if expired gen a then Some (NIXL_ERR_NOT_FOUND, None, addErrorTelemetry NIXL_ERR_NOT_FOUND a)
                      else let ld = the (map_of (dDescs loc) e); rd = the (map_of (dDescs rem) e);
                               req = xfer_req_new (dRemoteAgent rem) op (getType ld) (getType rd) gen;
                               skip = (case extra of None \<Rightarrow> False | Some x \<Rightarrow> skipDescMerge x)
                           in (case mergeIndices (descs ld) (descs rd) local_indices remote_indices skip [] [] 0 of
                                 None \<Rightarrow> None
                               | Some (ret, ms) \<Rightarrow>
                                   if ret \<noteq> NIXL_SUCCESS then Some (ret, None, a)
                                   else Some (prep_request env args
                                     (req\<lparr>initiatorDescs := (initiatorDescs req)\<lparr>descs := initiator_descs ms\<rparr>,
                                          targetDescs := (targetDescs req)\<lparr>descs := target_descs ms\<rparr>,
                                          xEngine := e, xNotifMsg := b_notifMsg args, xHasNotif := b_hasNotif args,
                                          totalBytes := total_bytes ms, xDescCount := length (initiator_descs ms)\<rparr>) a)))
      | _ \<Rightarrow> Some (NIXL_ERR_INVALID_PARAM, None, addErrorTelemetry NIXL_ERR_INVALID_PARAM a))"

fun pick_backend :: "nixlLocalSection \<Rightarrow> nixlRemoteSection \<Rightarrow> nixl_xfer_dlist_t \<Rightarrow> nixl_xfer_dlist_t \<Rightarrow> engine list \<Rightarrow> nixlXferReqH \<Rightarrow> nixlXferReqH" where
  "pick_backend ls rs ld rd [] req = req"
| "pick_backend ls rs ld rd (e # es) req =
     (let (ret1, ini) = populate ls ld e (initiatorDescs req); (ret2, tgt) = populate rs rd e (targetDescs req);
          req = req\<lparr>initiatorDescs := ini, targetDescs := tgt\<rparr>
      in if ret1 = NIXL_SUCCESS \<and> ret2 = NIXL_SUCCESS then req\<lparr>xEngine := e\<rparr> else pick_backend ls rs ld rd es req)"

definition createXferReq :: "benv \<Rightarrow> nixl_xfer_op_t \<Rightarrow> nixl_xfer_dlist_t \<Rightarrow> nixl_xfer_dlist_t \<Rightarrow> string \<Rightarrow>
    nixl_opt_args_t option \<Rightarrow> nixlAgentData \<Rightarrow> nixl_status_t \<times> nixlXferReqH option \<times> nixlAgentData" where
  "createXferReq env op ld rd ag extra a =
     (if descCount ld \<noteq> descCount rd then (NIXL_ERR_INVALID_PARAM, None, a)
      else if \<not> list_all2 (\<lambda>l r. len l = len r) (descs ld) (descs rd) then (NIXL_ERR_INVALID_PARAM, None, a)
      else case map_of (remoteSections a) ag of
        None \<Rightarrow> (NIXL_ERR_NOT_FOUND, None, addErrorTelemetry NIXL_ERR_NOT_FOUND a)
      | Some (gen, rs) \<Rightarrow>
          let local_set = queryBackends (getType ld) (localSection a); remote_set = queryBackends (getType rd) rs;
              backend_set = (if no_backends extra then filter (\<lambda>e. e \<in> set (the remote_set)) (the local_set)
                             else set_of_handles (backends (the extra)))
          in if no_backends extra \<and> (local_set = None \<or> remote_set = None \<or> backend_set = []) then (NIXL_ERR_NOT_FOUND, None, a)
             else let req = pick_backend (localSection a) rs ld rd backend_set (xfer_req_new ag op (getType ld) (getType rd) gen);
                      args = notif_args extra
                  in if xEngine req = 0 then (NIXL_ERR_NOT_FOUND, None, addErrorTelemetry NIXL_ERR_NOT_FOUND a)
                     else if b_hasNotif args \<and> \<not> supportsNotif env (xEngine req)
                     then (NIXL_ERR_BACKEND, None, addErrorTelemetry NIXL_ERR_BACKEND a)
                     else prep_request env args
                            (req\<lparr>xNotifMsg := b_notifMsg args, xHasNotif := b_hasNotif args,
                                 totalBytes := foldl (\<lambda>s d. s + len d) 0 (descs ld),
                                 xDescCount := length (descs (initiatorDescs req))\<rparr>) a)"

subsection \<open>Posting and polling\<close>

text \<open>The check at the start of a post: the request, the agent and, when the post has to be refused,
  the status to return.\<close>

definition settle :: "benv \<Rightarrow> nat \<Rightarrow> nixlXferReqH \<Rightarrow> nixlAgentData \<Rightarrow> nixl_status_t option \<times> nixlXferReqH \<times> nixlAgentData" where
  "settle env duration req a =
     (if xStatus req \<noteq> NIXL_IN_PROG then (None, req, a)
      else let (st, h) = bk_checkXfer env (xEngine req) (backendHandle req) (hist a);
               req = req\<lparr>xStatus := st\<rparr>; a = a\<lparr>hist := h\<rparr>;
               (req, a) = (if st = NIXL_SUCCESS then finish_stats duration req a else (req, a))
           in if st = NIXL_IN_PROG then (Some NIXL_ERR_REPOST_ACTIVE, req, addErrorTelemetry NIXL_ERR_REPOST_ACTIVE a)
              else let a = (if is_err st then addErrorTelemetry st a else a)
                   in if st = NIXL_ERR_REMOTE_DISCONNECT then (Some NIXL_ERR_REMOTE_DISCONNECT, req, a)
                      else (None, req, a))"

text \<open>The notification of a post: the one of the request, replaced or cleared by the call's optional
  arguments.\<close>

definition post_args :: "nixlXferReqH \<Rightarrow> nixl_opt_args_t option \<Rightarrow> nixl_opt_b_args_t \<times> nixlXferReqH" where
  "post_args req extra =
     (let args = (if xHasNotif req then opt_b_args_default\<lparr>b_notifMsg := xNotifMsg req, b_hasNotif := True\<rparr> else opt_b_args_default)
      in case extra of
           None \<Rightarrow> (args, req)
         | Some x \<Rightarrow>
             let args = args\<lparr>b_customParam := customParam x\<rparr>
             in (case notif x of
                   Some msg \<Rightarrow> (args\<lparr>b_notifMsg := msg, b_hasNotif := True\<rparr>, req\<lparr>xNotifMsg := msg, xHasNotif := True\<rparr>)
                 | None \<Rightarrow>
                     if hasNotif x
                     then (args\<lparr>b_notifMsg := notifMsg x, b_hasNotif := True\<rparr>, req\<lparr>xNotifMsg := notifMsg x, xHasNotif := True\<rparr>)
                     else (args\<lparr>b_hasNotif := False\<rparr>, req\<lparr>xHasNotif := False\<rparr>)))"

definition post_stats :: "nat \<Rightarrow> nixlXferReqH \<Rightarrow> nixlAgentData \<Rightarrow> nixlXferReqH \<times> nixlAgentData" where
  "post_stats duration req a =
     (if \<not> telemetryOn a then (req, a)
      else if is_err (xStatus req) then (req, addErrorTelemetry (xStatus req) a)
      else if xStatus req = NIXL_IN_PROG then updateRequestStats duration NIXL_TELEMETRY_POST req a
      else updateRequestStats duration NIXL_TELEMETRY_POST_AND_FINISH req a)"

definition postXferReq :: "benv \<Rightarrow> nat \<Rightarrow> nixlXferReqH option \<Rightarrow> nixl_opt_args_t option \<Rightarrow> nixlAgentData \<Rightarrow>
    nixl_status_t \<times> nixlXferReqH option \<times> nixlAgentData" where
  "postXferReq env duration req_hndl extra a =
     (case req_hndl of
        None \<Rightarrow> (NIXL_ERR_INVALID_PARAM, None, addErrorTelemetry NIXL_ERR_INVALID_PARAM a)
      | Some req \<Rightarrow>
          if expired (xRemoteSection req) a then (NIXL_ERR_NOT_FOUND, Some req, addErrorTelemetry NIXL_ERR_NOT_FOUND a)
          else (case settle env duration req a of
             (Some ret, req, a) \<Rightarrow> (ret, Some req, a)
           | (None, req, a) \<Rightarrow>
               let (args, req) = post_args req extra
               in if b_hasNotif args \<and> \<not> supportsNotif env (xEngine req)
                  then (NIXL_ERR_BACKEND, Some req, addErrorTelemetry NIXL_ERR_BACKEND a)
                  else let (st, q, h) = bk_postXfer env (xEngine req) (backendOp req) (descs (initiatorDescs req))
                                          (descs (targetDescs req)) (xRemoteAgent req) (backendHandle req) args (hist a);
                           req = req\<lparr>xStatus := st, backendHandle := q\<rparr>; a = a\<lparr>hist := h\<rparr>
                       in if st = NIXL_ERR_REMOTE_DISCONNECT
                          then (st, Some req, addErrorTelemetry NIXL_ERR_REMOTE_DISCONNECT a)
                          else let (req, a) = post_stats duration req a in (xStatus req, Some req, a)))"

definition getXferStatus :: "benv \<Rightarrow> nat \<Rightarrow> nixlXferReqH \<Rightarrow> nixlAgentData \<Rightarrow> nixl_status_t \<times> nixlXferReqH \<times> nixlAgentData" where
  "getXferStatus env duration req a =
     (if xStatus req \<noteq> NIXL_IN_PROG then (xStatus req, req, a)
      else if expired (xRemoteSection req) a then (NIXL_ERR_NOT_FOUND, req, a)
      else let (st, h) = bk_checkXfer env (xEngine req) (backendHandle req) (hist a);
               req = req\<lparr>xStatus := st\<rparr>; a = a\<lparr>hist := h\<rparr>
           in if st = NIXL_ERR_REMOTE_DISCONNECT then (st, req, addErrorTelemetry st a)
              else if st = NIXL_SUCCESS then let (req, a) = finish_stats duration req a in (st, req, a)
              else (st, req, if is_err st then addErrorTelemetry st a else a))"

definition getXferTelemetry :: "nixlXferReqH \<Rightarrow> nixlAgentData \<Rightarrow> nixl_status_t \<times> (u64 \<times> nat \<times> nat \<times> nat) option" where
  "getXferTelemetry req a =
     (if \<not> telemetryOn a then (NIXL_ERR_NO_TELEMETRY, None)
      else if xStatus req \<noteq> NIXL_SUCCESS then (xStatus req, None)
      else (NIXL_SUCCESS, Some (totalBytes req, xDescCount req, postDuration req, xferDuration req)))"

text \<open>The engine's estimate is an argument.\<close>

definition estimateXferCost :: "(nixlXferReqH \<Rightarrow> nixl_status_t) \<Rightarrow> nixlXferReqH \<Rightarrow> nixlAgentData \<Rightarrow> nixl_status_t \<times> nixlAgentData" where
  "estimateXferCost est req a =
     (if xRemoteAgent req \<noteq> [] \<and> expired (xRemoteSection req) a then (NIXL_ERR_NOT_FOUND, addErrorTelemetry NIXL_ERR_NOT_FOUND a)
      else if xEngine req = 0 then (NIXL_ERR_UNKNOWN, addErrorTelemetry NIXL_ERR_UNKNOWN a)
      else (est req, a))"

definition queryXferBackend :: "benv \<Rightarrow> nixlXferReqH \<Rightarrow> nixlAgentData \<Rightarrow> nixl_status_t \<times> engine option" where
  "queryXferBackend env req a = (NIXL_SUCCESS, map_of (backendHandles a) (engineType env (xEngine req)))"

subsection \<open>Releasing\<close>

definition releaseXferReq :: "benv \<Rightarrow> nat \<Rightarrow> nixlXferReqH \<Rightarrow> nixlAgentData \<Rightarrow> nixl_status_t \<times> nixlXferReqH option \<times> nixlAgentData" where
  "releaseXferReq env duration req a =
     (let delete = (\<lambda>req a. (NIXL_SUCCESS, None, a\<lparr>hist := req_destroy env req (hist a)\<rparr>))
      in if xStatus req \<noteq> NIXL_IN_PROG then delete req a
         else let (st, h) = bk_checkXfer env (xEngine req) (backendHandle req) (hist a);
                  req = req\<lparr>xStatus := st\<rparr>; a = a\<lparr>hist := h\<rparr>;
                  (req, a) = (if st = NIXL_SUCCESS then finish_stats duration req a
                              else (req, if is_err st then addErrorTelemetry st a else a))
              in if st \<noteq> NIXL_IN_PROG then delete req a
                 else let (rel, h) = bk_releaseReqH env (xEngine req) (backendHandle req) (hist a); a = a\<lparr>hist := h\<rparr>
                      in if is_err rel then (NIXL_ERR_REPOST_ACTIVE, Some req, addErrorTelemetry NIXL_ERR_REPOST_ACTIVE a)
                         else delete (req\<lparr>xStatus := rel, backendHandle := 0\<rparr>) a)"

subsection \<open>The data path leaves the bookkeeping alone\<close>

definition unlogged :: "nixlAgentData \<Rightarrow> nixlAgentData" where
  "unlogged a = a\<lparr>hist := [], errorLog := [], xferLog := []\<rparr>"

definition log_only :: "nixlAgentData \<Rightarrow> nixlAgentData \<Rightarrow> bool" where
  "log_only a a' \<longleftrightarrow> unlogged a' = unlogged a \<and> (\<forall>e md. reg_bal (hist a') e md = reg_bal (hist a) e md)"

lemma log_only_refl [simp]: "log_only a a"
  by (simp add: log_only_def)

lemma log_only_trans: "log_only a b \<Longrightarrow> log_only b c \<Longrightarrow> log_only a c"
  by (simp add: log_only_def)

lemma log_only_hist: "(\<And>e md. reg_bal h e md = reg_bal (hist a) e md) \<Longrightarrow> log_only a (a\<lparr>hist := h\<rparr>)"
  by (simp add: log_only_def unlogged_def)

lemma log_only_error: "log_only a (addErrorTelemetry st a)"
  by (simp add: log_only_def unlogged_def addErrorTelemetry_def)

lemma log_only_stats: "updateRequestStats d st req a = (req', a') \<Longrightarrow> log_only a a'"
  by (auto simp: log_only_def unlogged_def updateRequestStats_def Let_def)

lemma log_only_fields:
  assumes "log_only a a'"
  shows "remoteSections a' = remoteSections a" "nextGen a' = nextGen a" "localSection a' = localSection a" "same_backends a a'"
proof -
  have eq: "f (unlogged a') = f (unlogged a)" for f :: "nixlAgentData \<Rightarrow> 'b" using assms by (simp add: log_only_def)
  show "remoteSections a' = remoteSections a" "nextGen a' = nextGen a" "localSection a' = localSection a" "same_backends a a'"
    using eq [of remoteSections] eq [of nextGen] eq [of localSection] eq [of agName] eq [of backendHandles] eq [of backendEngines]
      eq [of connMd] eq [of notifEngines] eq [of remoteBackends]
    by (simp_all add: unlogged_def same_backends_def)
qed

lemma log_only_expired: "log_only a a' \<Longrightarrow> expired g a' = expired g a"
  by (simp add: expired_def log_only_fields)

lemma log_only_inv:
  assumes "log_only a a'" and "agent_inv env a"
  shows "agent_inv env a'"
proof -
  note f = log_only_fields [OF assms(1)]
  have "regs_balanced a'" using assms f by (simp add: agent_inv_def regs_balanced_def log_only_def)
  moreover have "remotes_wf a'" using assms(2) f by (auto simp: agent_inv_def intro: remotes_wf_cong)
  ultimately show ?thesis using assms(2) f(4) same_backends_wf by (auto simp: agent_inv_def)
qed

lemma log_only_call: "(\<And>e md. reg_delta e md ev = 0) \<Longrightarrow> log_only a (a\<lparr>hist := ev # hist a\<rparr>)"
  by (rule log_only_hist) simp

lemma bk_checkXfer_log: "bk_checkXfer env e q (hist a) = (st, h) \<Longrightarrow> log_only a (a\<lparr>hist := h\<rparr>)"
  by (auto simp: bk_checkXfer_def Let_def intro: log_only_call)

lemma bk_releaseReqH_log: "bk_releaseReqH env e q (hist a) = (st, h) \<Longrightarrow> log_only a (a\<lparr>hist := h\<rparr>)"
  by (auto simp: bk_releaseReqH_def Let_def intro: log_only_call)

lemma req_destroy_log: "log_only a (a\<lparr>hist := req_destroy env req (hist a)\<rparr>)"
  by (auto simp: req_destroy_def bk_releaseReqH_def Let_def intro: log_only_call)

lemma bk_postXfer_log: "bk_postXfer env e op l r ag q args (hist a) = (st, q', h) \<Longrightarrow> log_only a (a\<lparr>hist := h\<rparr>)"
  by (auto simp: bk_postXfer_def split: prod.splits intro: log_only_call)

lemma finish_stats_log: "finish_stats d req a = (req', a') \<Longrightarrow> log_only a a'"
  by (auto simp: finish_stats_def intro: log_only_stats split: if_splits)

lemma post_stats_log: "post_stats d req a = (req', a') \<Longrightarrow> log_only a a'"
  by (auto simp: post_stats_def intro: log_only_stats log_only_error split: if_splits)

lemma settle_log:
  assumes "settle env d req a = (r, req', a')"
  shows "log_only a a'"
proof (cases "xStatus req = NIXL_IN_PROG")
  case True
  obtain st h where c: "bk_checkXfer env (xEngine req) (backendHandle req) (hist a) = (st, h)" by fastforce
  obtain req1 a1 where f: "(if st = NIXL_SUCCESS then finish_stats d (req\<lparr>xStatus := st\<rparr>) (a\<lparr>hist := h\<rparr>) else (req\<lparr>xStatus := st\<rparr>, a\<lparr>hist := h\<rparr>)) = (req1, a1)"
    by fastforce
  have "log_only (a\<lparr>hist := h\<rparr>) a1" using f finish_stats_log by (auto split: if_splits)
  then have l: "log_only a a1" using bk_checkXfer_log [OF c] log_only_trans by blast
  have "a' = a1 \<or> (\<exists>st. a' = addErrorTelemetry st a1)"
    using assms True c f by (auto simp: settle_def Let_def split: if_splits)
  with l log_only_error log_only_trans show ?thesis by blast
qed (use assms in \<open>simp add: settle_def\<close>)

lemma prep_request_log:
  assumes "prep_request env args req a = (st, r, a')"
  shows "log_only a a'"
proof -
  obtain ret q h where c: "bk_prepXfer env (xEngine req) (backendOp req) (descs (initiatorDescs req)) (descs (targetDescs req))
      (xRemoteAgent req) args (hist a) = (ret, q, h)" by (metis prod.exhaust)
  then have l: "log_only a (a\<lparr>hist := h\<rparr>)"
    by (auto simp: bk_prepXfer_def split: prod.splits intro: log_only_call)
  have "log_only (a\<lparr>hist := h\<rparr>) (a\<lparr>hist := req_destroy env (req\<lparr>backendHandle := q\<rparr>) h\<rparr>)"
    using req_destroy_log [of "a\<lparr>hist := h\<rparr>" env "req\<lparr>backendHandle := q\<rparr>"] by simp
  from log_only_trans [OF log_only_trans [OF l this] log_only_error [of _ ret]] l show ?thesis
    using assms c by (auto simp: prep_request_def Let_def split: if_splits)
qed

lemma makeXferReq_log:
  assumes "makeXferReq env op l li r ri extra a = Some (st, req, a')"
  shows "log_only a a'"
proof (cases "l = None \<or> r = None")
  case True
  with assms log_only_error show ?thesis by (auto simp: makeXferReq_def split: option.splits)
next
  case False
  then obtain loc rem where lr: "l = Some loc" "r = Some rem" by auto
  have "a' = a \<or> (\<exists>e. a' = addErrorTelemetry e a) \<or> (\<exists>args q. prep_request env args q a = (st, req, a'))"
    using assms unfolding makeXferReq_def lr by (auto simp: Let_def split: if_splits option.splits prod.splits)
  with log_only_error prep_request_log show ?thesis by auto
qed

lemma createXferReq_log:
  assumes "createXferReq env op ld rd ag extra a = (st, req, a')"
  shows "log_only a a'"
proof -
  have "a' = a \<or> (\<exists>e. a' = addErrorTelemetry e a) \<or> (\<exists>args q. prep_request env args q a = (st, req, a'))"
    using assms unfolding createXferReq_def by (auto simp: Let_def split: if_splits option.splits prod.splits)
  with log_only_error prep_request_log show ?thesis by auto
qed

lemma prepXferDlist_log: "prep_xfer_dlist pop ag m extra a = (st, d, a') \<Longrightarrow> log_only a a'"
  unfolding prep_xfer_dlist_def Let_def by (auto intro: log_only_error split: if_splits)

lemma postXferReq_log:
  assumes "postXferReq env d r extra a = (st, r', a')"
  shows "log_only a a'"
proof (cases r)
  case None
  with assms log_only_error show ?thesis by (auto simp: postXferReq_def)
next
  case (Some req)
  show ?thesis
  proof (cases "expired (xRemoteSection req) a")
    case True
    with assms Some log_only_error show ?thesis by (auto simp: postXferReq_def)
  next
    case False
    obtain v req1 a1 where s: "settle env d req a = (v, req1, a1)" by (metis prod.exhaust)
    note l1 = settle_log [OF s]
    obtain args req2 where p: "post_args req1 extra = (args, req2)" by fastforce
    obtain st2 q h where b: "bk_postXfer env (xEngine req2) (backendOp req2) (descs (initiatorDescs req2))
      (descs (targetDescs req2)) (xRemoteAgent req2) (backendHandle req2) args (hist a1) = (st2, q, h)" by (metis prod.exhaust)
    obtain req3 a3 where f: "post_stats d (req2\<lparr>xStatus := st2, backendHandle := q\<rparr>) (a1\<lparr>hist := h\<rparr>) = (req3, a3)" by fastforce
    note l2 = log_only_trans [OF l1 bk_postXfer_log [OF b]]
    have "a' = a1 \<or> (\<exists>e. a' = addErrorTelemetry e a1) \<or> (\<exists>e. a' = addErrorTelemetry e (a1\<lparr>hist := h\<rparr>)) \<or> a' = a3"
      using assms Some False s p b f by (cases v) (auto simp: postXferReq_def Let_def split: if_splits)
    with l1 l2 log_only_trans [OF l1 log_only_error] log_only_trans [OF l2 log_only_error] log_only_trans [OF l2 post_stats_log [OF f]]
    show ?thesis by blast
  qed
qed

lemma getXferStatus_log:
  assumes "getXferStatus env d req a = (st, req', a')"
  shows "log_only a a'"
proof (cases "xStatus req \<noteq> NIXL_IN_PROG \<or> expired (xRemoteSection req) a")
  case True
  with assms show ?thesis by (auto simp: getXferStatus_def split: if_splits)
next
  case False
  obtain st1 h where c: "bk_checkXfer env (xEngine req) (backendHandle req) (hist a) = (st1, h)" by fastforce
  obtain req2 a2 where f: "finish_stats d (req\<lparr>xStatus := st1\<rparr>) (a\<lparr>hist := h\<rparr>) = (req2, a2)" by fastforce
  note l = bk_checkXfer_log [OF c]
  have "a' = a2 \<or> a' = a\<lparr>hist := h\<rparr> \<or> a' = addErrorTelemetry st1 (a\<lparr>hist := h\<rparr>)"
    using assms False c f by (auto simp: getXferStatus_def Let_def split: if_splits)
  with l log_only_trans [OF l log_only_error] log_only_trans [OF l finish_stats_log [OF f]] show ?thesis by blast
qed

lemma releaseXferReq_log:
  assumes "releaseXferReq env d req a = (st, req', a')"
  shows "log_only a a'"
proof (cases "xStatus req = NIXL_IN_PROG")
  case False
  with assms req_destroy_log show ?thesis by (auto simp: releaseXferReq_def)
next
  case True
  obtain st1 h where c: "bk_checkXfer env (xEngine req) (backendHandle req) (hist a) = (st1, h)" by fastforce
  define req1 where "req1 = req\<lparr>xStatus := st1\<rparr>"
  obtain req2 a2 where f: "(if st1 = NIXL_SUCCESS then finish_stats d req1 (a\<lparr>hist := h\<rparr>)
      else (req1, if is_err st1 then addErrorTelemetry st1 (a\<lparr>hist := h\<rparr>) else a\<lparr>hist := h\<rparr>)) = (req2, a2)" by fastforce
  have "log_only (a\<lparr>hist := h\<rparr>) a2"
    using f finish_stats_log log_only_error by (auto split: if_splits)
  then have l: "log_only a a2" by (rule log_only_trans [OF bk_checkXfer_log [OF c]])
  obtain rel h3 where r: "bk_releaseReqH env (xEngine req2) (backendHandle req2) (hist a2) = (rel, h3)" by fastforce
  note l3 = log_only_trans [OF l bk_releaseReqH_log [OF r]]
  have "a' = a2\<lparr>hist := req_destroy env req2 (hist a2)\<rparr> \<or> a' = addErrorTelemetry NIXL_ERR_REPOST_ACTIVE (a2\<lparr>hist := h3\<rparr>) \<or>
      (\<exists>q. a' = (a2\<lparr>hist := h3\<rparr>)\<lparr>hist := req_destroy env q (hist (a2\<lparr>hist := h3\<rparr>))\<rparr>)"
    using assms True c f r unfolding releaseXferReq_def req1_def [symmetric] by (auto simp: Let_def req1_def split: if_splits)
  with log_only_trans [OF l req_destroy_log] log_only_trans [OF l3 log_only_error] log_only_trans [OF l3 req_destroy_log]
  show ?thesis by blast
qed

end
