(* ===== verification/Nixl_AgentLife.thy ===== *)
theory Nixl_AgentLife
  imports Nixl_AgentXfer
begin

text \<open>
  The life of an agent: a step relation with one rule per public method of \<open>nixlAgent\<close>, the agent's
  invariant over all reachable states, the fate of handles whose remote registration is gone, and
  the life of a transfer request from its first post to its release.
\<close>

subsection \<open>Steps\<close>

inductive agent_step :: "benv \<Rightarrow> nixlAgentData \<Rightarrow> nixlAgentData \<Rightarrow> bool" for env where
  step_createBackend: "createBackend env type a = (st, e, a') \<Longrightarrow> agent_step env a a'"
| step_registerMem: "distinct_elms ds \<Longrightarrow> registerMem env ds extra a = (st, a') \<Longrightarrow> agent_step env a a'"
| step_deregisterMem: "distinct_elms ds \<Longrightarrow> deregisterMem env ds extra a = (st, a') \<Longrightarrow> agent_step env a a'"
| step_makeConnection: "makeConnection env ag extra a = (st, a') \<Longrightarrow> agent_step env a a'"
| step_loadRemoteMD: "loadRemoteMD env g blob a = Some (st, name, a') \<Longrightarrow> agent_step env a a'"
| step_invalidateRemoteMD: "invalidateRemoteMD env ag a = Some (st, a') \<Longrightarrow> agent_step env a a'"
| step_checkRemoteMD: "checkRemoteMD ag xs a = (st, a') \<Longrightarrow> agent_step env a a'"
| step_getNotifs: "getNotifs env m extra a = (st, m', a') \<Longrightarrow> agent_step env a a'"
| step_genNotif: "genNotif env ag msg extra a = (st, a') \<Longrightarrow> agent_step env a a'"
| step_prepMemView_remote: "prepMemView_remote env vs extra a = (st, v, a') \<Longrightarrow> agent_step env a a'"
| step_prepMemView_local: "prepMemView_local env xs extra a = (st, v, a') \<Longrightarrow> agent_step env a a'"
| step_releaseMemView: "agent_step env a (releaseMemView v a)"
| step_prepXferDlist: "prepXferDlist ag xs extra a = (st, d, a') \<Longrightarrow> agent_step env a a'"
| step_prepXferDlist_stride: "prepXferDlist_stride ag ss extra a = (st, d, a') \<Longrightarrow> agent_step env a a'"
| step_makeXferReq: "makeXferReq env op l li r ri extra a = Some (st, req, a') \<Longrightarrow> agent_step env a a'"
| step_createXferReq: "createXferReq env op xs ys ag extra a = (st, req, a') \<Longrightarrow> agent_step env a a'"
| step_postXferReq: "postXferReq env t req extra a = (st, req', a') \<Longrightarrow> agent_step env a a'"
| step_getXferStatus: "getXferStatus env t q a = (st, q', a') \<Longrightarrow> agent_step env a a'"
| step_estimateXferCost: "estimateXferCost est q a = (st, a') \<Longrightarrow> agent_step env a a'"
| step_releaseXferReq: "releaseXferReq env t q a = (st, req', a') \<Longrightarrow> agent_step env a a'"

definition agent_start :: "nixlAgentData \<Rightarrow> bool" where
  "agent_start a \<longleftrightarrow> (\<exists>name te ct. agent_new name te ct = Inr a)"

lemma estimateXferCost_log: "estimateXferCost est q a = (st, a') \<Longrightarrow> log_only a a'"
  by (auto simp: estimateXferCost_def intro: log_only_error split: if_splits)

lemma prepXferDlist_logs:
  "prepXferDlist ag xs extra a = (st, d, a') \<Longrightarrow> log_only a a'" "prepXferDlist_stride ag ss extra a = (st, d, a') \<Longrightarrow> log_only a a'"
  unfolding prepXferDlist_def prepXferDlist_stride_def by (erule prepXferDlist_log)+

lemmas xfer_log = prepXferDlist_logs makeXferReq_log createXferReq_log postXferReq_log getXferStatus_log estimateXferCost_log releaseXferReq_log

lemma agent_step_inv:
  assumes "creates_typed env" and "agent_inv env a" and "agent_step env a a'"
  shows "agent_inv env a'"
  using assms(3)
proof cases
  case (step_loadRemoteMD g blob st name)
  with loadRemoteMD_inv [OF assms(2), of g blob] show ?thesis by auto
next
  case (step_invalidateRemoteMD ag st)
  with invalidate_total [OF assms(2), of ag] assms(2) show ?thesis by (auto simp: invalidateRemoteMD_def split: if_splits)
next
  case step_createBackend
  with assms createBackend_inv show ?thesis by metis
next
  case step_registerMem
  with assms(2) registerMem_inv show ?thesis by metis
next
  case step_deregisterMem
  with assms(2) deregisterMem_inv show ?thesis by metis
next
  case step_checkRemoteMD
  with assms(2) checkRemoteMD_inv show ?thesis by metis
qed (insert assms(2), (erule makeConnection_hist [THEN hist_only_inv] getNotifs_hist [THEN hist_only_inv] genNotif_hist [THEN hist_only_inv]
       prepMemView_inv [rotated] xfer_log [THEN log_only_inv] | simp add: releaseMemView_inv)+)

lemma agent_life_inv:
  assumes "creates_typed env"
  shows "invariant_system agent_start (agent_step env) (agent_inv env)"
  by unfold_locales (use assms agent_step_inv agent_new_inv in \<open>auto simp: agent_start_def\<close>)

subsection \<open>Generations\<close>

text \<open>A step never brings back a generation that is gone: what it adds is new.\<close>

definition gens :: "nixlAgentData \<Rightarrow> generation set" where
  "gens a = set (map (\<lambda>(ag, g, s). g) (remoteSections a))"

definition gens_step :: "nixlAgentData \<Rightarrow> nixlAgentData \<Rightarrow> bool" where
  "gens_step a a' \<longleftrightarrow> nextGen a \<le> nextGen a' \<and> (\<forall>g \<in> gens a'. g \<in> gens a \<or> nextGen a \<le> g)"

lemma expired_gens: "expired g a \<longleftrightarrow> g \<notin> gens a"
  by (simp add: expired_def gens_def)

lemma gens_step_trans: "gens_step a b \<Longrightarrow> gens_step b c \<Longrightarrow> gens_step a c"
  unfolding gens_step_def by (meson order_trans)

lemma gens_step_same: "remoteSections a' = remoteSections a \<Longrightarrow> nextGen a' = nextGen a \<Longrightarrow> gens_step a a'"
  by (simp add: gens_step_def gens_def)

lemma gens_step_memLog: "gens_step a (b\<lparr>memLog := l\<rparr>) \<longleftrightarrow> gens_step a b"
  by (simp add: gens_step_def gens_def)

lemma set_um_update: "set (um_update k v m) \<subseteq> insert (k, v) (set m)"
  by (induction m) (auto split: if_splits)

lemma set_al_delete: "set (al_delete k m) \<subseteq> set m"
  by (auto simp: al_delete_def)

lemma remote_section_of_gens:
  assumes "remote_section_of ag a = (g, s, a')"
  shows "gens_step a a'" and "g \<in> gens a'"
proof -
  have "gens_step a a' \<and> g \<in> gens a'"
  proof (cases "map_of (remoteSections a) ag")
    case None
    then have a': "a' = a\<lparr>remoteSections := um_update ag (nextGen a, remote_section_new ag) (remoteSections a), nextGen := Suc (nextGen a)\<rparr>"
      and g: "g = nextGen a" using assms by (auto simp: remote_section_of_def Let_def)
    have "map_of (um_update ag (nextGen a, remote_section_new ag) (remoteSections a)) ag = Some (nextGen a, remote_section_new ag)" by simp
    from map_of_SomeD [OF this] have "g \<in> gens a'" by (force simp: a' g gens_def)
    moreover have "gens_step a a'"
      using set_um_update [of ag "(nextGen a, remote_section_new ag)" "remoteSections a"] by (force simp: a' gens_step_def gens_def)
    ultimately show ?thesis by simp
  next
    case (Some gs)
    with assms have "a' = a" "gs = (g, s)" by (auto simp: remote_section_of_def split: prod.splits)
    with map_of_SomeD [OF Some] show ?thesis by (force simp: gens_step_def gens_def)
  qed
  then show "gens_step a a'" "g \<in> gens a'" by auto
qed

lemma put_remote_gens: "g \<in> gens a \<Longrightarrow> gens_step a (put_remote ag g s a)"
  using set_um_update [of ag "(g, s)" "remoteSections a"] by (force simp: gens_step_def gens_def put_remote_def)

lemma forget_gens: "remoteSections a' = al_delete ag (remoteSections a) \<Longrightarrow> nextGen a' = nextGen a \<Longrightarrow> gens_step a a'"
  using set_al_delete [of ag "remoteSections a"] by (force simp: gens_step_def gens_def)

lemma map_of_gens: "map_of (remoteSections a) ag = Some (g, s) \<Longrightarrow> g \<in> gens a"
  by (force simp: gens_def dest: map_of_SomeD)

lemma register_one_gens:
  assumes "register_one env ds e a = (ok, a')"
  shows "gens_step a a'"
proof -
  obtain ret sl ls h where add: "local_addDescList env ds e \<lparr>getType = getType ds, descs = []\<rparr> (localSection a) (hist a) = (ret, sl, ls, h)"
    by (metis prod.exhaust)
  define a1 where "a1 = a\<lparr>localSection := ls, hist := h\<rparr>"
  obtain g rs a2 where ra: "remote_section_of (agName a1) a1 = (g, rs, a2)" by (metis prod.exhaust)
  obtain ret2 rs' where ld: "loadLocalData sl e rs = (ret2, rs')" by fastforce
  define a3 where "a3 = put_remote (agName a2) g rs' a2"
  have "gens_step a a1" by (rule gens_step_same) (simp_all add: a1_def)
  moreover note remote_section_of_gens [OF ra]
  moreover from this(2) have "gens_step a2 a3" unfolding a3_def by (rule put_remote_gens)
  moreover have "gens_step a3 (a3\<lparr>localSection := x, hist := y\<rparr>)" for x y by (rule gens_step_same) simp_all
  moreover have "a' = a1 \<or> a' = a3 \<or> (\<exists>x y. a' = a3\<lparr>localSection := x, hist := y\<rparr>)"
    using assms add ra ld by (auto simp: register_one_def a1_def [symmetric] a3_def [symmetric] Let_def split: if_splits prod.splits)
  ultimately show ?thesis using gens_step_trans by metis
qed

lemma register_each_gens: "register_each env ds es n a = (n', a') \<Longrightarrow> gens_step a a'"
proof (induction es arbitrary: n a)
  case (Cons e es)
  obtain ok a1 where r: "register_one env ds e a = (ok, a1)" by fastforce
  from Cons.prems r have "register_each env ds es (if ok then n + 1 else n) a1 = (n', a')" by simp
  from gens_step_trans [OF register_one_gens [OF r] Cons.IH [OF this]] show ?case .
qed (simp add: gens_step_same)

lemma deregister_one_gens:
  assumes "deregister_one env ds e a = (st, a')"
  shows "gens_step a a'"
proof -
  define a1 where "a1 = (if supportsLocal env e
               then case map_of (remoteSections a) (agName a) of
                      None \<Rightarrow> a
                    | Some (g, rs) \<Rightarrow> let (rs, h) = removeLocalData ds e rs (hist a)
                                      in put_remote (agName a) g rs (a\<lparr>hist := h\<rparr>)
               else a)"
  have "gens_step a a1"
  proof (cases "supportsLocal env e \<and> map_of (remoteSections a) (agName a) \<noteq> None")
    case True
    then obtain g rs where m: "map_of (remoteSections a) (agName a) = Some (g, rs)" by auto
    obtain rs' h where r: "removeLocalData ds e rs (hist a) = (rs', h)" by fastforce
    have "gens_step a (a\<lparr>hist := h\<rparr>)" by (rule gens_step_same) simp_all
    moreover have "g \<in> gens (a\<lparr>hist := h\<rparr>)" using map_of_gens [OF m] by (simp add: gens_def)
    ultimately show ?thesis using True m r put_remote_gens gens_step_trans by (auto simp: a1_def)
  qed (auto simp: a1_def gens_step_same split: option.split)
  moreover have "\<exists>x y. a' = a1\<lparr>localSection := x, hist := y\<rparr>"
    using assms by (auto simp: deregister_one_def a1_def [symmetric] split: prod.splits)
  then have "gens_step a1 a'" by (auto intro: gens_step_same)
  ultimately show ?thesis by (rule gens_step_trans)
qed

lemma deregister_each_gens: "deregister_each env ds es b a = (b', a') \<Longrightarrow> gens_step a a'"
proof (induction es arbitrary: b a)
  case (Cons e es)
  obtain st a1 where r: "deregister_one env ds e a = (st, a1)" by fastforce
  from Cons.prems r have "deregister_each env ds es (if st \<noteq> NIXL_SUCCESS then st else b) a1 = (b', a')" by simp
  from gens_step_trans [OF deregister_one_gens [OF r] Cons.IH [OF this]] show ?case .
qed (simp add: gens_step_same)

lemma disconnect_each_frame:
  "disconnect_each env ag bs ret a = Some (r, a') \<Longrightarrow> remoteSections a' = remoteSections a \<and> nextGen a' = nextGen a"
proof (induction bs arbitrary: ret a)
  case (Cons tc bs)
  obtain t c where tc: "tc = (t, c)" by fastforce
  obtain e a1 where r: "engine_ref t a = (e, a1)" by fastforce
  then have "remoteSections a1 = remoteSections a" "nextGen a1 = nextGen a" by (auto simp: engine_ref_def split: option.splits)
  moreover obtain st h where "bk_disconnect env e ag (hist a1) = (st, h)" by fastforce
  moreover note Cons.IH [of "if st \<noteq> NIXL_SUCCESS then st else ret" "a1\<lparr>hist := h\<rparr>"]
  ultimately show ?case using Cons.prems tc r by (auto split: if_splits)
qed simp

lemma invalidate_gens:
  assumes "invalidateRemoteMDLocked env ag a = Some (st, a')"
  shows "gens_step a a'"
proof -
  define a1 where "a1 = (case map_of (remoteSections a) ag of None \<Rightarrow> a
      | Some (g, s) \<Rightarrow> a\<lparr>remoteSections := al_delete ag (remoteSections a), hist := remote_destroy s (hist a)\<rparr>)"
  have "gens_step a a1"
    by (cases "map_of (remoteSections a) ag") (auto simp: a1_def gens_step_same intro!: forget_gens split: prod.split)
  moreover have "remoteSections a' = remoteSections a1 \<and> nextGen a' = nextGen a1"
    using assms disconnect_each_frame
    by (cases "map_of (remoteSections a) ag") (auto simp: invalidateRemoteMDLocked_def a1_def split: option.splits)
  then have "gens_step a1 a'" by (auto intro: gens_step_same)
  ultimately show ?thesis by (rule gens_step_trans)
qed

lemma loadRemoteSections_gens:
  assumes "loadRemoteSections env g ag sd a = Some (st, a')"
  shows "gens_step a a'"
proof -
  obtain gen s a1 where r: "remote_section_of ag a = (gen, s, a1)" by (metis prod.exhaust)
  obtain ret sd' s' h where l: "loadRemoteData env g (backendEngines a1) sd s (hist a1) = (ret, sd', s', h)"
    by (metis prod.exhaust)
  define a2 where "a2 = put_remote ag gen s' (a1\<lparr>hist := h\<rparr>)"
  note rg = remote_section_of_gens [OF r]
  have "gens_step a1 (a1\<lparr>hist := h\<rparr>)" "gen \<in> gens (a1\<lparr>hist := h\<rparr>)" using rg(2) by (auto simp: gens_def intro: gens_step_same)
  with rg put_remote_gens have "gens_step a a2" unfolding a2_def using gens_step_trans by metis
  moreover have "a' = a2 \<or> (\<exists>ret. invalidateRemoteMDLocked env ag a2 = Some (ret, a'))"
    using assms r l by (auto simp: loadRemoteSections_def a2_def [symmetric] split: if_splits)
  ultimately show ?thesis using invalidate_gens gens_step_trans by blast
qed

lemma loadConnInfo_gens: "loadConnInfo env ag t c a = (st, a') \<Longrightarrow> remoteSections a' = remoteSections a \<and> nextGen a' = nextGen a"
  by (auto simp: loadConnInfo_def Let_def split: option.splits if_splits prod.splits)

lemma load_conns_gens:
  "load_conns env ag n cnt sd a = (st, cnt', sd', a') \<Longrightarrow> remoteSections a' = remoteSections a \<and> nextGen a' = nextGen a"
proof (induction n arbitrary: cnt sd a)
  case (Suc n)
  obtain t sd1 where t: "getStr ''t'' sd = (t, sd1)" by fastforce
  obtain c sd2 where c: "getStr ''c'' sd1 = (c, sd2)" by fastforce
  obtain ret a1 where l: "loadConnInfo env ag t c a = (ret, a1)" by fastforce
  show ?case using Suc.prems t c l loadConnInfo_gens [OF l] Suc.IH [where a = a1] by (auto split: if_splits)
qed simp

lemma loadRemoteMD_gens:
  assumes "loadRemoteMD env g blob a = Some (st, name, a')"
  shows "gens_step a a'"
proof -
  obtain r1 sd1 where 1: "importStr blob serdes_new = (r1, sd1)" by fastforce
  obtain ag sd2 where 2: "getStr ''Agent'' sd1 = (ag, sd2)" by fastforce
  obtain r3 buf sd3 where 3: "getBuf ''Conns'' 8 sd2 = (r3, buf, sd3)" by (metis prod.exhaust)
  obtain r4 cnt sd4 a4 where 4: "load_conns env ag (unat (bytes_u64 buf)) 0 sd3 a = (r4, cnt, sd4, a4)" by (metis prod.exhaust)
  obtain tag sd5 where 5: "getStr [] sd4 = (tag, sd5)" by fastforce
  have "gens_step a a4" using load_conns_gens [OF 4] by (auto intro: gens_step_same)
  moreover have "a' = a \<or> a' = a4 \<or> (\<exists>ret. loadRemoteSections env g ag sd5 a4 = Some (ret, a'))"
    using assms 1 2 3 4 5 by (auto simp: loadRemoteMD_def split: if_splits)
  moreover have "gens_step a a" by (rule gens_step_same) simp_all
  ultimately show ?thesis using loadRemoteSections_gens gens_step_trans by blast
qed

lemma check_each_frame: "check_each bs s ds dummy a = (st, a') \<Longrightarrow> remoteSections a' = remoteSections a \<and> nextGen a' = nextGen a"
proof (induction bs arbitrary: dummy a)
  case (Cons tc bs)
  obtain t c where tc: "tc = (t, c)" by fastforce
  obtain e a1 where r: "engine_ref t a = (e, a1)" by fastforce
  then have "remoteSections a1 = remoteSections a" "nextGen a1 = nextGen a" by (auto simp: engine_ref_def split: option.splits)
  moreover obtain st' dummy' where "populate s ds e dummy = (st', dummy')" by fastforce
  ultimately show ?case using Cons.prems Cons.IH [of dummy' a1] tc r by (auto split: if_splits)
qed simp

lemma finish_view_frame: "finish_view env e rem loc p a = (st, v, a') \<Longrightarrow> remoteSections a' = remoteSections a \<and> nextGen a' = nextGen a"
  by (auto simp: finish_view_def Let_def split: prod.splits if_splits)

lemma agent_step_gens:
  assumes "agent_step env a a'"
  shows "gens_step a a'"
proof -
  have frame: ?thesis if "remoteSections a' = remoteSections a \<and> nextGen a' = nextGen a"
    using that by (auto intro: gens_step_same)
  have hist: ?thesis if "hist_only a a'" using hist_only_fields [OF that] frame by simp
  have log: ?thesis if "log_only a a'" using log_only_fields [OF that] frame by simp
  from assms show ?thesis
  proof cases
    case (step_createBackend type st e)
    then show ?thesis by (intro frame) (cases rule: createBackend_cases, auto)
  next
    case (step_registerMem ds extra st)
    then show ?thesis using register_each_gens frame
      by (auto simp: registerMem_def Let_def gens_step_memLog split: if_splits prod.splits)
  next
    case (step_deregisterMem ds extra st)
    then show ?thesis using deregister_each_gens frame
      by (auto simp: deregisterMem_def Let_def gens_step_memLog split: if_splits prod.splits)
  next
    case (step_invalidateRemoteMD ag st)
    then show ?thesis using invalidate_gens frame by (auto simp: invalidateRemoteMD_def split: if_splits)
  next
    case (step_checkRemoteMD ag xs st)
    then show ?thesis using check_each_frame frame by (auto simp: checkRemoteMD_def split: option.splits if_splits)
  next
    case (step_prepMemView_remote vs extra st v)
    then show ?thesis using finish_view_frame frame by (auto simp: prepMemView_remote_def split: if_splits prod.splits)
  next
    case (step_prepMemView_local xs extra st v)
    then show ?thesis using finish_view_frame frame by (auto simp: prepMemView_local_def split: if_splits prod.splits)
  next
    case (step_releaseMemView v)
    then show ?thesis using frame by (auto simp: releaseMemView_def split: option.splits)
  qed (assumption | erule loadRemoteMD_gens | rule hist, erule makeConnection_hist getNotifs_hist genNotif_hist | rule log, erule xfer_log)+
qed

lemma agent_steps_gens:
  assumes "(agent_step env)\<^sup>*\<^sup>* a a'" and "expired g a" and "g < nextGen a"
  shows "expired g a' \<and> g < nextGen a'"
  using assms
proof (induction rule: rtranclp_induct)
  case (step b c)
  then show ?case using agent_step_gens [OF step(2)] by (auto simp: gens_step_def expired_gens)
qed simp

text \<open>Invalidating a peer retires the generation of its sections.\<close>

lemma invalidate_expires:
  assumes "agent_inv env a" and "map_of (remoteSections a) ag = Some (g, s)" and "ag \<noteq> agName a"
    and "invalidateRemoteMD env ag a = Some (st, a')"
  shows "expired g a' \<and> g < nextGen a'"
proof -
  have inv: "invalidateRemoteMDLocked env ag a = Some (st, a')" using assms by (simp add: invalidateRemoteMD_def)
  have rs: "remoteSections a' = al_delete ag (remoteSections a)" using invalidate_total [OF assms(1), of ag] inv by auto
  have wf: "remotes_wf a" using assms(1) by (simp add: agent_inv_def)
  have "g \<notin> gens a'"
  proof
    assume "g \<in> gens a'"
    then obtain ag' s' where "(ag', g, s') \<in> set (remoteSections a)" "ag' \<noteq> ag" by (auto simp: gens_def rs al_delete_def)
    with wf have "map_of (remoteSections a) ag' = Some (g, s')" by (simp add: remotes_wf_def)
    with wf assms(2) \<open>ag' \<noteq> ag\<close> show False unfolding remotes_wf_def by metis
  qed
  moreover have "g < nextGen a" using wf assms(2) by (auto simp: remotes_wf_def)
  ultimately show ?thesis using invalidate_gens [OF inv] by (auto simp: expired_gens gens_step_def)
qed

subsection \<open>What a transfer request addresses\<close>

text \<open>Without any assumption on how the registered regions lie, each answer of \<open>populate\<close> belongs to
  a region that covers the query.\<close>

abbreviation placed_in :: "nixlSecDescList \<Rightarrow> nixlBasicDesc list \<Rightarrow> nixlMetaDesc list \<Rightarrow> bool" where
  "placed_in base \<equiv> list_all2 (\<lambda>q m. \<exists>d \<in> set (descs base). covers d q \<and> m = meta_of q d)"

lemma populate_loop_sound:
  assumes "sec_sorted base" and "s < length (descs base)" and "covers (descs base ! s) prev"
    and "populate_loop base s prev qs resp = (NIXL_SUCCESS, out)"
  shows "\<exists>ms. out = resp @ ms \<and> placed_in base qs ms"
  using assms(2-)
proof (induction qs arbitrary: s prev resp)
  case (Cons q qs)
  have next_ok: ?case if ok: "populate_loop base i q qs (resp @ [meta_of q (descs base ! i)]) = (NIXL_SUCCESS, out)"
    "i < length (descs base)" "covers (descs base ! i) q" for i
  proof -
    obtain ms where "out = (resp @ [meta_of q (descs base ! i)]) @ ms" "placed_in base qs ms"
      using Cons.IH [OF ok(2,3,1)] by blast
    with ok(2,3) show ?thesis by (intro exI [of _ "meta_of q (descs base ! i) # ms"]) auto
  qed
  show ?case
  proof (cases "basic_less q prev")
    case True
    with Cons.prems(3) next_ok [of "nat (getCoveringIndex base q)"] getCoveringIndex_sound [OF assms(1), of q]
    show ?thesis by (auto split: if_splits)
  next
    case False
    define i where "i = (if coversFollowingWithEnd (descs base ! s) (rangeEnd (descs base ! s)) q then s
                          else forward (descs base) (s + 1) q)"
    have "i < length (descs base) \<and> covers (descs base ! i) q" if "i \<noteq> length (descs base)"
      using that Cons.prems(1,2) following_covers [OF Cons.prems(2) False] forward_spec [of "s + 1" "descs base" q]
      by (auto simp: i_def split: if_splits)
    with Cons.prems(3) False next_ok [of i] show ?thesis
      by (auto simp: i_def [symmetric] Let_def split: if_splits)
  qed
qed simp

lemma populate_sound:
  assumes "populate sec query e resp = (NIXL_SUCCESS, out)" and "\<And>base. section_at sec (getType query) e = Some base \<Longrightarrow> sec_sorted base"
  shows "\<exists>base. section_at sec (getType query) e = Some base \<and> placed_in base (descs query) (descs out)"
proof -
  obtain base where b: "section_at sec (getType query) e = Some base" and ne: "descs query \<noteq> []"
    using assms(1) by (auto simp: populate_def isEmpty_def split: if_splits option.splits)
  then obtain q qs where q: "descs query = q # qs" by (cases "descs query") auto
  define i where "i = getCoveringIndex base q"
  obtain st ds where l: "populate_loop base (nat i) q qs [meta_of q (descs base ! nat i)] = (st, ds)" by fastforce
  have i: "\<not> i < 0" "st = NIXL_SUCCESS" "descs out = ds"
    using assms(1) b l q by (auto simp: populate_def i_def [symmetric] split: if_splits)
  then have ok: "nat i < length (descs base)" "covers (descs base ! nat i) q"
    using getCoveringIndex_sound [OF assms(2) [OF b], of q] by (auto simp: i_def)
  then have "\<exists>d \<in> set (descs base). covers d q \<and> meta_of q (descs base ! nat i) = meta_of q d" by auto
  with populate_loop_sound [OF assms(2) [OF b] ok, of qs "[meta_of q (descs base ! nat i)]" ds] l i b q show ?thesis by auto
qed

lemma pick_backend_frame:
  "xRemoteAgent (pick_backend ls rs ld rd es req) = xRemoteAgent req" "xRemoteSection (pick_backend ls rs ld rd es req) = xRemoteSection req"
  "backendOp (pick_backend ls rs ld rd es req) = backendOp req"
  by (induction es arbitrary: req) (auto simp: Let_def split: prod.splits)

lemma pick_backend_sound:
  assumes "sections_wf ls" and "sections_wf rs" and "xEngine req = 0" and "xEngine (pick_backend ls rs ld rd es req) \<noteq> 0"
  shows "\<exists>lb rb. section_at ls (getType ld) (xEngine (pick_backend ls rs ld rd es req)) = Some lb \<and>
    section_at rs (getType rd) (xEngine (pick_backend ls rs ld rd es req)) = Some rb \<and>
    placed_in lb (descs ld) (descs (initiatorDescs (pick_backend ls rs ld rd es req))) \<and>
    placed_in rb (descs rd) (descs (targetDescs (pick_backend ls rs ld rd es req)))"
  using assms(3,4)
proof (induction es arbitrary: req)
  case (Cons e es)
  obtain r1 ini where p1: "populate ls ld e (initiatorDescs req) = (r1, ini)" by fastforce
  obtain r2 tgt where p2: "populate rs rd e (targetDescs req) = (r2, tgt)" by fastforce
  show ?case
  proof (cases "r1 = NIXL_SUCCESS \<and> r2 = NIXL_SUCCESS")
    case True
    have "section_at ls m e = Some base \<Longrightarrow> sec_sorted base" "section_at rs m e = Some base \<Longrightarrow> sec_sorted base" for m base
      using assms(1,2) by (auto simp: sections_wf_def sec_wf_def)
    with populate_sound [of ls ld e _ ini] populate_sound [of rs rd e _ tgt] p1 p2 True
    obtain lb rb where "section_at ls (getType ld) e = Some lb" "placed_in lb (descs ld) (descs ini)"
      "section_at rs (getType rd) e = Some rb" "placed_in rb (descs rd) (descs tgt)" by meson
    with p1 p2 True show ?thesis by simp
  next
    case False
    then have "pick_backend ls rs ld rd (e # es) req = pick_backend ls rs ld rd es (req\<lparr>initiatorDescs := ini, targetDescs := tgt\<rparr>)"
      using p1 p2 by auto
    with Cons show ?thesis by simp
  qed
qed simp

lemma prep_request_success:
  assumes "prep_request env args req a = (NIXL_SUCCESS, r, a')"
  shows "\<exists>q. r = Some (req\<lparr>backendHandle := q\<rparr>) \<and>
    hist a' = EvPrepXfer (xEngine req) (backendOp req) (descs (initiatorDescs req)) (descs (targetDescs req)) (xRemoteAgent req) args NIXL_SUCCESS q # hist a"
  using assms by (auto simp: prep_request_def bk_prepXfer_def Let_def split: if_splits prod.splits)

text \<open>C2: A transfer request is only handed to an engine for memory that is registered there: when
  \<open>createXferReq\<close> succeeds, the peer is loaded, the chosen engine holds sections of both memory
  types, every local descriptor lies inside a locally registered region and every remote one
  inside a region the peer published, each entry carrying the metadata of such a region, with equal
  lengths pairwise; the engine's \<open>prepXfer\<close> is called once, with exactly these lists, and the
  request remembers the generation of the peer's sections.\<close>

theorem createXferReq_registered:
  assumes "agent_inv env a" and "createXferReq env op ld rd ag extra a = (NIXL_SUCCESS, Some req, a')"
  shows "\<exists>rs lb rb args. map_of (remoteSections a) ag = Some (xRemoteSection req, rs) \<and>
    section_at (localSection a) (getType ld) (xEngine req) = Some lb \<and> section_at rs (getType rd) (xEngine req) = Some rb \<and>
    placed_in lb (descs ld) (descs (initiatorDescs req)) \<and> placed_in rb (descs rd) (descs (targetDescs req)) \<and>
    list_all2 (\<lambda>l r. len l = len r) (descs (initiatorDescs req)) (descs (targetDescs req)) \<and>
    hist a' = EvPrepXfer (xEngine req) op (descs (initiatorDescs req)) (descs (targetDescs req)) ag args NIXL_SUCCESS (backendHandle req) # hist a"
proof -
  obtain gen rs where m: "map_of (remoteSections a) ag = Some (gen, rs)" and eq: "list_all2 (\<lambda>l r. len l = len r) (descs ld) (descs rd)"
    using assms(2) by (auto simp: createXferReq_def split: if_splits option.splits)
  define r0 where "r0 = xfer_req_new ag op (getType ld) (getType rd) gen"
  obtain es args where nz: "xEngine (pick_backend (localSection a) rs ld rd es r0) \<noteq> 0" and
    prep: "prep_request env args ((pick_backend (localSection a) rs ld rd es r0)\<lparr>xNotifMsg := b_notifMsg args, xHasNotif := b_hasNotif args,
       totalBytes := foldl (\<lambda>s d. s + len d) 0 (descs ld),
       xDescCount := length (descs (initiatorDescs (pick_backend (localSection a) rs ld rd es r0)))\<rparr>) a = (NIXL_SUCCESS, Some req, a')"
    using assms(2) m by (auto simp: createXferReq_def Let_def r0_def [symmetric] split: if_splits)
  define p where "p = pick_backend (localSection a) rs ld rd es r0"
  have wf: "sections_wf (localSection a)" "sections_wf rs"
    using assms(1) m by (auto simp: agent_inv_def regs_balanced_def remotes_wf_def)
  have "xEngine r0 = 0" by (simp add: r0_def xfer_req_new_def)
  from pick_backend_sound [OF wf this nz] obtain lb rb where b: "section_at (localSection a) (getType ld) (xEngine p) = Some lb"
    "section_at rs (getType rd) (xEngine p) = Some rb" "placed_in lb (descs ld) (descs (initiatorDescs p))"
    "placed_in rb (descs rd) (descs (targetDescs p))" by (auto simp: p_def)
  have fr: "xRemoteAgent p = ag" "xRemoteSection p = gen" "backendOp p = op"
    by (simp_all add: p_def pick_backend_frame r0_def xfer_req_new_def)
  have "list_all2 (\<lambda>l r. len l = len r) (descs (initiatorDescs p)) (descs (targetDescs p))"
    using eq b(3,4) by (fastforce simp: list_all2_conv_all_nth meta_of_def)
  with prep_request_success [OF prep] b fr m show ?thesis unfolding p_def [symmetric] by auto
qed

text \<open>An engine table that answers like \<open>ex_env\<close> and creates each engine under its type, and an
  agent with one registered region that has loaded a peer with one region.\<close>

definition life_env :: benv where
  "life_env = ex_env\<lparr>on_createEngine := (\<lambda>h t. if t = ''UCX'' then Some 1 else None)\<rparr>"

definition life_peer :: nixlRemoteSection where
  "life_peer = \<lparr>memToBackend = (\<lambda>m. if m = DRAM_SEG then [1] else []), sectionMap = ex_secs DRAM_SEG, agentName = ''alice''\<rparr>"

definition life_agent :: nixlAgentData where
  "life_agent = (ex_agent ''bob'' (ex_secs DRAM_SEG) [EvRegisterMem 1 (section_to_blob (ex_region 0 7)) DRAM_SEG NIXL_SUCCESS 7])
     \<lparr>remoteSections := [(''alice'', 0, life_peer)], nextGen := 1\<rparr>"

lemma life_agent_inv: "agent_inv life_env life_agent"
  by (auto simp: life_agent_def life_peer_def life_env_def ex_agent_def agent_inv_def remotes_wf_def backends_wf_def regs_balanced_def
      sections_wf_def ex_secs_def om_ordered_def sec_wf_def sec_sorted_def ex_region_def held_def md_count_def ex_env_def
      split: if_splits)

definition life_query :: nixl_xfer_dlist_t where
  "life_query = \<lparr>getType = DRAM_SEG, descs = [\<lparr>addr = 16, len = 16, devId = 0\<rparr>]\<rparr>"

lemma life_populate:
  assumes "section_at sec DRAM_SEG 1 = Some \<lparr>getType = DRAM_SEG, descs = [ex_region 0 7]\<rparr>" and "getType resp = DRAM_SEG"
  shows "fst (populate sec life_query 1 resp) = NIXL_SUCCESS"
proof -
  let ?l = "\<lparr>getType = DRAM_SEG, descs = [ex_region 0 7]\<rparr> :: nixlSecDescList" and ?q = "\<lparr>addr = 16, len = 16, devId = 0\<rparr> :: nixlBasicDesc"
  have s: "sec_sorted ?l" "sec_disjoint ?l" by (simp_all add: sec_sorted_def sec_disjoint_def)
  have "covers (ex_region 0 7) ?q" by (simp add: ex_covers)
  then have "resolve ?l [?q] = Some [meta_of ?q (ex_region 0 7)]" by (simp add: covering_section_def)
  with populate_resolve [of sec life_query 1 ?l resp] s assms show ?thesis by (simp add: life_query_def)
qed

lemma life_fields:
  "map_of (remoteSections life_agent) ''alice'' = Some (0, life_peer)" "queryBackends DRAM_SEG (localSection life_agent) = Some [1]"
  "queryBackends DRAM_SEG life_peer = Some [1]" "getType life_query = DRAM_SEG" "agName life_agent = ''bob''"
  "section_at (localSection life_agent) DRAM_SEG 1 = Some \<lparr>getType = DRAM_SEG, descs = [ex_region 0 7]\<rparr>"
  "section_at life_peer DRAM_SEG 1 = Some \<lparr>getType = DRAM_SEG, descs = [ex_region 0 7]\<rparr>"
  by (auto simp: life_agent_def ex_agent_def life_peer_def life_query_def queryBackends_def ex_secs_def mem_seg_defs)

lemma life_create: "\<exists>req a'. createXferReq life_env NIXL_WRITE life_query life_query ''alice'' None life_agent = (NIXL_SUCCESS, Some req, a')"
proof -
  define r0 where "r0 = xfer_req_new ''alice'' NIXL_WRITE DRAM_SEG DRAM_SEG 0"
  have t: "getType (initiatorDescs r0) = DRAM_SEG" "getType (targetDescs r0) = DRAM_SEG" by (simp_all add: r0_def xfer_req_new_def)
  obtain ini tgt where "populate (localSection life_agent) life_query 1 (initiatorDescs r0) = (NIXL_SUCCESS, ini)"
    "populate life_peer life_query 1 (targetDescs r0) = (NIXL_SUCCESS, tgt)"
    using life_populate [OF life_fields(6) t(1)] life_populate [OF life_fields(7) t(2)] by (metis prod.collapse)
  then have p: "pick_backend (localSection life_agent) life_peer life_query life_query [1] r0 = r0\<lparr>initiatorDescs := ini, targetDescs := tgt, xEngine := 1\<rparr>"
    by simp
  then show ?thesis
    by (simp add: createXferReq_def life_fields Let_def r0_def [symmetric] list_all2_same prep_request_def bk_prepXfer_def notif_args_def
        opt_b_args_default_def life_env_def ex_env_def)
qed

theorem createXferReq_registered_witness:
  "\<exists>req a'. createXferReq life_env NIXL_WRITE life_query life_query ''alice'' None life_agent = (NIXL_SUCCESS, Some req, a') \<and>
     (\<exists>rs rb. map_of (remoteSections life_agent) ''alice'' = Some (xRemoteSection req, rs) \<and>
       section_at rs DRAM_SEG (xEngine req) = Some rb \<and> placed_in rb (descs life_query) (descs (targetDescs req)))"
proof -
  obtain req a' where c: "createXferReq life_env NIXL_WRITE life_query life_query ''alice'' None life_agent = (NIXL_SUCCESS, Some req, a')"
    using life_create by blast
  from createXferReq_registered [OF life_agent_inv this] c show ?thesis by (auto simp: life_fields(4))
qed

subsection \<open>The agent over its whole life\<close>

text \<open>C1: From its construction on, through any sequence of public calls with any answers of the
  engines, an agent keeps its bookkeeping consistent: the sections of every peer are well formed
  and filed under its name with a generation of their own, handles, engines, connection data and
  notification engines agree, and \<open>GDS\<close> and \<open>GDS_MT\<close> are never both installed; and destroying it at
  any time brings every registration account of every engine to zero, so that no registration
  leaks and none is undone twice. The assumptions are that the plugin manager hands out engines of
  the type asked for and that a registration list names no region twice.\<close>

theorem agent_lifecycle:
  assumes "creates_typed env" and "reach agent_start (agent_step env) a"
  shows "remotes_wf a \<and> backends_wf env a \<and> regs_balanced a \<and> (\<forall>e md. reg_bal (agent_destroy a) e md = 0)"
  using invariant_system.reach_inv [OF agent_life_inv [OF assms(1)] assms(2)] agent_destroy_reg_bal
  by (simp add: agent_inv_def)

lemma life_env_typed: "creates_typed life_env"
  by (simp add: creates_typed_def life_env_def ex_env_def)

theorem agent_lifecycle_witness:
  "\<exists>a0 e a1 st a2. agent_new ''alice'' None True = Inr a0 \<and> createBackend life_env ''UCX'' a0 = (NIXL_SUCCESS, e, a1) \<and>
     registerMem life_env ex_reg None a1 = (st, a2) \<and> (\<forall>e md. reg_bal (agent_destroy a2) e md = 0)"
proof -
  obtain a0 where n: "agent_new ''alice'' None True = Inr a0" by (simp add: agent_new_def)
  obtain e a1 where c: "createBackend life_env ''UCX'' a0 = (NIXL_SUCCESS, e, a1)"
    using n by (auto simp: agent_new_def createBackend_def illegal_combination_def illegal_plugin_combinations_def life_env_def ex_env_def
        vet_backend_def bk_getConnInfo_def bk_connect_def Let_def)
  obtain st a2 where r: "registerMem life_env ex_reg None a1 = (st, a2)" by fastforce
  have "agent_start a0" using n by (auto simp: agent_start_def)
  then have "reach agent_start (agent_step life_env) a1" using c by (blast intro: reach.intros step_createBackend)
  moreover have "distinct_elms ex_reg" by (simp add: distinct_elms_def ex_reg_def)
  ultimately have "reach agent_start (agent_step life_env) a2" using r by (blast intro: reach.intros step_registerMem)
  from agent_lifecycle [OF life_env_typed this] n c r show ?thesis by blast
qed

text \<open>C3: A handle never outlives the peer it was made for: once \<open>invalidateRemoteMD\<close> has been called
  for the peer, then after any further sequence of calls, including loading the same peer again,
  posting a request of the old registration is refused with \<open>NIXL_ERR_NOT_FOUND\<close> and leaves the
  request and all engines untouched, polling one that was in flight reports \<open>NIXL_ERR_NOT_FOUND\<close>
  without asking the engine, and no new request can be made from an old descriptor list.\<close>

theorem stale_handles_refused:
  assumes "agent_inv env a" and "map_of (remoteSections a) ag = Some (g, s)" and "ag \<noteq> agName a"
    and "invalidateRemoteMD env ag a = Some (st, a1)" and "(agent_step env)\<^sup>*\<^sup>* a1 a2"
    and "xRemoteSection req = g" and "dRemoteSectionRef rem = Some g"
  shows "postXferReq env t (Some req) extra a2 = (NIXL_ERR_NOT_FOUND, Some req, addErrorTelemetry NIXL_ERR_NOT_FOUND a2) \<and>
    (xStatus req = NIXL_IN_PROG \<longrightarrow> getXferStatus env t req a2 = (NIXL_ERR_NOT_FOUND, req, a2)) \<and>
    (\<forall>ret r a3. makeXferReq env op loc li (Some rem) ri extra a2 = Some (ret, r, a3) \<longrightarrow>
       ret \<noteq> NIXL_SUCCESS \<and> r = None \<and> hist a3 = hist a2)"
proof -
  have e: "expired g a2"
    using agent_steps_gens [OF assms(5)] invalidate_expires [OF assms(1-4)] by blast
  have h: "hist (addErrorTelemetry x a2) = hist a2" for x by (simp add: addErrorTelemetry_def)
  have "ret \<noteq> NIXL_SUCCESS \<and> r = None \<and> hist a3 = hist a2"
    if "makeXferReq env op loc li (Some rem) ri extra a2 = Some (ret, r, a3)" for ret r a3
    using that e h assms(7) unfolding makeXferReq_def
    by (cases loc) (auto simp: Let_def split: if_splits option.splits)
  with e assms(6) show ?thesis by (simp add: postXferReq_def getXferStatus_def)
qed

theorem stale_handles_refused_witness:
  "\<exists>st a1. invalidateRemoteMD life_env ''alice'' life_agent = Some (st, a1) \<and>
     postXferReq life_env 0 (Some (xfer_req_new ''alice'' NIXL_WRITE DRAM_SEG DRAM_SEG 0)) None a1 =
       (NIXL_ERR_NOT_FOUND, Some (xfer_req_new ''alice'' NIXL_WRITE DRAM_SEG DRAM_SEG 0), addErrorTelemetry NIXL_ERR_NOT_FOUND a1)"
proof -
  have ne: "''alice'' \<noteq> agName life_agent" by (simp add: life_fields)
  obtain st a1 where i: "invalidateRemoteMD life_env ''alice'' life_agent = Some (st, a1)"
    using invalidate_total [OF life_agent_inv, of "''alice''"] ne by (auto simp: invalidateRemoteMD_def)
  have "xRemoteSection (xfer_req_new ''alice'' NIXL_WRITE DRAM_SEG DRAM_SEG 0) = 0" by (simp add: xfer_req_new_def)
  from stale_handles_refused [OF life_agent_inv life_fields(1) ne i rtranclp.rtrancl_refl this,
      where rem = "\<lparr>dRemoteAgent = ''alice'', dDescs = [], dRemoteSectionRef = Some 0\<rparr>"] i
  show ?thesis by auto
qed

subsection \<open>The life of a request\<close>

text \<open>A run: at each moment the request is polled or the agent does something else.\<close>

definition polled :: "benv \<Rightarrow> (nat \<Rightarrow> nixlXferReqH) \<Rightarrow> (nat \<Rightarrow> nixlAgentData) \<Rightarrow> nat \<Rightarrow> bool" where
  "polled env r a i \<longleftrightarrow> (\<exists>t st. getXferStatus env t (r i) (a i) = (st, r (Suc i), a (Suc i)))"

definition poll_run :: "benv \<Rightarrow> (nat \<Rightarrow> nixlXferReqH) \<Rightarrow> (nat \<Rightarrow> nixlAgentData) \<Rightarrow> bool" where
  "poll_run env r a \<longleftrightarrow> (\<forall>i. polled env r a i \<or> r (Suc i) = r i \<and> agent_step env (a i) (a (Suc i)))"

lemma finish_stats_req:
  "finish_stats t req a = (req', a') \<Longrightarrow> xStatus req' = xStatus req \<and> xEngine req' = xEngine req \<and>
     backendHandle req' = backendHandle req \<and> xRemoteSection req' = xRemoteSection req \<and> hist a' = hist a"
  by (auto simp: finish_stats_def updateRequestStats_def Let_def split: if_splits nixl_telemetry_stat_status_t.splits)

lemma addErrorTelemetry_hist [simp]: "hist (addErrorTelemetry st a) = hist a"
  by (simp add: addErrorTelemetry_def)

lemma getXferStatus_spec:
  assumes "getXferStatus env t req a = (st, req', a')"
  shows "xEngine req' = xEngine req \<and> backendHandle req' = backendHandle req \<and> xRemoteSection req' = xRemoteSection req \<and>
    (if xStatus req \<noteq> NIXL_IN_PROG then st = xStatus req \<and> req' = req \<and> a' = a
     else if expired (xRemoteSection req) a then st = NIXL_ERR_NOT_FOUND \<and> req' = req \<and> a' = a
     else st = on_checkXfer env (hist a) (xEngine req) (backendHandle req) \<and> xStatus req' = st \<and>
       hist a' = EvCheckXfer (xEngine req) (backendHandle req) st # hist a)"
  using assms finish_stats_req [of t "req\<lparr>xStatus := NIXL_SUCCESS\<rparr>"]
  by (auto simp: getXferStatus_def bk_checkXfer_def Let_def split: if_splits prod.splits)

lemma poll_run_step:
  assumes "poll_run env r a"
  shows "xRemoteSection (r (Suc i)) = xRemoteSection (r i)" "xEngine (r (Suc i)) = xEngine (r i)"
    "backendHandle (r (Suc i)) = backendHandle (r i)" "xStatus (r i) \<noteq> NIXL_IN_PROG \<Longrightarrow> xStatus (r (Suc i)) = xStatus (r i)"
    "agent_step env (a i) (a (Suc i))"
proof -
  have "(xRemoteSection (r (Suc i)) = xRemoteSection (r i) \<and> xEngine (r (Suc i)) = xEngine (r i) \<and>
    backendHandle (r (Suc i)) = backendHandle (r i) \<and> (xStatus (r i) \<noteq> NIXL_IN_PROG \<longrightarrow> xStatus (r (Suc i)) = xStatus (r i))) \<and>
    agent_step env (a i) (a (Suc i))"
  proof (cases "polled env r a i")
    case True
    then obtain t st where g: "getXferStatus env t (r i) (a i) = (st, r (Suc i), a (Suc i))" by (auto simp: polled_def)
    from getXferStatus_spec [OF g] step_getXferStatus [OF g] show ?thesis by auto
  next
    case False
    with assms show ?thesis unfolding poll_run_def by metis
  qed
  then show "xRemoteSection (r (Suc i)) = xRemoteSection (r i)" "xEngine (r (Suc i)) = xEngine (r i)"
    "backendHandle (r (Suc i)) = backendHandle (r i)" "xStatus (r i) \<noteq> NIXL_IN_PROG \<Longrightarrow> xStatus (r (Suc i)) = xStatus (r i)"
    "agent_step env (a i) (a (Suc i))" by auto
qed

lemma poll_run_const:
  assumes "poll_run env r a"
  shows "xRemoteSection (r i) = xRemoteSection (r 0) \<and> xEngine (r i) = xEngine (r 0) \<and> backendHandle (r i) = backendHandle (r 0)"
  by (induction i) (simp_all add: poll_run_step [OF assms])

lemma poll_run_steps:
  assumes "poll_run env r a" and "i \<le> j"
  shows "(agent_step env)\<^sup>*\<^sup>* (a i) (a j)"
  using assms(2) by (induction j rule: dec_induct) (use poll_run_step(5) [OF assms(1)] in \<open>auto intro: rtranclp.rtrancl_into_rtrancl\<close>)

lemma poll_run_stable:
  assumes "poll_run env r a" and "xStatus (r i) \<noteq> NIXL_IN_PROG" and "i \<le> j"
  shows "xStatus (r j) = xStatus (r i)"
  using assms(3) by (induction j rule: dec_induct) (use poll_run_step(4) [OF assms(1)] assms(2) in auto)

text \<open>C8: Polling comes to an end. In any run in which a posted request is polled again and again,
  interleaved with any other calls on the agent, if its engine from some moment on no longer
  answers that the transfer is in progress, then there are a final status other than
  \<open>NIXL_IN_PROG\<close> and a moment from which every poll returns that status, whether the transfer
  completes, fails or its peer is invalidated meanwhile.\<close>

theorem polling_terminates:
  assumes "poll_run env r a" and "\<forall>i. \<exists>j \<ge> i. polled env r a j" and "xRemoteSection (r 0) < nextGen (a 0)"
    and "\<forall>i \<ge> N. on_checkXfer env (hist (a i)) (xEngine (r 0)) (backendHandle (r 0)) \<noteq> NIXL_IN_PROG"
  shows "\<exists>n st. st \<noteq> NIXL_IN_PROG \<and> (\<forall>m \<ge> n. \<forall>t. fst (getXferStatus env t (r m) (a m)) = st)"
proof (cases "\<exists>i. xStatus (r i) \<noteq> NIXL_IN_PROG")
  case True
  then obtain i st where st: "st \<noteq> NIXL_IN_PROG" "xStatus (r i) = st" by blast
  then have "xStatus (r m) = st" if "m \<ge> i" for m using poll_run_stable [OF assms(1) _ that] by simp
  with st(1) show ?thesis by (intro exI [of _ i] exI [of _ st]) (auto simp: getXferStatus_def)
next
  case False
  then have busy: "xStatus (r i) = NIXL_IN_PROG" for i by blast
  obtain g e q where c0: "xRemoteSection (r 0) = g" "xEngine (r 0) = e" "backendHandle (r 0) = q" by blast
  have c: "xRemoteSection (r i) = g" "xEngine (r i) = e" "backendHandle (r i) = q" for i
    using poll_run_const [OF assms(1), of i] c0 by simp_all
  have fresh: "g < nextGen (a i)" for i
  proof (induction i)
    case (Suc i)
    with agent_step_gens [OF poll_run_step(5) [OF assms(1)], of i] show ?case by (auto simp: gens_step_def)
  qed (use assms(3) c0 in simp)
  have "\<exists>i. expired g (a i)"
  proof (rule ccontr)
    assume live: "\<nexists>i. expired g (a i)"
    obtain j where "j \<ge> N" "polled env r a j" using assms(2) by blast
    then obtain t st where g: "getXferStatus env t (r j) (a j) = (st, r (Suc j), a (Suc j))" by (auto simp: polled_def)
    from getXferStatus_spec [OF g] busy live c [of j] have "xStatus (r (Suc j)) = on_checkXfer env (hist (a j)) e q" by auto
    with assms(4) \<open>j \<ge> N\<close> busy [of "Suc j"] c0 show False by auto
  qed
  then obtain i where "expired g (a i)" by blast
  then have "expired g (a m)" if "m \<ge> i" for m
    using agent_steps_gens [OF poll_run_steps [OF assms(1) that]] fresh by blast
  with busy c show ?thesis
    by (intro exI [of _ i] exI [of _ NIXL_ERR_NOT_FOUND]) (auto simp: getXferStatus_def)
qed

theorem polling_terminates_witness:
  "\<exists>r a n st. r 0 = (xfer_req_new ''alice'' NIXL_WRITE DRAM_SEG DRAM_SEG 0)\<lparr>xStatus := NIXL_IN_PROG\<rparr> \<and> a 0 = life_agent \<and>
     st \<noteq> NIXL_IN_PROG \<and> (\<forall>m \<ge> (n::nat). \<forall>t. fst (getXferStatus life_env t (r m) (a m)) = st)"
proof -
  define r0 where "r0 = (xfer_req_new ''alice'' NIXL_WRITE DRAM_SEG DRAM_SEG 0)\<lparr>xStatus := NIXL_IN_PROG\<rparr>"
  obtain st r1 a1 where g: "getXferStatus life_env 0 r0 life_agent = (st, r1, a1)" by (metis prod.exhaust)
  have f: "xStatus r0 = NIXL_IN_PROG" "xRemoteSection r0 = 0" by (simp_all add: r0_def xfer_req_new_def)
  have "\<not> expired 0 life_agent" by (simp add: expired_def life_agent_def)
  then have st: "xStatus r1 = NIXL_SUCCESS" using getXferStatus_spec [OF g] f by (simp add: life_env_def ex_env_def)
  define r where "r = (\<lambda>i. if i = (0::nat) then r0 else r1)"
  define a where "a = (\<lambda>i. if i = (0::nat) then life_agent else a1)"
  have p: "polled life_env r a i" for i
    using g st by (auto simp: polled_def r_def a_def getXferStatus_def [of _ _ r1])
  have "xRemoteSection (r 0) < nextGen (a 0)" by (simp add: r_def a_def f life_agent_def)
  moreover have "on_checkXfer life_env h e q \<noteq> NIXL_IN_PROG" for h e q by (simp add: life_env_def ex_env_def)
  ultimately have "\<exists>n st. st \<noteq> NIXL_IN_PROG \<and> (\<forall>m \<ge> n. \<forall>t. fst (getXferStatus life_env t (r m) (a m)) = st)"
    by (intro polling_terminates [where N = 0]) (use p in \<open>auto simp: poll_run_def\<close>)
  moreover have "r 0 = r0" "a 0 = life_agent" by (simp_all add: r_def a_def)
  ultimately show ?thesis unfolding r0_def by blast
qed

lemma settle_spec:
  assumes "settle env t req a = (v, req', a')"
  defines "e \<equiv> xEngine req" and "q \<equiv> backendHandle req"
  defines "c \<equiv> on_checkXfer env (hist a) e q"
  shows "if xStatus req \<noteq> NIXL_IN_PROG then v = None \<and> req' = req \<and> a' = a
    else v = (if c = NIXL_IN_PROG then Some NIXL_ERR_REPOST_ACTIVE
              else if c = NIXL_ERR_REMOTE_DISCONNECT then Some NIXL_ERR_REMOTE_DISCONNECT else None) \<and>
      hist a' = EvCheckXfer e q c # hist a \<and> xStatus req' = c \<and> xEngine req' = e \<and> backendHandle req' = q"
proof (cases "xStatus req = NIXL_IN_PROG")
  case True
  obtain req1 a1 where f: "finish_stats t (req\<lparr>xStatus := NIXL_SUCCESS\<rparr>) (a\<lparr>hist := EvCheckXfer e q NIXL_SUCCESS # hist a\<rparr>) = (req1, a1)"
    by fastforce
  have b: "bk_checkXfer env e q (hist a) = (c, EvCheckXfer e q c # hist a)" by (simp add: bk_checkXfer_def c_def Let_def)
  show ?thesis
  proof (cases "c = NIXL_SUCCESS")
    case ok: True
    with True assms(1) b [unfolded e_def q_def] f [unfolded e_def q_def] finish_stats_req [OF f] show ?thesis
      by (auto simp: settle_def e_def q_def split: if_splits)
  next
    case False
    with True assms(1) b [unfolded e_def q_def] show ?thesis
      by (auto simp: settle_def e_def q_def Let_def split: if_splits)
  qed
qed (use assms in \<open>simp add: settle_def\<close>)

lemma post_stats_hist: "post_stats t req a = (req', a') \<Longrightarrow> hist a' = hist a \<and> xStatus req' = xStatus req"
  by (auto simp: post_stats_def updateRequestStats_def Let_def split: if_splits nixl_telemetry_stat_status_t.splits)

lemma post_args_frame: "post_args req extra = (args, req') \<Longrightarrow> xEngine req' = xEngine req \<and> backendHandle req' = backendHandle req \<and>
    xStatus req' = xStatus req"
  by (auto simp: post_args_def Let_def split: option.splits if_splits)

text \<open>C10: A request is never posted while its previous post is still running. Whatever
  \<open>postXferReq\<close> does, it hands at most one post to the engine; if the request was in progress, it
  asks the engine first, and posts again only when the answer is neither that the transfer is
  still in progress, in which case the caller gets \<open>NIXL_ERR_REPOST_ACTIVE\<close>, nor that the peer is
  gone. After a post the returned status is the engine's.\<close>

theorem no_overlapping_posts:
  assumes "postXferReq env t (Some req) extra a = (st, r', a')"
  defines "e \<equiv> xEngine req" and "q \<equiv> backendHandle req"
  defines "c \<equiv> on_checkXfer env (hist a) e q"
  shows "\<exists>asked posted. hist a' = posted @ asked @ hist a \<and>
    (asked = [] \<or> xStatus req = NIXL_IN_PROG \<and> asked = [EvCheckXfer e q c]) \<and>
    (posted = [] \<or> (\<exists>op l r ag args q'. posted = [EvPostXfer e op l r ag q args st q'])) \<and>
    (xStatus req = NIXL_IN_PROG \<and> c = NIXL_IN_PROG \<longrightarrow> posted = [] \<and> (st = NIXL_ERR_REPOST_ACTIVE \<or> st = NIXL_ERR_NOT_FOUND)) \<and>
    (xStatus req = NIXL_IN_PROG \<and> posted \<noteq> [] \<longrightarrow> asked \<noteq> [] \<and> c \<noteq> NIXL_IN_PROG \<and> c \<noteq> NIXL_ERR_REMOTE_DISCONNECT)"
proof (cases "expired (xRemoteSection req) a")
  case True
  with assms(1) show ?thesis by (auto simp: postXferReq_def)
next
  case False
  obtain v req1 a1 where s: "settle env t req a = (v, req1, a1)" by (metis prod.exhaust)
  note sp = settle_spec [OF s, folded e_def q_def, folded c_def]
  obtain asked where ask: "hist a1 = asked @ hist a" "xEngine req1 = e" "backendHandle req1 = q"
    "asked = (if xStatus req = NIXL_IN_PROG then [EvCheckXfer e q c] else [])"
    using sp by (auto simp: e_def q_def split: if_splits)
  show ?thesis
  proof (cases v)
    case (Some ret)
    with assms(1) False s have "st = ret" "a' = a1" by (auto simp: postXferReq_def)
    with sp Some ask show ?thesis by (intro exI [of _ asked] exI [of _ "[]"]) (auto split: if_splits)
  next
    case None
    obtain args req2 where p: "post_args req1 extra = (args, req2)" by fastforce
    obtain st2 q' h where b: "bk_postXfer env (xEngine req2) (backendOp req2) (descs (initiatorDescs req2))
      (descs (targetDescs req2)) (xRemoteAgent req2) (backendHandle req2) args (hist a1) = (st2, q', h)" by (metis prod.exhaust)
    obtain req3 a3 where f: "post_stats t (req2\<lparr>xStatus := st2, backendHandle := q'\<rparr>) (a1\<lparr>hist := h\<rparr>) = (req3, a3)" by fastforce
    have f2: "xEngine req2 = e" "backendHandle req2 = q" using post_args_frame [OF p] ask by simp_all
    have h: "h = [EvPostXfer e (backendOp req2) (descs (initiatorDescs req2)) (descs (targetDescs req2)) (xRemoteAgent req2) q args st2 q'] @ hist a1"
      using b f2 by (auto simp: bk_postXfer_def split: prod.splits)
    have fin: "hist a' = hist a1 \<or> hist a' = h \<and> st = st2"
      using assms(1) False s None p b f post_stats_hist [OF f] by (auto simp: postXferReq_def Let_def split: if_splits)
    have c: "xStatus req = NIXL_IN_PROG \<Longrightarrow> c \<noteq> NIXL_IN_PROG \<and> c \<noteq> NIXL_ERR_REMOTE_DISCONNECT" using sp None by (auto split: if_splits)
    from fin show ?thesis
    proof
      assume "hist a' = hist a1"
      with ask c show ?thesis by (intro exI [of _ asked] exI [of _ "[]"]) auto
    next
      assume "hist a' = h \<and> st = st2"
      with ask c h show ?thesis
        by (intro exI [of _ asked] exI [of _ "[EvPostXfer e (backendOp req2) (descs (initiatorDescs req2)) (descs (targetDescs req2))
          (xRemoteAgent req2) q args st2 q']"]) auto
    qed
  qed
qed

theorem no_overlapping_posts_witness:
  "\<exists>st r a'. postXferReq (life_env\<lparr>on_checkXfer := \<lambda>_ _ _. NIXL_IN_PROG\<rparr>) 0
     (Some ((xfer_req_new ''alice'' NIXL_WRITE DRAM_SEG DRAM_SEG 0)\<lparr>xStatus := NIXL_IN_PROG\<rparr>)) None life_agent = (st, r, a') \<and>
     (st = NIXL_ERR_REPOST_ACTIVE \<or> st = NIXL_ERR_NOT_FOUND)"
proof -
  let ?env = "life_env\<lparr>on_checkXfer := \<lambda>_ _ _. NIXL_IN_PROG\<rparr>" and ?r = "(xfer_req_new ''alice'' NIXL_WRITE DRAM_SEG DRAM_SEG 0)\<lparr>xStatus := NIXL_IN_PROG\<rparr>"
  obtain st r a' where p: "postXferReq ?env 0 (Some ?r) None life_agent = (st, r, a')" by (metis prod.exhaust)
  have "xStatus ?r = NIXL_IN_PROG" "on_checkXfer ?env h e q = NIXL_IN_PROG" for h e q by simp_all
  with no_overlapping_posts [OF p] p show ?thesis by auto
qed

definition releases :: "engine \<Rightarrow> req_ptr \<Rightarrow> bhist \<Rightarrow> nat" where
  "releases e q h = length (filter (\<lambda>ev. case ev of EvReleaseReqH e' q' st \<Rightarrow> e' = e \<and> q' = q | _ \<Rightarrow> False) h)"

lemma releases_simps [simp]:
  "releases e q (EvReleaseReqH e' q' st # h) = (if e' = e \<and> q' = q then Suc (releases e q h) else releases e q h)"
  "releases e q (EvCheckXfer e' q' st # h) = releases e q h"
  by (simp_all add: releases_def)

lemma req_destroy_releases:
  "xEngine req \<noteq> 0 \<Longrightarrow> backendHandle req \<noteq> 0 \<Longrightarrow> releases (xEngine req) (backendHandle req) (req_destroy env req h) =
     Suc (releases (xEngine req) (backendHandle req) h)"
  by (simp add: req_destroy_def bk_releaseReqH_def Let_def)



end
