(* ===== verification/Nixl_MDWorker.thy ===== *)
theory Nixl_MDWorker
  imports Nixl_Prelude "HOL-Library.Multiset"
begin

text \<open>
  The background thread of a metadata transport (\<open>src/core/nixl_metadata_worker.cpp\<close>) as a step
  system: callers start, stop and submit, the thread runs queued tasks, and every section the code
  executes under a mutex is one step. Shown: no task is lost or run twice, queued tasks run in the
  order they were submitted, a stop returns only when the queue is empty and the thread is gone,
  and the shutdown drain ends. A thread that dies of an exception outside a task is left out.
\<close>

type_synonym task = nat

datatype worker_state = IDLE | RUNNING | STOPPING

text \<open>Where the thread is: no thread, at the wait of \<open>loop\<close>, in \<open>runQueuedTasks\<close> of a pass or of the
  final drain, about to run a task or the poll, finished. A flag says whether the final drain runs.\<close>

datatype thread_pc = NoThread | AtWait | AtQueue bool | AtTask bool task | AtPoll | Finished

text \<open>Who holds \<open>taskMutex_\<close>.\<close>

datatype runner = RunsTask task | RunsPoll | RunsInline task

text \<open>The last five fields are history: the tasks handed to \<open>submit\<close>, the ones that were queued and the
  ones taken from the queue, in order, and the tasks that have been run; and the callers that
  have left the critical section of \<open>submit\<close> to run their task themselves.\<close>

record worker =
  wstate :: worker_state
  tasks :: "task list"
  thread :: thread_pc
  holder :: "runner option"
  joined :: bool
  inline :: "task multiset"
  submitted :: "task multiset"
  queued :: "task list"
  taken :: "task list"
  finished :: "task multiset"

definition worker_new :: worker where
  "worker_new = \<lparr>wstate = IDLE, tasks = [], thread = NoThread, holder = None, joined = False, inline = {#},
     submitted = {#}, queued = [], taken = [], finished = {#}\<rparr>"

definition worker_start :: "worker \<Rightarrow> worker" where
  "worker_start w = (if wstate w \<noteq> IDLE then w else w\<lparr>thread := AtWait, wstate := RUNNING\<rparr>)"

text \<open>\<open>submit\<close> from the thread itself (a task or the poll adding work) or from another thread.\<close>

definition worker_submit :: "bool \<Rightarrow> task \<Rightarrow> worker \<Rightarrow> worker" where
  "worker_submit from_worker t w =
     (let w = w\<lparr>submitted := add_mset t (submitted w)\<rparr>
      in if wstate w = RUNNING \<or> from_worker then w\<lparr>tasks := tasks w @ [t], queued := queued w @ [t]\<rparr>
         else w\<lparr>inline := add_mset t (inline w)\<rparr>)"

text \<open>The first critical section of \<open>stop\<close>: the caller that takes \<open>RUNNING\<close> to \<open>STOPPING\<close> owns the
  join; any other returns at once or waits for \<open>IDLE\<close>.\<close>

definition stop_request :: "worker \<Rightarrow> worker" where
  "stop_request w = (if wstate w = RUNNING then w\<lparr>wstate := STOPPING, joined := False\<rparr> else w)"

definition stop_join :: "worker \<Rightarrow> worker option" where
  "stop_join w = (if wstate w = STOPPING \<and> thread w = Finished then Some (w\<lparr>thread := NoThread, joined := True\<rparr>) else None)"

definition stop_publish :: "worker \<Rightarrow> worker option" where
  "stop_publish w = (if wstate w = STOPPING \<and> joined w then Some (w\<lparr>wstate := IDLE\<rparr>) else None)"

text \<open>The thread. A wait ends at any time, by a notification or its timeout; a pass ends after any
  task, by its time budget.\<close>

definition loop_wake :: "worker \<Rightarrow> worker option" where
  "loop_wake w = (if thread w = AtWait then Some (w\<lparr>thread := AtQueue (wstate w = STOPPING)\<rparr>) else None)"

definition take_task :: "worker \<Rightarrow> worker option" where
  "take_task w =
     (case thread w of
        AtQueue drain \<Rightarrow>
          (case tasks w of
             [] \<Rightarrow> Some (w\<lparr>thread := if drain then Finished else AtPoll\<rparr>)
           | t # ts \<Rightarrow> Some (w\<lparr>tasks := ts, thread := AtTask drain t, taken := taken w @ [t]\<rparr>))
      | _ \<Rightarrow> None)"

text \<open>\<open>runTask\<close> takes the task mutex, runs the task, whatever it throws, and releases the mutex.\<close>

definition run_begin :: "worker \<Rightarrow> worker option" where
  "run_begin w =
     (if holder w \<noteq> None then None
      else case thread w of
        AtTask drain t \<Rightarrow> Some (w\<lparr>holder := Some (RunsTask t)\<rparr>)
      | AtPoll \<Rightarrow> Some (w\<lparr>holder := Some RunsPoll\<rparr>)
      | _ \<Rightarrow> None)"

definition run_end :: "bool \<Rightarrow> worker \<Rightarrow> worker option" where
  "run_end over_budget w =
     (case (holder w, thread w) of
        (Some (RunsTask t), AtTask drain t') \<Rightarrow>
          Some (w\<lparr>holder := None, finished := add_mset t (finished w),
                  thread := if over_budget \<and> \<not> drain then AtPoll else AtQueue drain\<rparr>)
      | (Some RunsPoll, AtPoll) \<Rightarrow> Some (w\<lparr>holder := None, thread := AtWait\<rparr>)
      | _ \<Rightarrow> None)"

definition inline_begin :: "task \<Rightarrow> worker \<Rightarrow> worker option" where
  "inline_begin t w = (if holder w = None \<and> t \<in># inline w then Some (w\<lparr>holder := Some (RunsInline t), inline := inline w - {#t#}\<rparr>) else None)"

definition inline_end :: "worker \<Rightarrow> worker option" where
  "inline_end w = (case holder w of Some (RunsInline t) \<Rightarrow> Some (w\<lparr>holder := None, finished := add_mset t (finished w)\<rparr>) | _ \<Rightarrow> None)"

definition by_worker :: "worker \<Rightarrow> bool" where
  "by_worker w \<longleftrightarrow> (case holder w of Some (RunsTask t) \<Rightarrow> True | Some RunsPoll \<Rightarrow> True | _ \<Rightarrow> False)"

inductive thread_step :: "worker \<Rightarrow> worker \<Rightarrow> bool" where
  t_wake: "loop_wake w = Some w' \<Longrightarrow> thread_step w w'"
| t_take: "take_task w = Some w' \<Longrightarrow> thread_step w w'"
| t_begin: "run_begin w = Some w' \<Longrightarrow> thread_step w w'"
| t_end: "run_end over w = Some w' \<Longrightarrow> thread_step w w'"

inductive worker_step :: "worker \<Rightarrow> worker \<Rightarrow> bool" where
  w_start: "worker_step w (worker_start w)"
| w_submit: "worker_step w (worker_submit False t w)"
| w_resubmit: "by_worker w \<Longrightarrow> worker_step w (worker_submit True t w)"
| w_stop: "worker_step w (stop_request w)"
| w_join: "stop_join w = Some w' \<Longrightarrow> worker_step w w'"
| w_publish: "stop_publish w = Some w' \<Longrightarrow> worker_step w w'"
| w_thread: "thread_step w w' \<Longrightarrow> worker_step w w'"
| w_inline_begin: "inline_begin t w = Some w' \<Longrightarrow> worker_step w w'"
| w_inline_end: "inline_end w = Some w' \<Longrightarrow> worker_step w w'"

subsection \<open>Invariant\<close>

definition in_hand :: "worker \<Rightarrow> task multiset" where
  "in_hand w = (case thread w of AtTask d t \<Rightarrow> {#t#} | _ \<Rightarrow> {#}) + (case holder w of Some (RunsInline t) \<Rightarrow> {#t#} | _ \<Rightarrow> {#})"

definition worker_control :: "worker \<Rightarrow> bool" where
  "worker_control w \<longleftrightarrow>
     (wstate w = IDLE \<longrightarrow> thread w = NoThread) \<and>
     (wstate w = RUNNING \<longrightarrow> thread w \<noteq> NoThread \<and> thread w \<noteq> Finished \<and> thread w \<noteq> AtQueue True \<and> (\<forall>t. thread w \<noteq> AtTask True t)) \<and>
     (wstate w = STOPPING \<longrightarrow> (thread w = NoThread \<longleftrightarrow> joined w)) \<and>
     (thread w = NoThread \<or> thread w = Finished \<longrightarrow> tasks w = []) \<and>
     (case holder w of
        Some (RunsTask t) \<Rightarrow> \<exists>d. thread w = AtTask d t
      | Some RunsPoll \<Rightarrow> thread w = AtPoll
      | _ \<Rightarrow> True)"

definition worker_account :: "worker \<Rightarrow> bool" where
  "worker_account w \<longleftrightarrow> queued w = taken w @ tasks w \<and> submitted w = finished w + mset (tasks w) + inline w + in_hand w"

definition worker_inv :: "worker \<Rightarrow> bool" where
  "worker_inv w \<longleftrightarrow> worker_control w \<and> worker_account w"

lemma worker_new_inv: "worker_inv worker_new"
  by (simp add: worker_inv_def worker_control_def worker_account_def worker_new_def in_hand_def)

lemma take_task_cases:
  assumes "take_task w = Some w'"
  obtains d where "thread w = AtQueue d" "tasks w = []" "w' = w\<lparr>thread := if d then Finished else AtPoll\<rparr>"
  | d t ts where "thread w = AtQueue d" "tasks w = t # ts" "w' = w\<lparr>tasks := ts, thread := AtTask d t, taken := taken w @ [t]\<rparr>"
  using assms by (cases "thread w"; cases "tasks w") (auto simp: take_task_def)

lemma run_begin_cases:
  assumes "run_begin w = Some w'"
  obtains d t where "holder w = None" "thread w = AtTask d t" "w' = w\<lparr>holder := Some (RunsTask t)\<rparr>"
  | "holder w = None" "thread w = AtPoll" "w' = w\<lparr>holder := Some RunsPoll\<rparr>"
  using assms by (cases "thread w"; cases "holder w") (auto simp: run_begin_def)

lemma run_end_cases:
  assumes "run_end over w = Some w'"
  obtains d t t' where "holder w = Some (RunsTask t)" "thread w = AtTask d t'"
    "w' = w\<lparr>holder := None, finished := add_mset t (finished w), thread := if over \<and> \<not> d then AtPoll else AtQueue d\<rparr>"
  | "holder w = Some RunsPoll" "thread w = AtPoll" "w' = w\<lparr>holder := None, thread := AtWait\<rparr>"
proof (cases "holder w")
  case (Some r)
  with assms that show ?thesis by (cases r; cases "thread w") (auto simp: run_end_def)
qed (use assms in \<open>simp add: run_end_def\<close>)

lemma loop_wake_cases:
  assumes "loop_wake w = Some w'"
  obtains "thread w = AtWait" "w' = w\<lparr>thread := AtQueue (wstate w = STOPPING)\<rparr>"
  using assms by (auto simp: loop_wake_def split: if_splits)

lemma thread_step_inv:
  assumes "worker_inv w" and "thread_step w w'"
  shows "worker_inv w'"
  using assms(2)
proof cases
  case t_wake
  then show ?thesis
  proof (cases rule: loop_wake_cases)
    case 1
    with assms(1) show ?thesis
      by (cases "holder w") (auto simp: worker_inv_def worker_control_def worker_account_def in_hand_def split: runner.splits)
  qed
next
  case t_take
  then show ?thesis
  proof (cases rule: take_task_cases)
    case 1
    with assms(1) show ?thesis
      by (cases "holder w") (auto simp: worker_inv_def worker_control_def worker_account_def in_hand_def split: runner.splits)
  next
    case 2
    with assms(1) show ?thesis
      by (cases "holder w") (auto simp: worker_inv_def worker_control_def worker_account_def in_hand_def split: runner.splits)
  qed
next
  case t_begin
  then show ?thesis
    by (cases rule: run_begin_cases) (use assms(1) in \<open>simp_all add: worker_inv_def worker_control_def worker_account_def in_hand_def\<close>)
next
  case (t_end over)
  then show ?thesis
    by (cases rule: run_end_cases) (use assms(1) in \<open>auto simp: worker_inv_def worker_control_def worker_account_def in_hand_def\<close>)
qed

lemma worker_step_inv:
  assumes "worker_inv w" and "worker_step w w'"
  shows "worker_inv w'"
  using assms(2)
proof cases
  case w_start
  with assms(1) show ?thesis
    by (cases "holder w") (auto simp: worker_inv_def worker_control_def worker_account_def worker_start_def in_hand_def split: runner.splits)
next
  case (w_submit t)
  with assms(1) show ?thesis
    by (cases "holder w")
      (auto simp: worker_inv_def worker_control_def worker_account_def worker_submit_def Let_def in_hand_def split: runner.splits)
next
  case (w_resubmit t)
  with assms(1) show ?thesis
    by (cases "holder w")
      (auto simp: worker_inv_def worker_control_def worker_account_def worker_submit_def by_worker_def Let_def in_hand_def split: runner.splits)
next
  case w_stop
  with assms(1) show ?thesis
    by (cases "holder w") (auto simp: worker_inv_def worker_control_def worker_account_def stop_request_def in_hand_def split: runner.splits)
next
  case w_join
  with assms(1) show ?thesis
    by (cases "holder w")
      (auto simp: worker_inv_def worker_control_def worker_account_def stop_join_def in_hand_def split: if_splits runner.splits)
next
  case w_publish
  with assms(1) show ?thesis
    by (cases "holder w")
      (auto simp: worker_inv_def worker_control_def worker_account_def stop_publish_def in_hand_def split: if_splits runner.splits)
next
  case w_thread
  with assms(1) thread_step_inv show ?thesis by blast
next
  case (w_inline_begin t)
  then have "holder w = None" "t \<in># inline w" "w' = w\<lparr>holder := Some (RunsInline t), inline := inline w - {#t#}\<rparr>"
    by (auto simp: inline_begin_def split: if_splits)
  with assms(1) show ?thesis
    by (auto simp: worker_inv_def worker_control_def worker_account_def in_hand_def dest: multi_member_split)
next
  case w_inline_end
  with assms(1) show ?thesis
    by (cases "holder w")
      (auto simp: worker_inv_def worker_control_def worker_account_def inline_end_def in_hand_def split: runner.splits)
qed

interpretation worker_life: invariant_system "\<lambda>w. w = worker_new" worker_step worker_inv
  by unfold_locales (use worker_new_inv worker_step_inv in auto)

text \<open>C12: The worker runs every task it is given exactly once. In every reachable state the tasks
  submitted so far are, counted with multiplicity, those finished, those queued, those a caller
  runs itself and the one in hand; tasks leave the queue in the order they entered it; and when
  the worker is idle, before its start or after a stop has returned, there is no thread, nothing
  is queued, and every task that was ever queued has been taken in order and finished.\<close>

theorem worker_runs_tasks_once:
  assumes "reach (\<lambda>w. w = worker_new) worker_step w"
  shows "submitted w = finished w + mset (tasks w) + inline w + in_hand w \<and> queued w = taken w @ tasks w \<and>
    (wstate w = IDLE \<longrightarrow> thread w = NoThread \<and> tasks w = [] \<and> taken w = queued w \<and>
       (inline w = {#} \<and> holder w = None \<longrightarrow> finished w = submitted w))"
  using worker_life.reach_inv [OF assms] by (auto simp: worker_inv_def worker_control_def worker_account_def in_hand_def)

text \<open>A run with one task: start, submit, stop, then the thread drains the queue.\<close>

definition demo :: "worker_state \<Rightarrow> task list \<Rightarrow> thread_pc \<Rightarrow> runner option \<Rightarrow> bool \<Rightarrow> task list \<Rightarrow> task multiset \<Rightarrow> worker" where
  "demo st ts th ho jo tk fin = \<lparr>wstate = st, tasks = ts, thread = th, holder = ho, joined = jo, inline = {#},
     submitted = {#7#}, queued = [7], taken = tk, finished = fin\<rparr>"

lemma demo_stopping_reach: "reach (\<lambda>w. w = worker_new) worker_step (demo STOPPING [7] AtWait None False [] {#})"
proof -
  have "reach (\<lambda>w. w = worker_new) worker_step worker_new" by (rule reach_start) simp
  from reach_step [OF reach_step [OF reach_step [OF this w_start] w_submit [of _ 7]] w_stop]
  show ?thesis by (simp add: demo_def worker_new_def worker_start_def worker_submit_def stop_request_def)
qed

lemmas worker_reach_step = reach_step [where start = "\<lambda>w. w = worker_new" and step = worker_step]

theorem worker_runs_tasks_once_witness:
  "reach (\<lambda>w. w = worker_new) worker_step (demo IDLE [] NoThread None True [7] {#7#}) \<and>
   finished (demo IDLE [] NoThread None True [7] {#7#}) = submitted (demo IDLE [] NoThread None True [7] {#7#})"
proof -
  let ?R = "reach (\<lambda>w. w = worker_new) worker_step"
  have "?R (demo STOPPING [7] (AtQueue True) None False [] {#})"
    by (rule reach_step [OF demo_stopping_reach w_thread [OF t_wake]]) (simp add: demo_def loop_wake_def)
  then have "?R (demo STOPPING [] (AtTask True 7) None False [7] {#})"
    by (rule worker_reach_step [OF _ w_thread [OF t_take]]) (simp add: demo_def take_task_def)
  then have "?R (demo STOPPING [] (AtTask True 7) (Some (RunsTask 7)) False [7] {#})"
    by (rule worker_reach_step [OF _ w_thread [OF t_begin]]) (simp add: demo_def run_begin_def)
  then have "?R (demo STOPPING [] (AtQueue True) None False [7] {#7#})"
    by (rule worker_reach_step [OF _ w_thread [OF t_end [where over = False]]]) (simp add: demo_def run_end_def)
  then have "?R (demo STOPPING [] Finished None False [7] {#7#})"
    by (rule worker_reach_step [OF _ w_thread [OF t_take]]) (simp add: demo_def take_task_def)
  then have "?R (demo STOPPING [] NoThread None True [7] {#7#})"
    by (rule worker_reach_step [OF _ w_join]) (simp add: demo_def stop_join_def)
  then have r: "?R (demo IDLE [] NoThread None True [7] {#7#})"
    by (rule worker_reach_step [OF _ w_publish]) (simp add: demo_def stop_publish_def)
  with worker_runs_tasks_once [OF r] show ?thesis by (simp add: demo_def)
qed

subsection \<open>Shutdown ends\<close>

fun pc_steps :: "thread_pc \<Rightarrow> runner option \<Rightarrow> nat" where
  "pc_steps NoThread h = 0"
| "pc_steps Finished h = 0"
| "pc_steps (AtQueue d) h = (if d then 1 else 5)"
| "pc_steps AtWait h = 2"
| "pc_steps (AtTask d t) h = (if d then 0 else 4) + (if h = Some (RunsTask t) then 2 else 3)"
| "pc_steps AtPoll h = (if h = Some RunsPoll then 3 else 4)"

definition drain_steps :: "worker \<Rightarrow> nat" where
  "drain_steps w = 4 * length (tasks w) + pc_steps (thread w) (holder w)"

lemma drain_steps_decrease:
  assumes "worker_inv w" and "wstate w = STOPPING" and "thread_step w w'"
  shows "wstate w' = STOPPING \<and> drain_steps w' < drain_steps w"
  using assms(3)
proof cases
  case t_wake
  with assms(2) show ?thesis by (auto elim!: loop_wake_cases simp: drain_steps_def)
next
  case t_take
  with assms(1,2) show ?thesis
    by (auto elim!: take_task_cases simp: drain_steps_def worker_inv_def worker_control_def)
next
  case t_begin
  with assms(2) show ?thesis by (auto elim!: run_begin_cases simp: drain_steps_def)
next
  case (t_end over)
  with assms(1,2) show ?thesis
    by (auto elim!: run_end_cases simp: drain_steps_def worker_inv_def worker_control_def)
qed

lemma stopping_progress:
  assumes "worker_inv w" and "wstate w = STOPPING"
  shows "joined w \<or> thread w = Finished \<or> (\<exists>w'. thread_step w w') \<or> (\<exists>w'. inline_end w = Some w')"
proof (cases "thread w")
  case AtWait
  then have "loop_wake w = Some (w\<lparr>thread := AtQueue (wstate w = STOPPING)\<rparr>)" by (simp add: loop_wake_def)
  then show ?thesis by (blast intro: t_wake)
next
  case (AtQueue d)
  then have "\<exists>w'. take_task w = Some w'" by (simp add: take_task_def split: list.split)
  then show ?thesis by (blast intro: t_take)
next
  case (AtTask d t)
  show ?thesis
  proof (cases "holder w")
    case None
    with AtTask have "\<exists>w'. run_begin w = Some w'" by (simp add: run_begin_def)
    then show ?thesis by (blast intro: t_begin)
  next
    case (Some r)
    with assms(1) AtTask have "(\<exists>w'. run_end True w = Some w') \<or> (\<exists>w'. inline_end w = Some w')"
      by (cases r) (auto simp: run_end_def inline_end_def worker_inv_def worker_control_def)
    then show ?thesis by (blast intro: t_end)
  qed
next
  case AtPoll
  show ?thesis
  proof (cases "holder w")
    case None
    with AtPoll have "\<exists>w'. run_begin w = Some w'" by (simp add: run_begin_def)
    then show ?thesis by (blast intro: t_begin)
  next
    case (Some r)
    with assms(1) AtPoll have "(\<exists>w'. run_end True w = Some w') \<or> (\<exists>w'. inline_end w = Some w')"
      by (cases r) (auto simp: run_end_def inline_end_def worker_inv_def worker_control_def)
    then show ?thesis by (blast intro: t_end)
  qed
qed (use assms in \<open>auto simp: worker_inv_def worker_control_def\<close>)



end
