(* ===== verification/Nixl_Wire.thy ===== *)
theory Nixl_Wire
  imports Nixl_Prelude "HOL-Library.Sublist"
begin

text \<open>
  The wire mechanics of the peer-to-peer metadata transport
  (\<open>src/core/nixl_p2p_metadata_backend.cpp\<close>): length-prefixed frames over a non-blocking stream
  socket, and the commands inside a frame. What the kernel answers to successive \<open>recv\<close> and \<open>send\<close>
  calls is a script, an argument of the model. Shown: a frame survives any fragmentation of the
  stream on either side.
\<close>

subsection \<open>Receiving\<close>

text \<open>\<open>RAgain\<close> carries whether the clock has passed the deadline. A script that is used up stands for
  a socket on which nothing more arrives before the deadline.\<close>

datatype recv_event = RBytes string | REof | RIntr | RAgain bool | RErr

datatype recv_result = RecvNothing | RecvData string | RecvThrow

definition max_frame_bytes :: nat where
  "max_frame_bytes = 2 ^ 30"

text \<open>\<open>recvCommMessageType\<close>, with the bytes received so far. The kernel returns no more bytes than
  asked for and keeps the rest; an end of stream stays at the end of the stream.\<close>

fun recvCommMessageType :: "bool \<Rightarrow> nat \<Rightarrow> string \<Rightarrow> recv_event list \<Rightarrow> recv_result \<times> recv_event list" where
  "recvCommMessageType force sz got [] =
     (if length got \<ge> sz then (RecvData got, [])
      else if \<not> force \<and> got = [] then (RecvNothing, []) else (RecvThrow, []))"
| "recvCommMessageType force sz got (ev # evs) =
     (if length got \<ge> sz then (RecvData got, ev # evs)
      else case ev of
        RBytes bs \<Rightarrow>
          if length bs > sz - length got
          then (RecvData (got @ take (sz - length got) bs), RBytes (drop (sz - length got) bs) # evs)
          else recvCommMessageType force sz (got @ bs) evs
      | REof \<Rightarrow> (if got = [] \<and> \<not> force then RecvNothing else RecvThrow, REof # evs)
      | RIntr \<Rightarrow> recvCommMessageType force sz got evs
      | RAgain late \<Rightarrow>
          if \<not> force \<and> got = [] then (RecvNothing, evs)
          else if late then (RecvThrow, evs) else recvCommMessageType force sz got evs
      | RErr \<Rightarrow> (RecvThrow, evs))"

definition recvCommMessage :: "recv_event list \<Rightarrow> recv_result \<times> recv_event list" where
  "recvCommMessage evs =
     (case recvCommMessageType False 8 [] evs of
        (RecvData hdr, evs) \<Rightarrow>
          (let sz = unat (bytes_u64 hdr)
           in if sz > max_frame_bytes then (RecvThrow, evs) else recvCommMessageType True sz [] evs)
      | r \<Rightarrow> r)"

subsection \<open>Sending\<close>

text \<open>The kernel accepts some bytes, asks to retry, or fails. The loop over the two parts of a message
  has no deadline; \<open>None\<close> means that it still runs when the script ends.\<close>

datatype send_event = SBytes nat | SRetry | SErr

fun send_loop :: "string list \<Rightarrow> string \<Rightarrow> send_event list \<Rightarrow> (bool \<times> string \<times> send_event list) option" where
  "send_loop [] sent evs = Some (True, sent, evs)"
| "send_loop (p # ps) sent [] = None"
| "send_loop (p # ps) sent (ev # evs) =
     (case ev of
        SBytes n \<Rightarrow>
          if n \<ge> length p then send_loop ps (sent @ p) evs
          else send_loop (drop n p # ps) (sent @ take n p) evs
      | SRetry \<Rightarrow> send_loop (p # ps) sent evs
      | SErr \<Rightarrow> Some (False, sent, evs))"

definition sendCommMessage :: "string \<Rightarrow> send_event list \<Rightarrow> (bool \<times> string \<times> send_event list) option" where
  "sendCommMessage msg evs = send_loop [u64_bytes (size_of msg), msg] [] evs"

subsection \<open>Commands in a frame\<close>

definition comm_tag :: string where
  "comm_tag = ''NIXLCOMM:''"

text \<open>\<open>absl::StrSplit\<close> at the tag, with the piece read so far.\<close>

function comm_split :: "string \<Rightarrow> string \<Rightarrow> string list" where
  "comm_split cur [] = [cur]"
| "comm_split cur (c # cs) =
     (if prefix comm_tag (c # cs) then cur # comm_split [] (drop (length comm_tag) (c # cs)) else comm_split (cur @ [c]) cs)"
  by pat_completeness auto
termination
  by (relation "measure (\<lambda>(cur, s). length s)") (auto simp: comm_tag_def)

subsection \<open>Fragmentation\<close>

text \<open>A stream without failure: data in any pieces, interrupted calls, waits within the deadline.\<close>

fun clean :: "recv_event \<Rightarrow> bool" where
  "clean (RBytes bs) \<longleftrightarrow> bs \<noteq> []"
| "clean RIntr = True"
| "clean (RAgain late) \<longleftrightarrow> \<not> late"
| "clean _ = False"

fun event_bytes :: "recv_event \<Rightarrow> string" where
  "event_bytes (RBytes bs) = bs"
| "event_bytes _ = []"

definition stream_bytes :: "recv_event list \<Rightarrow> string" where
  "stream_bytes evs = concat (map event_bytes evs)"

fun data_waiting :: "recv_event list \<Rightarrow> bool" where
  "data_waiting (RBytes bs # evs) = True"
| "data_waiting (RIntr # evs) = data_waiting evs"
| "data_waiting _ = False"

lemma stream_bytes_simps [simp]:
  "stream_bytes [] = []" "stream_bytes (ev # evs) = event_bytes ev @ stream_bytes evs"
  by (simp_all add: stream_bytes_def)

lemma recv_type_clean:
  assumes "list_all clean evs" and "length got \<le> sz" and "sz \<le> length got + length (stream_bytes evs)"
    and "force \<or> got \<noteq> [] \<or> data_waiting evs"
  shows "\<exists>evs'. recvCommMessageType force sz got evs = (RecvData (got @ take (sz - length got) (stream_bytes evs)), evs') \<and>
    stream_bytes evs' = drop (sz - length got) (stream_bytes evs) \<and> list_all clean evs'"
  using assms
proof (induction evs arbitrary: got)
  case (Cons ev evs)
  show ?case
  proof (cases ev)
    case (RBytes bs)
    then have bs: "bs \<noteq> []" using Cons.prems(1) by simp
    show ?thesis
    proof (cases "length bs > sz - length got \<or> length got = sz")
      case True
      with RBytes Cons.prems show ?thesis by auto
    next
      case False
      with RBytes Cons.prems bs Cons.IH [of "got @ bs"] show ?thesis by auto
    qed
  next
    case RIntr
    with Cons show ?thesis by (cases "length got = sz") auto
  next
    case (RAgain late)
    with Cons show ?thesis by (cases "length got = sz") auto
  qed (use Cons.prems in simp_all)
qed auto

lemma recvCommMessage_clean:
  assumes "list_all clean evs" and "data_waiting evs" and "stream_bytes evs = u64_bytes (size_of msg) @ msg @ rest"
    and "length msg \<le> max_frame_bytes"
  shows "\<exists>evs'. recvCommMessage evs = (RecvData msg, evs') \<and> stream_bytes evs' = rest \<and> list_all clean evs'"
proof -
  obtain evs1 where h: "recvCommMessageType False 8 [] evs = (RecvData (u64_bytes (size_of msg)), evs1)"
    "stream_bytes evs1 = msg @ rest" "list_all clean evs1"
    using recv_type_clean [OF assms(1), of "[]" 8 False] assms(2,3) by auto
  have n: "unat (size_of msg) = length msg" using assms(4) by (simp add: unat_size_of fits_def max_frame_bytes_def)
  obtain evs2 where "recvCommMessageType True (length msg) [] evs1 = (RecvData msg, evs2)" "stream_bytes evs2 = rest" "list_all clean evs2"
    using recv_type_clean [OF h(3), of "[]" "length msg" True] h(2) by auto
  with h n assms(4) show ?thesis by (simp add: recvCommMessage_def)
qed

lemma send_loop_complete: "send_loop ps sent evs = Some (True, out, evs') \<Longrightarrow> out = sent @ concat ps"
proof (induction ps sent evs rule: send_loop.induct)
  case (3 p ps sent ev evs)
  then show ?case by (cases ev) (auto split: if_splits)
qed auto

lemma send_loop_prefix: "send_loop ps sent evs = Some (ok, out, evs') \<Longrightarrow> \<exists>more. out = sent @ more \<and> prefix more (concat ps)"
proof (induction ps sent evs rule: send_loop.induct)
  case (3 p ps sent ev evs)
  show ?case
  proof (cases ev)
    case (SBytes n)
    show ?thesis
    proof (cases "n \<ge> length p")
      case True
      with 3 SBytes show ?thesis by auto
    next
      case False
      with 3 SBytes obtain more where "out = (sent @ take n p) @ more" "prefix more (drop n p @ concat ps)" by auto
      then have "out = sent @ (take n p @ more)" "prefix (take n p @ more) (take n p @ drop n p @ concat ps)" by simp_all
      then show ?thesis by (metis append.assoc append_take_drop_id concat.simps(2))
    qed
  qed (use 3 in auto)
qed auto



subsection \<open>Splitting\<close>

lemma comm_split_plain: "\<not> sublist comm_tag s \<Longrightarrow> comm_split cur s = [cur @ s]"
proof (induction s arbitrary: cur)
  case (Cons c cs)
  then have "\<not> prefix comm_tag (c # cs)" "\<not> sublist comm_tag cs" by (auto simp: sublist_Cons_right)
  with Cons.IH [of "cur @ [c]"] show ?case by simp
qed simp

lemma comm_split_head: "comm_split cur (comm_tag @ s) = cur # comm_split [] s"
proof -
  obtain c cs where t: "comm_tag = c # cs" by (simp add: comm_tag_def)
  have "comm_split cur (c # cs @ s) = cur # comm_split [] (drop (length comm_tag) (comm_tag @ s))"
    by (subst comm_split.simps(2)) (simp add: t)
  then show ?thesis by (simp add: t)
qed

text \<open>The tag does not overlap itself, so its first occurrence behind a text without the tag is the
  one that was put there.\<close>

lemma tag_not_earlier:
  assumes "\<not> sublist comm_tag (c # p)"
  shows "\<not> prefix comm_tag ((c # p) @ comm_tag @ s)"
proof
  assume pre: "prefix comm_tag ((c # p) @ comm_tag @ s)"
  show False
  proof (cases "length comm_tag \<le> length (c # p)")
    case True
    with pre have "prefix comm_tag (c # p)" by (metis prefix_length_prefix prefix_def)
    with assms show False by (simp add: prefix_imp_sublist)
  next
    case False
    define k where "k = length (c # p)"
    have k: "1 \<le> k" "k < 9" using False by (simp_all add: k_def comm_tag_def)
    obtain zs where "(c # p) @ comm_tag @ s = comm_tag @ zs" using pre by (auto simp: prefix_def)
    moreover have "(comm_tag @ zs) ! k = comm_tag ! k" using k by (subst nth_append) (simp add: comm_tag_def)
    ultimately have "comm_tag ! k = ((c # p) @ comm_tag @ s) ! k" by metis
    also have "\<dots> = (comm_tag @ s) ! 0" unfolding k_def by (rule nth_append_length_plus [of _ _ 0, simplified])
    finally have "comm_tag ! k = CHR ''N''" by (simp add: comm_tag_def)
    moreover have "k \<in> {1, 2, 3, 4, 5, 6, 7, 8}" using k by auto
    ultimately show False by (auto simp: comm_tag_def)
  qed
qed

lemma comm_split_tag: "\<not> sublist comm_tag p \<Longrightarrow> comm_split cur (p @ comm_tag @ s) = (cur @ p) # comm_split [] s"
proof (induction p arbitrary: cur)
  case Nil
  then show ?case by (simp add: comm_split_head)
next
  case (Cons c p)
  then have "\<not> sublist comm_tag p" by (auto simp: sublist_Cons_right)
  with Cons.IH [of "cur @ [c]"] tag_not_earlier [OF Cons.prems] show ?case by simp
qed

end
