(* ===== verification/Nixl_P2P.thy ===== *)
theory Nixl_P2P
  imports Nixl_AgentLife Nixl_Wire
begin

text \<open>
  The peer-to-peer metadata transport (\<open>src/core/nixl_p2p_metadata_backend.cpp\<close>), its listening socket
  (\<open>src/utils/stream/metadata_stream.cpp\<close>) and the manager that routes the metadata calls
  (\<open>src/core/nixl_md_manager.cpp\<close>). System calls are arguments: their results, one record per
  function that makes them. The transport's work runs in the tasks and polls of its worker, one at
  a time, so each is one step here.
\<close>

datatype 'a run = Done 'a | Crash | Hang

fun run_bind :: "'a run \<Rightarrow> ('a \<Rightarrow> 'b run) \<Rightarrow> 'b run" where
  "run_bind (Done x) f = f x"
| "run_bind Crash f = Crash"
| "run_bind Hang f = Hang"

fun run_option :: "'a option \<Rightarrow> 'a run" where
  "run_option None = Crash"
| "run_option (Some x) = Done x"

lemma run_bind_Done:
  assumes "run_bind r f = Done y"
  obtains x where "r = Done x" "f x = Done y"
  using assms by (cases r) auto

lemma run_option_Done: "run_option r = Done x \<Longrightarrow> (r = Some x \<Longrightarrow> thesis) \<Longrightarrow> thesis"
  by (cases r) auto

text \<open>An open connection: what its peer sends, how the kernel takes what is written, and the bytes
  written so far.\<close>

record conn =
  rscript :: "recv_event list"
  wscript :: "send_event list"
  wire :: string

type_synonym socket_map = "((string \<times> int) \<times> conn) list"

datatype family = AF_INET | AF_INET6 | AF_OTHER

subsection \<open>Connecting\<close>

record connect_env =
  ce_getaddrinfo :: int
  ce_family :: family
  ce_socket :: bool
  ce_connect :: int
  ce_in_progress :: bool
  ce_poll :: int
  ce_pollout :: bool
  ce_getsockopt :: int
  ce_error :: int
  ce_conn :: conn

definition connectToIP :: "connect_env \<Rightarrow> conn option" where
  "connectToIP ce =
     (if ce_getaddrinfo ce \<noteq> 0 then None
      else if ce_family ce \<noteq> AF_INET \<and> ce_family ce \<noteq> AF_INET6 then None
      else if \<not> ce_socket ce then None
      else if ce_connect ce < 0 \<and> \<not> ce_in_progress ce then None
      else if ce_poll ce \<le> 0 then None
      else if \<not> ce_pollout ce then None
      else if ce_getsockopt ce < 0 then None
      else if ce_error ce \<noteq> 0 then None
      else Some (ce_conn ce))"

definition sendToPeer :: "connect_env \<Rightarrow> string \<Rightarrow> int \<Rightarrow> string \<Rightarrow> socket_map \<Rightarrow> socket_map run" where
  "sendToPeer ce ip prt msg socks =
     (let client = (case map_of socks (ip, prt) of Some c \<Rightarrow> Some c | None \<Rightarrow> connectToIP ce)
      in case client of
           None \<Rightarrow> Done socks
         | Some c \<Rightarrow>
             (case sendCommMessage msg (wscript c) of
                None \<Rightarrow> Hang
              | Some (ok, out, ws) \<Rightarrow>
                  Done (if ok then om_update (ip, prt) (c\<lparr>wscript := ws, wire := wire c @ out\<rparr>) socks
                        else al_delete (ip, prt) socks)))"

subsection \<open>The listening socket\<close>

datatype errno = EAFNOSUPPORT | EPROTONOSUPPORT | EACCES | EPERM | ENOPROTOOPT | EOTHER

record stream_env =
  se_socket :: bool
  se_socket_errno :: errno
  se_v6only :: int
  se_v6only_errno :: errno
  se_reuse :: int
  se_bind :: int

datatype setup_result = Fd | NoFd | Throws

definition setupStream :: "(family \<Rightarrow> stream_env) \<Rightarrow> family \<Rightarrow> setup_result" where
  "setupStream se fam =
     (if fam = AF_OTHER then Throws
      else let e = se fam
           in if \<not> se_socket e
              then if fam = AF_INET6 \<and> se_socket_errno e \<in> {EAFNOSUPPORT, EPROTONOSUPPORT, EACCES, EPERM} then NoFd else Throws
              else if fam = AF_INET6 \<and> se_v6only e < 0
              then if se_v6only_errno e = ENOPROTOOPT then NoFd else Throws
              else if se_reuse e < 0 then Throws
              else if se_bind e < 0 then if fam = AF_INET6 then NoFd else Throws
              else Fd)"

text \<open>The port the listener is bound to, when the set-up succeeds.\<close>

record listen_env =
  le_getsockname :: int
  le_family :: family
  le_port :: int
  le_listen :: int

definition setupListener :: "(family \<Rightarrow> stream_env) \<Rightarrow> listen_env \<Rightarrow> int option" where
  "setupListener se le =
     (let fd = setupStream se AF_INET6; fd = (if fd = NoFd then setupStream se AF_INET else fd)
      in if fd = Throws then None
         else if le_getsockname le \<noteq> 0 then None
         else if le_family le = AF_OTHER then None
         else if le_listen le < 0 then None
         else Some (le_port le))"

lemma setupStream_v4: "setupStream se AF_INET \<noteq> NoFd"
  by (simp add: setupStream_def Let_def)

text \<open>The blocking helpers of the same class read into a buffer on the stack, of \<open>RECV_BUFFER_SIZE\<close> bytes.
  The argument is what \<open>recv\<close> returns, at most that many bytes, \<open>None\<close> for an error; the result \<open>None\<close>
  is a write behind the end of the buffer.\<close>

definition recv_buffer_size :: nat where
  "recv_buffer_size = 16384"

definition recvFromClient :: "string option \<Rightarrow> string" where
  "recvFromClient got = (case got of None \<Rightarrow> [] | Some bs \<Rightarrow> bs)"

definition c_string :: "string \<Rightarrow> string option" where
  "c_string bs = (if length bs \<ge> recv_buffer_size then None else Some (takeWhile (\<lambda>c. c \<noteq> char_of (0 :: nat)) bs))"

definition recvData :: "string option \<Rightarrow> string option" where
  "recvData got = (case got of None \<Rightarrow> Some [] | Some bs \<Rightarrow> if bs = [] then Some [] else c_string bs)"

text \<open>The messages a client gets acknowledged until it disconnects.\<close>

fun recvFromClients :: "string list \<Rightarrow> string list option" where
  "recvFromClients [] = Some []"
| "recvFromClients (bs # rest) =
     (if bs = [] then Some []
      else case c_string bs of None \<Rightarrow> None | Some m \<Rightarrow> map_option (\<lambda>ms. m # ms) (recvFromClients rest))"

record client_env =
  cl_socket :: bool
  cl_pton :: int
  cl_connect :: int

definition setupClient :: "client_env \<Rightarrow> bool" where
  "setupClient e \<longleftrightarrow> cl_socket e \<and> cl_pton e > 0 \<and> cl_connect e \<ge> 0"

lemma full_read_overflows: "length bs = recv_buffer_size \<Longrightarrow> recvData (Some bs) = None \<and> recvFromClients [bs] = None"
  by (auto simp: recvData_def c_string_def recv_buffer_size_def)

subsection \<open>Accepting\<close>

fun dec :: "nat \<Rightarrow> string" where
  "dec n = (if n < 10 then [char_of (48 + n)] else dec (n div 10) @ [char_of (48 + n mod 10)])"

declare dec.simps [simp del]

datatype sockaddr = Sock6 bool nat nat | Sock4 nat | SockOther

text \<open>The key a peer is filed under: the printed address, with the scope of a link-local one. An IPv4
  peer of the IPv6 socket is printed as IPv4.\<close>

definition peer_key :: "sockaddr \<Rightarrow> string option \<Rightarrow> (string \<times> int) option" where
  "peer_key sa ntop =
     (case sa of
        SockOther \<Rightarrow> None
      | Sock4 prt \<Rightarrow> map_option (\<lambda>ip. (ip, int prt)) ntop
      | Sock6 mapped prt scope \<Rightarrow>
          map_option (\<lambda>ip. (if \<not> mapped \<and> scope \<noteq> 0 then ip @ ''%'' @ dec scope else ip, int prt)) ntop)"

record accepted =
  ac_getpeername :: int
  ac_addr :: sockaddr
  ac_ntop :: "string option"
  ac_fcntl :: bool
  ac_conn :: conn

text \<open>One entry per client; the list ends where \<open>accept\<close> has no more.\<close>

fun acceptPeers :: "accepted list \<Rightarrow> socket_map \<Rightarrow> socket_map" where
  "acceptPeers [] socks = socks"
| "acceptPeers (ac # acs) socks =
     (if ac_getpeername ac \<noteq> 0 then acceptPeers acs socks
      else case peer_key (ac_addr ac) (ac_ntop ac) of
        None \<Rightarrow> acceptPeers acs socks
      | Some key \<Rightarrow>
          if \<not> ac_fcntl ac then acceptPeers acs socks
          else acceptPeers acs (om_update key (ac_conn ac) socks))"

subsection \<open>Servicing peers\<close>

text \<open>The commands of one frame; the result says whether the peer has to be disconnected.\<close>

fun handle_commands :: "benv \<Rightarrow> nixl_mem_t \<Rightarrow> string list \<Rightarrow> nixlAgentData \<Rightarrow> conn \<Rightarrow> (bool \<times> nixlAgentData \<times> conn) run" where
  "handle_commands env g [] a c = Done (False, a, c)"
| "handle_commands env g (cmd # cmds) a c =
     (if length cmd < 4 then handle_commands env g cmds a c
      else if take 4 cmd = ''LOAD''
      then run_bind (run_option (loadRemoteMD env g (drop 4 cmd) a)) (\<lambda>(st, name, a). handle_commands env g cmds a c)
      else if take 4 cmd = ''SEND''
      then (case sendCommMessage (comm_tag @ ''LOAD'' @ snd (getLocalMD env a)) (wscript c) of
              None \<Rightarrow> Hang
            | Some (ok, out, ws) \<Rightarrow>
                (let c = c\<lparr>wscript := ws, wire := wire c @ out\<rparr>
                 in if ok then handle_commands env g cmds a c else Done (True, a, c)))
      else if take 4 cmd = ''INVL''
      then run_bind (run_option (invalidateRemoteMD env (drop 4 cmd) a)) (\<lambda>(st, a). handle_commands env g cmds a c)
      else handle_commands env g cmds a c)"

fun readIncoming :: "benv \<Rightarrow> nixl_mem_t \<Rightarrow> socket_map \<Rightarrow> nixlAgentData \<Rightarrow> (socket_map \<times> nixlAgentData) run" where
  "readIncoming env g [] a = Done ([], a)"
| "readIncoming env g ((key, c) # socks) a =
     (case recvCommMessage (rscript c) of
        (RecvNothing, rs) \<Rightarrow>
          run_bind (readIncoming env g socks a) (\<lambda>(socks, a). Done ((key, c\<lparr>rscript := rs\<rparr>) # socks, a))
      | (RecvThrow, rs) \<Rightarrow> readIncoming env g socks a
      | (RecvData commands, rs) \<Rightarrow>
          run_bind (handle_commands env g (comm_split [] commands) a (c\<lparr>rscript := rs\<rparr>)) (\<lambda>(disconnected, a, c).
            run_bind (readIncoming env g socks a) (\<lambda>(socks, a). Done (if disconnected then socks else (key, c) # socks, a))))"

definition serviceEvents :: "benv \<Rightarrow> nixl_mem_t \<Rightarrow> accepted list \<Rightarrow> socket_map \<Rightarrow> nixlAgentData \<Rightarrow> (socket_map \<times> nixlAgentData) run" where
  "serviceEvents env g acs socks a = readIncoming env g (acceptPeers acs socks) a"

subsection \<open>Outbound operations\<close>

text \<open>The synchronous part of each call: a status and, when it succeeds, the send handed to the worker.\<close>

datatype send_task = SendToPeer string int string

definition hasAddress :: "nixl_opt_args_t option \<Rightarrow> bool" where
  "hasAddress extra \<longleftrightarrow> (case extra of None \<Rightarrow> False | Some x \<Rightarrow> ipAddr x \<noteq> [])"

definition p2p_submit :: "nixl_opt_args_t option \<Rightarrow> string \<Rightarrow> nixl_status_t \<times> send_task option" where
  "p2p_submit extra msg = (NIXL_SUCCESS, Some (SendToPeer (ipAddr (the extra)) (port (the extra)) msg))"

definition p2p_sendLocal :: "benv \<Rightarrow> nixl_opt_args_t option \<Rightarrow> nixlAgentData \<Rightarrow> nixl_status_t \<times> send_task option" where
  "p2p_sendLocal env extra a =
     (if \<not> hasAddress extra then (NIXL_ERR_INVALID_PARAM, None)
      else let (ret, blob) = getLocalMD env a
           in if is_err ret then (ret, None) else p2p_submit extra (comm_tag @ ''LOAD'' @ blob))"

definition p2p_sendLocalPartial :: "benv \<Rightarrow> nixl_reg_dlist_t \<Rightarrow> nixl_opt_args_t option \<Rightarrow> nixlAgentData \<Rightarrow> nixl_status_t \<times> send_task option" where
  "p2p_sendLocalPartial env ds extra a =
     (if \<not> hasAddress extra then (NIXL_ERR_INVALID_PARAM, None)
      else let (ret, blob) = getLocalPartialMD env ds extra a
           in if is_err ret then (ret, None) else p2p_submit extra (comm_tag @ ''LOAD'' @ blob))"

definition p2p_fetchRemote :: "nixl_opt_args_t option \<Rightarrow> nixl_status_t \<times> send_task option" where
  "p2p_fetchRemote extra =
     (if \<not> hasAddress extra then (NIXL_ERR_INVALID_PARAM, None) else p2p_submit extra (comm_tag @ ''SEND''))"

definition p2p_invalidateLocal :: "nixl_opt_args_t option \<Rightarrow> nixlAgentData \<Rightarrow> nixl_status_t \<times> send_task option" where
  "p2p_invalidateLocal extra a =
     (if \<not> hasAddress extra then (NIXL_ERR_INVALID_PARAM, None) else p2p_submit extra (comm_tag @ ''INVL'' @ agName a))"

fun run_send :: "connect_env \<Rightarrow> send_task \<Rightarrow> socket_map \<Rightarrow> socket_map run" where
  "run_send ce (SendToPeer ip prt msg) socks = sendToPeer ce ip prt msg socks"

subsection \<open>Safety of peer input\<close>

lemma send_loop_failing: "SErr \<in> set evs \<Longrightarrow> \<exists>ok out evs'. send_loop ps sent evs = Some (ok, out, evs') \<and> (ok \<longrightarrow> SErr \<in> set evs')"
proof (induction ps sent evs rule: send_loop.induct)
  case (3 p ps sent ev evs)
  then show ?case by (cases ev) auto
qed auto

text \<open>One agent operation per command: what a frame does to the agent is a sequence of its public
  operations, so it keeps what they keep.\<close>

definition serviced :: "benv \<Rightarrow> nixlAgentData \<Rightarrow> nixlAgentData \<Rightarrow> bool" where
  "serviced env a a' \<longleftrightarrow> agent_inv env a' \<and> (agent_step env)\<^sup>*\<^sup>* a a'"

lemma serviced_refl: "agent_inv env a \<Longrightarrow> serviced env a a"
  by (simp add: serviced_def)

lemma serviced_trans: "serviced env a b \<Longrightarrow> serviced env b c \<Longrightarrow> serviced env a c"
  by (auto simp: serviced_def)

lemma serviced_inv: "serviced env a b \<Longrightarrow> agent_inv env b"
  by (simp add: serviced_def)

lemma serviced_step: "agent_inv env a' \<Longrightarrow> agent_step env a a' \<Longrightarrow> serviced env a a'"
  by (simp add: serviced_def r_into_rtranclp)

lemma load_serviced:
  assumes "agent_inv env a"
  obtains st name a' where "loadRemoteMD env g blob a = Some (st, name, a')" "serviced env a a'"
  using loadRemoteMD_inv [OF assms, of g blob] by (metis serviced_step step_loadRemoteMD)

lemma invalidate_serviced:
  assumes "agent_inv env a"
  obtains st a' where "invalidateRemoteMD env ag a = Some (st, a')" "serviced env a a'"
proof -
  have "\<exists>st a'. invalidateRemoteMD env ag a = Some (st, a') \<and> agent_inv env a'"
    using invalidate_total [OF assms, of ag] assms by (auto simp: invalidateRemoteMD_def)
  with that show ?thesis by (metis serviced_step step_invalidateRemoteMD)
qed

text \<open>The outcome of servicing: never a crash, a serviced agent if it returns, and it returns when every
  connection it may write to either takes the bytes or fails at last.\<close>

definition outcome_ok :: "benv \<Rightarrow> nixlAgentData \<Rightarrow> ('b \<Rightarrow> nixlAgentData) \<Rightarrow> bool \<Rightarrow> 'b run \<Rightarrow> bool" where
  "outcome_ok env a ag live r \<longleftrightarrow> (case r of Done x \<Rightarrow> serviced env a (ag x) | Crash \<Rightarrow> False | Hang \<Rightarrow> \<not> live)"

lemma outcome_ok_simps [simp]:
  "outcome_ok env a ag live (Done x) \<longleftrightarrow> serviced env a (ag x)" "\<not> outcome_ok env a ag live Crash"
  "outcome_ok env a ag live Hang \<longleftrightarrow> \<not> live"
  by (simp_all add: outcome_ok_def)

lemma outcome_ok_from: "serviced env a b \<Longrightarrow> outcome_ok env b ag live r \<Longrightarrow> outcome_ok env a ag live r"
  by (cases r) (auto intro: serviced_trans)

lemma outcome_ok_weaken: "outcome_ok env a ag live r \<Longrightarrow> (live' \<Longrightarrow> live) \<Longrightarrow> outcome_ok env a ag live' r"
  by (cases r) auto

lemma outcome_ok_bind:
  assumes "outcome_ok env a ag live r" and "\<And>x. r = Done x \<Longrightarrow> serviced env a (ag x) \<Longrightarrow> outcome_ok env (ag x) ag' live (f x)"
  shows "outcome_ok env a ag' live (run_bind r f)"
  using assms by (cases r) (auto intro: outcome_ok_from)

lemma handle_commands_ok:
  "agent_inv env a \<Longrightarrow> outcome_ok env a (\<lambda>(d, a, c). a) (SErr \<in> set (wscript c)) (handle_commands env g cmds a c)"
proof (induction cmds arbitrary: a c)
  case Nil
  then show ?case by (simp add: serviced_refl)
next
  case (Cons cmd cmds)
  obtain st name a1 where l: "loadRemoteMD env g (drop 4 cmd) a = Some (st, name, a1)" "serviced env a a1"
    using load_serviced [OF Cons.prems] .
  obtain st2 a2 where i: "invalidateRemoteMD env (drop 4 cmd) a = Some (st2, a2)" "serviced env a a2"
    using invalidate_serviced [OF Cons.prems] .
  let ?m = "comm_tag @ ''LOAD'' @ snd (getLocalMD env a)"
  have send: "outcome_ok env a (\<lambda>(d, a, c). a) (SErr \<in> set (wscript c))
    (case sendCommMessage ?m (wscript c) of None \<Rightarrow> Hang
     | Some (ok, out, ws) \<Rightarrow> (let c = c\<lparr>wscript := ws, wire := wire c @ out\<rparr> in
         if ok then handle_commands env g cmds a c else Done (True, a, c)))"
  proof (cases "sendCommMessage ?m (wscript c)")
    case None
    with send_loop_failing [of "wscript c" "[u64_bytes (size_of ?m), ?m]" "[]"] show ?thesis by (auto simp: sendCommMessage_def)
  next
    case (Some r)
    obtain ok out ws where r: "r = (ok, out, ws)" by (cases r)
    have "SErr \<in> set (wscript c) \<Longrightarrow> ok \<Longrightarrow> SErr \<in> set ws"
      using send_loop_failing [of "wscript c" "[u64_bytes (size_of ?m), ?m]" "[]"] Some r by (auto simp: sendCommMessage_def)
    with Cons.IH [OF Cons.prems, of "c\<lparr>wscript := ws, wire := wire c @ out\<rparr>"] Some r Cons.prems show ?thesis
      by (auto simp: serviced_refl Let_def intro: outcome_ok_weaken)
  qed
  have "outcome_ok env a (\<lambda>(d, a, c). a) (SErr \<in> set (wscript c)) (handle_commands env g cmds a1 c)"
    "outcome_ok env a (\<lambda>(d, a, c). a) (SErr \<in> set (wscript c)) (handle_commands env g cmds a2 c)"
    using Cons.IH l(2) i(2) by (blast intro: outcome_ok_from dest: serviced_inv)+
  with Cons.IH [OF Cons.prems] send l(1) i(1) show ?case by (simp del: Let_def)
qed

lemma readIncoming_ok:
  "agent_inv env a \<Longrightarrow> outcome_ok env a snd (\<forall>(k, c) \<in> set socks. SErr \<in> set (wscript c)) (readIncoming env g socks a)"
proof (induction socks arbitrary: a)
  case Nil
  then show ?case by (simp add: serviced_refl)
next
  case (Cons kc socks)
  obtain key c where kc: "kc = (key, c)" by fastforce
  obtain res rs where rc: "recvCommMessage (rscript c) = (res, rs)" by fastforce
  let ?live = "\<forall>(k, c) \<in> set (kc # socks). SErr \<in> set (wscript c)"
  have tail: "agent_inv env b \<Longrightarrow> outcome_ok env b snd ?live (readIncoming env g socks b)" for b
    using Cons.IH by (rule outcome_ok_weaken) simp_all
  have rest: "agent_inv env b \<Longrightarrow> outcome_ok env b snd ?live (run_bind (readIncoming env g socks b) (\<lambda>(socks, a). Done (f socks, a)))" for b f
    by (rule outcome_ok_bind [OF tail]) (auto intro!: serviced_refl dest: serviced_inv)
  show ?case
  proof (cases res)
    case (RecvData commands)
    have "outcome_ok env a (\<lambda>(d, a, c). a) ?live (handle_commands env g (comm_split [] commands) a (c\<lparr>rscript := rs\<rparr>))"
      by (rule outcome_ok_weaken [OF handle_commands_ok [OF Cons.prems]]) (simp add: kc)
    then have "outcome_ok env a snd ?live (run_bind (handle_commands env g (comm_split [] commands) a (c\<lparr>rscript := rs\<rparr>))
      (\<lambda>(d, a, c). run_bind (readIncoming env g socks a) (\<lambda>(socks, a). Done (if d then socks else (key, c) # socks, a))))"
    proof (rule outcome_ok_bind)
      fix x :: "bool \<times> nixlAgentData \<times> conn"
      assume x: "serviced env a (case x of (d, a, c) \<Rightarrow> a)"
      obtain d b c' where d: "x = (d, b, c')" by (cases x)
      show "outcome_ok env (case x of (d, a, c) \<Rightarrow> a) snd ?live (case x of (d, a, c) \<Rightarrow>
        run_bind (readIncoming env g socks a) (\<lambda>(socks, a). Done (if d then socks else (key, c) # socks, a)))"
        using rest [of b "\<lambda>socks. if d then socks else (key, c') # socks"] x by (auto simp: d dest: serviced_inv)
    qed
    then show ?thesis by (simp add: kc rc RecvData)
  qed (use rest [OF Cons.prems] tail [OF Cons.prems] in \<open>simp_all add: kc rc\<close>)
qed


text \<open>Nothing a peer sends can crash the agent or break its state. From every state with the agent's
  invariant and for any bytes on any connections, a service pass never dereferences a missing
  engine; if it returns, the agent went through a sequence of its own public operations and has the
  invariant again; and it returns whenever each connection either takes what is written to it or
  fails at last.\<close>

theorem peer_input_is_safe:
  assumes "agent_inv env a"
  shows "serviceEvents env g acs socks a \<noteq> Crash \<and>
    (\<forall>socks' a'. serviceEvents env g acs socks a = Done (socks', a') \<longrightarrow> agent_inv env a' \<and> (agent_step env)\<^sup>*\<^sup>* a a') \<and>
    ((\<forall>(k, c) \<in> set (acceptPeers acs socks). SErr \<in> set (wscript c)) \<longrightarrow> (\<exists>r. serviceEvents env g acs socks a = Done r))"
  using readIncoming_ok [OF assms, of "acceptPeers acs socks" g]
  by (cases "readIncoming env g (acceptPeers acs socks) a") (auto simp: serviceEvents_def serviced_def)

theorem peer_input_is_safe_witness:
  "\<exists>r. serviceEvents ex_env DRAM_SEG [] [((''10.0.0.1'', 8888), \<lparr>rscript = [RBytes ''garbage!'', RErr], wscript = [SErr], wire = []\<rparr>)]
     ex_publisher = Done r"
  using peer_input_is_safe [OF ex_agent_inv(1), of DRAM_SEG "[]" "[((''10.0.0.1'', 8888), \<lparr>rscript = [RBytes ''garbage!'', RErr], wscript = [SErr], wire = []\<rparr>)]"]
  by auto

subsection \<open>Delivery\<close>

text \<open>What a send over a new connection leaves on the wire.\<close>

lemma sendToPeer_wire:
  assumes "sendToPeer ce ip prt msg socks = Done socks'" and "map_of socks (ip, prt) = None" and "wire (ce_conn ce) = []"
    and "map_of socks' (ip, prt) = Some c"
  shows "\<exists>ws. sendCommMessage msg (wscript (ce_conn ce)) = Some (True, wire c, ws)"
  using assms by (auto simp: sendToPeer_def connectToIP_def map_of_om_update map_of_al_delete split: option.splits if_splits)

lemma comm_split_load:
  assumes "\<not> sublist comm_tag blob"
  shows "comm_split [] (comm_tag @ ''LOAD'' @ blob) = [[], ''LOAD'' @ blob]"
proof -
  have "\<not> sublist comm_tag (''LOAD'' @ blob)" using assms by (simp add: sublist_Cons_right) (simp add: comm_tag_def)
  then show ?thesis using comm_split_head [of "[]" "''LOAD'' @ blob"] comm_split_plain [of "''LOAD'' @ blob" "[]"] by simp
qed


lemma le_bytes_small: "c \<in> set (le_bytes k n) \<Longrightarrow> of_char c \<le> n"
proof (induction k arbitrary: n)
  case (Suc k)
  then consider "c = char_of (n mod 256)" | "c \<in> set (le_bytes k (n div 256))" by auto
  then show ?case
  proof cases
    case 2
    then show ?thesis using Suc.IH [of "n div 256"] by (meson div_le_dividend le_trans)
  qed simp
qed simp

definition ex_connect :: connect_env where
  "ex_connect = \<lparr>ce_getaddrinfo = 0, ce_family = AF_INET, ce_socket = True, ce_connect = -1, ce_in_progress = True, ce_poll = 1,
     ce_pollout = True, ce_getsockopt = 0, ce_error = 0, ce_conn = \<lparr>rscript = [], wscript = [SBytes 8, SBytes 1000], wire = []\<rparr>\<rparr>"


subsection \<open>Limits\<close>

text \<open>A blob that contains the tag is cut there although the frame gives its length: the peer loads the
  part before the tag and takes the rest for commands.\<close>

lemma tag_cuts_blob:
  assumes "\<not> sublist comm_tag (''LOAD'' @ p)"
  shows "comm_split [] (comm_tag @ ''LOAD'' @ p @ comm_tag @ q) = [] # (''LOAD'' @ p) # comm_split [] q"
  using comm_split_head [of "[]" "''LOAD'' @ p @ comm_tag @ q"] comm_split_tag [OF assms, of "[]" q] by simp

text \<open>A connection its peer closed between frames reads as a quiet one: every pass leaves it in the
  map.\<close>

lemma closed_peer_stays: "rscript c = [REof] \<Longrightarrow> readIncoming env g [(key, c)] a = Done ([(key, c)], a)"
  by (cases c) (simp add: recvCommMessage_def)

text \<open>A peer that stops reading keeps the worker in the send loop, whatever the number of retries.\<close>

lemma send_spins: "sendCommMessage msg (replicate n SRetry) = None"
proof -
  have "send_loop (p # ps) sent (replicate n SRetry) = None" for p ps sent by (induction n) auto
  then show ?thesis by (simp add: sendCommMessage_def)
qed


subsection \<open>The contract of a transport\<close>

text \<open>What the agent relies on: each job a transport's worker runs, a queued task or a poll, changes the
  agent through its public operations only and does not crash; a transport that is \<open>live\<close> also never
  gets stuck in one. Then the same holds of any sequence of jobs.\<close>

fun run_jobs :: "('job \<Rightarrow> 'st \<Rightarrow> nixlAgentData \<Rightarrow> ('st \<times> nixlAgentData) run) \<Rightarrow> 'job list \<Rightarrow> 'st \<Rightarrow> nixlAgentData \<Rightarrow> ('st \<times> nixlAgentData) run" where
  "run_jobs exec [] s a = Done (s, a)"
| "run_jobs exec (j # js) s a = run_bind (exec j s a) (\<lambda>(s, a). run_jobs exec js s a)"

locale metadata_transport =
  fixes env :: benv and live :: bool and exec :: "'job \<Rightarrow> 'st \<Rightarrow> nixlAgentData \<Rightarrow> ('st \<times> nixlAgentData) run"
  assumes exec_safe: "agent_inv env a \<Longrightarrow> outcome_ok env a snd live (exec j s a)"
begin

lemma run_jobs_safe: "agent_inv env a \<Longrightarrow> outcome_ok env a snd live (run_jobs exec js s a)"
proof (induction js arbitrary: s a)
  case Nil
  then show ?case by (simp add: serviced_refl)
next
  case (Cons j js)
  have "outcome_ok env a snd live (run_bind (exec j s a) (\<lambda>(s, a). run_jobs exec js s a))"
    by (rule outcome_ok_bind [OF exec_safe [OF Cons.prems]]) (use Cons.IH in \<open>auto dest: serviced_inv\<close>)
  then show ?case by simp
qed

lemma run_jobs_live: "agent_inv env a \<Longrightarrow> live \<Longrightarrow> \<exists>s' a'. run_jobs exec js s a = Done (s', a') \<and> agent_inv env a' \<and> (agent_step env)\<^sup>*\<^sup>* a a'"
  using run_jobs_safe [of a js s] by (cases "run_jobs exec js s a") (auto simp: serviced_def)

lemma run_jobs_agent: "agent_inv env a \<Longrightarrow> run_jobs exec js s a = Done (s', a') \<Longrightarrow> agent_inv env a' \<and> (agent_step env)\<^sup>*\<^sup>* a a'"
  using run_jobs_safe [of a js s] by (simp add: serviced_def)

end

datatype p2p_job = P2PSend connect_env send_task | P2PPoll "accepted list"

fun p2p_exec :: "benv \<Rightarrow> nixl_mem_t \<Rightarrow> p2p_job \<Rightarrow> socket_map \<Rightarrow> nixlAgentData \<Rightarrow> (socket_map \<times> nixlAgentData) run" where
  "p2p_exec env g (P2PSend ce task) socks a = run_bind (run_send ce task socks) (\<lambda>socks. Done (socks, a))"
| "p2p_exec env g (P2PPoll acs) socks a = serviceEvents env g acs socks a"

lemma p2p_exec_safe:
  assumes "agent_inv env a"
  shows "outcome_ok env a snd False (p2p_exec env g j socks a)"
proof (cases j)
  case (P2PSend ce task)
  obtain ip prt msg where t: "task = SendToPeer ip prt msg" by (cases task)
  have "run_send ce task socks \<noteq> Crash" by (auto simp: t sendToPeer_def Let_def split: option.splits)
  with assms P2PSend show ?thesis by (cases "run_send ce task socks") (simp_all add: serviced_refl)
next
  case (P2PPoll acs)
  with readIncoming_ok [OF assms] show ?thesis by (auto simp: serviceEvents_def intro: outcome_ok_weaken)
qed

interpretation p2p: metadata_transport env False "p2p_exec env g" for env g
  by unfold_locales (rule p2p_exec_safe)

end
