(* ===== verification/Nixl_TcpStore.thy ===== *)
theory Nixl_TcpStore
  imports Nixl_P2P
begin

text \<open>
  The TCPStore metadata transport: the wire client (\<open>src/core/nixl_tcpstore_client.cpp\<close>) and the
  backend that publishes and fetches metadata with it
  (\<open>src/core/nixl_tcpstore_metadata_backend.cpp\<close>). The store's server is not part of the
  repository; what its sockets answer is a script. Every loop has a deadline, so a script that is used up
  stands for the deadline passing. Exceptions are \<open>None\<close>.
\<close>

subsection \<open>Sockets with a deadline\<close>

datatype tsend = TSent nat | TSendLate | TSendIntr | TSendFail

datatype trecv = TBytes string | TRecvLate | TRecvIntr | TRecvFail

record tsock =
  t_in :: "trecv list"
  t_out :: "tsend list"
  t_sent :: string

text \<open>The results tell whether the transfer completed, with the bytes moved and the rest of the script.\<close>

function send_all :: "string \<Rightarrow> string \<Rightarrow> tsend list \<Rightarrow> bool \<times> string \<times> tsend list" where
  "send_all p sent evs =
     (if p = [] then (True, sent, evs)
      else case evs of
        [] \<Rightarrow> (False, sent, [])
      | TSendLate # evs \<Rightarrow> (False, sent, evs)
      | TSendIntr # evs \<Rightarrow> send_all p sent evs
      | TSendFail # evs \<Rightarrow> (False, sent, evs)
      | TSent n # evs \<Rightarrow>
          if n = 0 then (False, sent, evs) else send_all (drop n p) (sent @ take n p) evs)"
  by pat_completeness auto
termination
  by (relation "measure (\<lambda>(p, sent, evs). length evs)") auto

function recv_all :: "nat \<Rightarrow> string \<Rightarrow> trecv list \<Rightarrow> bool \<times> string \<times> trecv list" where
  "recv_all n got evs =
     (if n = 0 then (True, got, evs)
      else case evs of
        [] \<Rightarrow> (False, got, [])
      | TRecvLate # evs \<Rightarrow> (False, got, evs)
      | TRecvIntr # evs \<Rightarrow> recv_all n got evs
      | TRecvFail # evs \<Rightarrow> (False, got, evs)
      | TBytes bs # evs \<Rightarrow>
          if bs = [] then (False, got, evs)
          else if length bs > n then (True, got @ take n bs, TBytes (drop n bs) # evs)
          else recv_all (n - length bs) (got @ bs) evs)"
  by pat_completeness auto
termination
  by (relation "measure (\<lambda>(n, got, evs). length evs)") auto

declare send_all.simps [simp del] recv_all.simps [simp del]

subsection \<open>Connecting\<close>

record one_env =
  oe_late :: bool
  oe_socket :: bool
  oe_nonblock :: bool
  oe_connect :: int
  oe_in_progress :: bool
  oe_poll :: int
  oe_getsockopt :: int
  oe_error :: int
  oe_restore :: int
  oe_sock :: tsock

definition connectOne :: "one_env \<Rightarrow> tsock option" where
  "connectOne oe =
     (if \<not> oe_socket oe then None
      else if \<not> oe_nonblock oe then None
      else let rc = (if oe_connect oe < 0 \<and> oe_in_progress oe
                     then if oe_poll oe > 0 \<and> oe_getsockopt oe = 0 \<and> oe_error oe = 0 then 0 else -1
                     else oe_connect oe)
           in if rc \<noteq> 0 \<or> oe_restore oe \<noteq> 0 then None else Some (oe_sock oe))"

text \<open>What one call of \<open>connect\<close> meets: the addresses of the host, in order, and the time-out calls.\<close>

record dial =
  d_addrs :: "one_env list option"
  d_arm :: bool

fun connect_first :: "one_env list \<Rightarrow> tsock option" where
  "connect_first [] = None"
| "connect_first (oe # oes) =
     (if oe_late oe then None
      else case connectOne oe of Some s \<Rightarrow> Some s | None \<Rightarrow> connect_first oes)"

text \<open>The client. \<open>dials\<close> is what its next connects will meet, none left meaning that the host does not
  resolve; \<open>budgets\<close> lists the time-outs it connected with, latest first.\<close>

record tcp_client =
  store_fd :: "tsock option"
  bringUp :: bool
  connectTimeout :: nat
  opTimeout :: nat
  pid :: u32
  dials :: "dial list"
  budgets :: "nat list"

type_synonym 'a client_op = "tcp_client \<Rightarrow> 'a option \<times> tcp_client"

definition client_new :: "nat \<Rightarrow> nat \<Rightarrow> u32 \<Rightarrow> dial list \<Rightarrow> tcp_client" where
  "client_new ct ot p ds = \<lparr>store_fd = None, bringUp = True, connectTimeout = ct, opTimeout = ot, pid = p, dials = ds, budgets = []\<rparr>"

definition op_bind :: "'a client_op \<Rightarrow> ('a \<Rightarrow> 'b client_op) \<Rightarrow> 'b client_op" where
  "op_bind m f c = (case m c of (None, c) \<Rightarrow> (None, c) | (Some x, c) \<Rightarrow> f x c)"

definition op_return :: "'a \<Rightarrow> 'a client_op" where
  "op_return x c = (Some x, c)"

definition op_drop :: "'a client_op" where
  "op_drop c = (None, c\<lparr>store_fd := None\<rparr>)"

definition sendAll :: "string \<Rightarrow> unit client_op" where
  "sendAll p c =
     (if p = [] then (Some (), c)
      else case store_fd c of
        None \<Rightarrow> (None, c)
      | Some s \<Rightarrow>
          let (ok, sent, evs) = send_all p [] (t_out s)
          in if ok then (Some (), c\<lparr>store_fd := Some (s\<lparr>t_out := evs, t_sent := t_sent s @ sent\<rparr>)\<rparr>) else (None, c\<lparr>store_fd := None\<rparr>))"

definition recvAll :: "nat \<Rightarrow> string client_op" where
  "recvAll n c =
     (if n = 0 then (Some [], c)
      else case store_fd c of
        None \<Rightarrow> (None, c)
      | Some s \<Rightarrow>
          let (ok, got, evs) = recv_all n [] (t_in s)
          in if ok then (Some got, c\<lparr>store_fd := Some (s\<lparr>t_in := evs\<rparr>)\<rparr>) else (None, c\<lparr>store_fd := None\<rparr>))"

subsection \<open>The wire protocol\<close>

definition validation_magic :: u32 where
  "validation_magic = 0x3C85F7CE"

definition max_blob_bytes :: nat where
  "max_blob_bytes = 2 ^ 30"

datatype query_type_t = VALIDATE | SET | GET | CHECK | DELETE_KEY | PING

fun query_code :: "query_type_t \<Rightarrow> char" where
  "query_code VALIDATE = char_of (0 :: nat)"
| "query_code SET = char_of (1 :: nat)"
| "query_code GET = char_of (3 :: nat)"
| "query_code CHECK = char_of (5 :: nat)"
| "query_code DELETE_KEY = char_of (8 :: nat)"
| "query_code PING = char_of (13 :: nat)"

definition check_ready :: char where
  "check_ready = char_of (0 :: nat)"

definition appendString :: "string \<Rightarrow> string" where
  "appendString s = u64_bytes (size_of s) @ s"

definition full_key :: "string \<Rightarrow> string" where
  "full_key key = ''/'' @ key"

definition handshake :: "unit client_op" where
  "handshake c =
     op_bind (sendAll (query_code VALIDATE # u32_bytes validation_magic)) (\<lambda>_.
     op_bind (sendAll (query_code PING # u32_bytes (pid c))) (\<lambda>_.
     op_bind (recvAll 4) (\<lambda>echoed.
       if bytes_u32 echoed \<noteq> pid c then op_drop else op_return ()))) c"

definition connect :: "nat \<Rightarrow> unit client_op" where
  "connect timeout c =
     (let d = (case dials c of [] \<Rightarrow> \<lparr>d_addrs = None, d_arm = False\<rparr> | d # _ \<Rightarrow> d);
          c = c\<lparr>dials := tl (dials c), budgets := timeout # budgets c\<rparr>
      in case d_addrs d of
           None \<Rightarrow> (None, c)
         | Some addrs \<Rightarrow>
             (case connect_first addrs of
                None \<Rightarrow> (None, c)
              | Some s \<Rightarrow> if \<not> d_arm d then (None, c) else handshake (c\<lparr>store_fd := Some s\<rparr>)))"

definition ensureConnected :: "unit client_op" where
  "ensureConnected c =
     (if store_fd c \<noteq> None then (Some (), c)
      else connect (if bringUp c then connectTimeout c else opTimeout c) (c\<lparr>bringUp := False\<rparr>))"

definition recvBlob :: "string client_op" where
  "recvBlob =
     op_bind (recvAll 8) (\<lambda>hdr.
       if unat (bytes_u64 hdr) > max_blob_bytes then op_drop else recvAll (unat (bytes_u64 hdr)))"

definition set_request :: "string \<Rightarrow> string \<Rightarrow> string" where
  "set_request key val = query_code SET # appendString (full_key key) @ appendString val"

definition check_request :: "string \<Rightarrow> string" where
  "check_request key = query_code CHECK # u64_bytes 1 @ appendString (full_key key)"

definition get_request :: "string \<Rightarrow> string" where
  "get_request key = query_code GET # appendString (full_key key)"

definition delete_request :: "string \<Rightarrow> string" where
  "delete_request key = query_code DELETE_KEY # appendString (full_key key)"

definition client_set :: "string \<Rightarrow> string \<Rightarrow> unit client_op" where
  "client_set key val = op_bind ensureConnected (\<lambda>_. sendAll (set_request key val))"

definition client_get :: "string \<Rightarrow> string option client_op" where
  "client_get key =
     op_bind ensureConnected (\<lambda>_.
     op_bind (sendAll (check_request key)) (\<lambda>_.
     op_bind (recvAll 1) (\<lambda>response.
       if response \<noteq> [check_ready] then op_return None
       else op_bind (sendAll (get_request key)) (\<lambda>_.
            op_bind recvBlob (\<lambda>val. op_return (if val = [] then None else Some val))))))"

definition deleteKey :: "string \<Rightarrow> bool client_op" where
  "deleteKey key =
     op_bind ensureConnected (\<lambda>_.
     op_bind (sendAll (delete_request key)) (\<lambda>_.
     op_bind (recvAll 8) (\<lambda>num_deleted. op_return (bytes_u64 num_deleted = 1))))"

subsection \<open>The backend\<close>

definition default_metadata_label :: string where
  "default_metadata_label = ''metadata''"

definition makeKey :: "string \<Rightarrow> string \<Rightarrow> string \<Rightarrow> string" where
  "makeKey label src dst = ''nixl/agents'' @ ''/'' @ label @ ''/'' @ src @ ''/'' @ dst"

text \<open>\<open>std::from_chars\<close> for an unsigned number that has to take up the whole text: a digit sequence. It
  fails above 32 bits, which is above every port anyway.\<close>

fun parse_digits :: "nat \<Rightarrow> string \<Rightarrow> nat option" where
  "parse_digits acc [] = Some acc"
| "parse_digits acc (c # cs) =
     (if CHR ''0'' \<le> c \<and> c \<le> CHR ''9'' then parse_digits (10 * acc + (of_char c - 48)) cs else None)"

text \<open>The endpoint, split at its last colon; \<open>None\<close> is the thrown error.\<close>

definition parse_endpoint :: "string \<Rightarrow> (string \<times> nat) option" where
  "parse_endpoint ep =
     (let port_str = rev (takeWhile (\<lambda>c. c \<noteq> CHR '':'') (rev ep));
          pos = length ep - length port_str - 1
      in if CHR '':'' \<notin> set ep \<or> pos = 0 \<or> pos + 1 \<ge> length ep then None
         else case parse_digits 0 port_str of
           None \<Rightarrow> None
         | Some prt \<Rightarrow> if prt = 0 \<or> prt > 65535 then None else Some (take pos ep, prt))"

record tcpstore =
  ts_client :: tcp_client
  publishedKeys :: "string list"
  pendingFetches :: "(string \<times> (string \<times> nat)) list"
  fetchTimeout :: nat

definition publishKey :: "string \<Rightarrow> blob \<Rightarrow> tcpstore \<Rightarrow> nixl_status_t \<times> tcpstore" where
  "publishKey key blob s =
     (case client_set key blob (ts_client s) of
        (None, c) \<Rightarrow> (NIXL_ERR_BACKEND, s\<lparr>ts_client := c\<rparr>)
      | (Some _, c) \<Rightarrow> (NIXL_SUCCESS, s\<lparr>ts_client := c, publishedKeys := List.insert key (publishedKeys s)\<rparr>))"

text \<open>One attempt: false if it has to be repeated. A blob that does not load and one that names another
  agent than the one asked for settle the fetch like a good one.\<close>

definition tryFetch :: "benv \<Rightarrow> nixl_mem_t \<Rightarrow> string \<Rightarrow> string \<Rightarrow> tcpstore \<Rightarrow> nixlAgentData \<Rightarrow> (bool \<times> tcpstore \<times> nixlAgentData) run" where
  "tryFetch env g remote_name key s a =
     (case client_get key (ts_client s) of
        (None, c) \<Rightarrow> Done (False, s\<lparr>ts_client := c\<rparr>, a)
      | (Some None, c) \<Rightarrow> Done (False, s\<lparr>ts_client := c\<rparr>, a)
      | (Some (Some blob), c) \<Rightarrow>
          run_bind (run_option (loadRemoteMD env g blob a)) (\<lambda>(ret, loaded_name, a). Done (True, s\<lparr>ts_client := c\<rparr>, a)))"

text \<open>A pass over the pending fetches at time \<open>now\<close>; \<open>late\<close> tells for each key whether the probe budget
  is used up when the pass reaches it.\<close>

fun service_pending :: "benv \<Rightarrow> nixl_mem_t \<Rightarrow> nat \<Rightarrow> (string \<Rightarrow> bool) \<Rightarrow> (string \<times> (string \<times> nat)) list \<Rightarrow> tcpstore \<Rightarrow> nixlAgentData \<Rightarrow>
    ((string \<times> (string \<times> nat)) list \<times> tcpstore \<times> nixlAgentData) run" where
  "service_pending env g now late [] s a = Done ([], s, a)"
| "service_pending env g now late ((key, (remote_name, deadline)) # pend) s a =
     (if now \<ge> deadline then service_pending env g now late pend s a
      else run_bind (if late key then Done (False, s, a) else tryFetch env g remote_name key s a) (\<lambda>(settled, s, a).
           run_bind (service_pending env g now late pend s a) (\<lambda>(pend, s, a).
             Done (if settled then pend else (key, (remote_name, deadline)) # pend, s, a))))"

definition store_service :: "benv \<Rightarrow> nixl_mem_t \<Rightarrow> nat \<Rightarrow> (string \<Rightarrow> bool) \<Rightarrow> tcpstore \<Rightarrow> nixlAgentData \<Rightarrow> (tcpstore \<times> nixlAgentData) run" where
  "store_service env g now late s a =
     run_bind (service_pending env g now late (pendingFetches s) s a) (\<lambda>(pend, s, a). Done (s\<lparr>pendingFetches := pend\<rparr>, a))"

fun delete_each :: "string list \<Rightarrow> unit client_op" where
  "delete_each [] = op_return ()"
| "delete_each (key # keys) = op_bind (deleteKey key) (\<lambda>_. delete_each keys)"

text \<open>The tasks handed to the worker: the calls queue them, the thread runs them and, between them, the
  poll. An exception in a task ends the task.\<close>

definition fetch_task :: "benv \<Rightarrow> nixl_mem_t \<Rightarrow> string \<Rightarrow> string \<Rightarrow> nat \<Rightarrow> tcpstore \<Rightarrow> nixlAgentData \<Rightarrow> (tcpstore \<times> nixlAgentData) run" where
  "fetch_task env g remote_name key now s a =
     run_bind (tryFetch env g remote_name key s a) (\<lambda>(settled, s, a).
       Done (if settled then s
             else s\<lparr>pendingFetches := um_update key (remote_name, now + fetchTimeout s) (pendingFetches s)\<rparr>, a))"

definition delete_task :: "tcpstore \<Rightarrow> tcpstore" where
  "delete_task s =
     (case delete_each (publishedKeys s) (ts_client s) of
        (None, c) \<Rightarrow> s\<lparr>ts_client := c\<rparr>
      | (Some _, c) \<Rightarrow> s\<lparr>ts_client := c, publishedKeys := []\<rparr>)"

definition connect_task :: "tcpstore \<Rightarrow> tcpstore" where
  "connect_task s = s\<lparr>ts_client := snd (ensureConnected (ts_client s))\<rparr>"

datatype store_job = StoreConnect | StorePublish string blob | StoreFetch string string nat | StoreDelete | StorePoll nat "string \<Rightarrow> bool"

fun store_exec :: "benv \<Rightarrow> nixl_mem_t \<Rightarrow> store_job \<Rightarrow> tcpstore \<Rightarrow> nixlAgentData \<Rightarrow> (tcpstore \<times> nixlAgentData) run" where
  "store_exec env g StoreConnect s a = Done (connect_task s, a)"
| "store_exec env g (StorePublish key blob) s a = Done (snd (publishKey key blob s), a)"
| "store_exec env g (StoreFetch remote_name key now) s a = fetch_task env g remote_name key now s a"
| "store_exec env g StoreDelete s a = Done (delete_task s, a)"
| "store_exec env g (StorePoll now late) s a = store_service env g now late s a"

definition store_sendLocal :: "benv \<Rightarrow> nixlAgentData \<Rightarrow> nixl_status_t \<times> store_job option" where
  "store_sendLocal env a =
     (let (ret, blob) = getLocalMD env a
      in if is_err ret then (ret, None)
         else (NIXL_SUCCESS, Some (StorePublish (makeKey default_metadata_label (agName a) nixl_null_agent) blob)))"

definition has_label :: "nixl_opt_args_t option \<Rightarrow> bool" where
  "has_label extra \<longleftrightarrow> (case extra of None \<Rightarrow> False | Some x \<Rightarrow> metadataLabel x \<noteq> [])"

definition label_of :: "nixl_opt_args_t option \<Rightarrow> string" where
  "label_of extra = (if has_label extra then metadataLabel (the extra) else default_metadata_label)"

definition store_sendLocalPartial :: "benv \<Rightarrow> nixl_reg_dlist_t \<Rightarrow> nixl_opt_args_t option \<Rightarrow> nixlAgentData \<Rightarrow> nixl_status_t \<times> store_job option" where
  "store_sendLocalPartial env ds extra a =
     (if \<not> has_label extra then (NIXL_ERR_INVALID_PARAM, None)
      else let (ret, blob) = getLocalPartialMD env ds extra a
           in if is_err ret then (ret, None)
              else (NIXL_SUCCESS, Some (StorePublish (makeKey (metadataLabel (the extra)) (agName a) nixl_null_agent) blob)))"

text \<open>\<open>now\<close> is the time at which the worker runs the fetch.\<close>

definition store_fetchRemote :: "string \<Rightarrow> nixl_opt_args_t option \<Rightarrow> nat \<Rightarrow> nixl_status_t \<times> store_job option" where
  "store_fetchRemote remote_name extra now =
     (NIXL_SUCCESS, Some (StoreFetch remote_name (makeKey (label_of extra) remote_name nixl_null_agent) now))"

definition store_invalidateLocal :: "nixl_status_t \<times> store_job option" where
  "store_invalidateLocal = (NIXL_SUCCESS, Some StoreDelete)"

subsection \<open>Framing\<close>

fun t_event_bytes :: "trecv \<Rightarrow> string" where
  "t_event_bytes (TBytes bs) = bs"
| "t_event_bytes _ = []"

definition t_bytes :: "trecv list \<Rightarrow> string" where
  "t_bytes evs = concat (map t_event_bytes evs)"

lemma t_bytes_simps [simp]: "t_bytes [] = []" "t_bytes (ev # evs) = t_event_bytes ev @ t_bytes evs"
  by (simp_all add: t_bytes_def)

lemma send_all_complete: "send_all p sent evs = (True, out, evs') \<Longrightarrow> out = sent @ p"
proof (induction p sent evs rule: send_all.induct)
  case (1 p sent evs)
  note call = 1(3) [unfolded send_all.simps [of p sent evs]]
  show ?case
  proof (cases "p = [] \<or> evs = []")
    case True
    with call show ?thesis by (auto split: if_splits)
  next
    case False
    then obtain ev es where e: "evs = ev # es" "p \<noteq> []" by (cases evs) auto
    with call 1(1) 1(2) show ?thesis by (cases ev) (auto split: if_splits)
  qed
qed

lemma recv_all_complete:
  "recv_all n got evs = (True, out, evs') \<Longrightarrow> \<exists>d. out = got @ d \<and> length d = n \<and> t_bytes evs = d @ t_bytes evs'"
proof (induction n got evs rule: recv_all.induct)
  case (1 n got evs)
  note call = 1(3) [unfolded recv_all.simps [of n got evs]]
  show ?case
  proof (cases "n = 0 \<or> evs = []")
    case True
    with call show ?thesis by (auto split: if_splits)
  next
    case False
    then obtain ev es where e: "evs = ev # es" "n \<noteq> 0" by (cases evs) auto
    show ?thesis
    proof (cases ev)
      case (TBytes bs)
      show ?thesis
      proof (cases "length bs > n")
        case True
        then show ?thesis using call e TBytes by (auto split: if_splits)
      next
        case False
        then have "recv_all (n - length bs) (got @ bs) es = (True, out, evs')" "bs \<noteq> []" using call e TBytes by (auto split: if_splits)
        with 1(1) [OF e(2,1) TBytes _ False] obtain d where "out = (got @ bs) @ d" "length d = n - length bs" "t_bytes es = d @ t_bytes evs'"
          by blast
        then show ?thesis using False e TBytes by (intro exI [of _ "bs @ d"]) auto
      qed
    qed (use call e 1(2) in auto)
  qed
qed

text \<open>Between two states of a client on one connection: the requests it wrote and the response bytes it
  consumed.\<close>

definition exchanged :: "tcp_client \<Rightarrow> string \<Rightarrow> string \<Rightarrow> tcp_client \<Rightarrow> bool" where
  "exchanged c req resp c' \<longleftrightarrow>
     (\<exists>s s'. store_fd c = Some s \<and> store_fd c' = Some s' \<and> t_sent s' = t_sent s @ req \<and> t_bytes (t_in s) = resp @ t_bytes (t_in s'))"

lemma exchanged_refl: "store_fd c = Some s \<Longrightarrow> exchanged c [] [] c"
  by (simp add: exchanged_def)

lemma exchanged_trans: "exchanged c r p c1 \<Longrightarrow> exchanged c1 r' p' c2 \<Longrightarrow> exchanged c (r @ r') (p @ p') c2"
  by (auto simp: exchanged_def)

lemma exchanged_fd: "exchanged c r p c' \<Longrightarrow> \<exists>s. store_fd c' = Some s"
  by (auto simp: exchanged_def)

lemma sendAll_exchanged:
  assumes "sendAll p c = (Some u, c')" and "store_fd c = Some s"
  shows "exchanged c p [] c'"
  using assms send_all_complete [of p "[]" "t_out s"]
  by (auto simp: sendAll_def exchanged_def split: if_splits prod.splits)

lemma recvAll_exchanged:
  assumes "recvAll n c = (Some got, c')" and "store_fd c = Some s"
  shows "exchanged c [] got c' \<and> length got = n"
  using assms recv_all_complete [of n "[]" "t_in s"]
  by (auto simp: recvAll_def exchanged_def split: if_splits prod.splits)

lemma op_bind_Some:
  assumes "op_bind m f c = (Some y, c')"
  obtains x c1 where "m c = (Some x, c1)" "f x c1 = (Some y, c')"
  using assms by (auto simp: op_bind_def split: prod.splits option.splits)

lemma u64_bytes_read: "length bs = 8 \<Longrightarrow> u64_bytes (bytes_u64 bs) = bs"
  using le_bytes_le_val [of bs] le_val_bound [of bs] by (simp add: u64_bytes_def bytes_u64_def unat_of_nat)

lemma recvBlob_exchanged:
  assumes "recvBlob c = (Some val, c')" and "store_fd c = Some s"
  shows "exchanged c [] (u64_bytes (size_of val) @ val) c' \<and> length val \<le> max_blob_bytes"
proof -
  obtain hdr c1 where h: "recvAll 8 c = (Some hdr, c1)"
    and b: "(if unat (bytes_u64 hdr) > max_blob_bytes then op_drop else recvAll (unat (bytes_u64 hdr))) c1 = (Some val, c')"
    using assms(1) unfolding recvBlob_def by (rule op_bind_Some)
  note e1 = recvAll_exchanged [OF h assms(2)]
  obtain s1 where s1: "store_fd c1 = Some s1" using e1 exchanged_fd by blast
  have le: "\<not> unat (bytes_u64 hdr) > max_blob_bytes" using b by (auto simp: op_drop_def)
  then have r: "recvAll (unat (bytes_u64 hdr)) c1 = (Some val, c')" using b by simp
  note e2 = recvAll_exchanged [OF r s1]
  have "u64_bytes (size_of val) = hdr" using e1 e2 u64_bytes_read [of hdr] by (simp add: size_of_def)
  then show ?thesis using exchanged_trans [OF conjunct1 [OF e1] conjunct1 [OF e2]] e2 le by simp
qed

text \<open>An operation that throws has closed its connection.\<close>

definition fail_closed :: "'a client_op \<Rightarrow> bool" where
  "fail_closed m \<longleftrightarrow> (\<forall>c c'. m c = (None, c') \<longrightarrow> store_fd c' = None)"

lemma fail_closed_bind: "fail_closed m \<Longrightarrow> (\<And>x. fail_closed (f x)) \<Longrightarrow> fail_closed (op_bind m f)"
  by (auto simp: fail_closed_def op_bind_def split: prod.splits option.splits)

lemma fail_closed_basic: "fail_closed (op_return x)" "fail_closed op_drop" "fail_closed (sendAll p)" "fail_closed (recvAll n)"
  by (auto simp: fail_closed_def op_return_def op_drop_def sendAll_def recvAll_def split: if_splits option.splits prod.splits)

lemma fail_closed_handshake: "handshake c = (None, c') \<Longrightarrow> store_fd c' = None"
proof -
  let ?h = "op_bind (sendAll (query_code VALIDATE # u32_bytes validation_magic)) (\<lambda>_.
     op_bind (sendAll (query_code PING # u32_bytes (pid c))) (\<lambda>_.
     op_bind (recvAll 4) (\<lambda>echoed. if bytes_u32 echoed \<noteq> pid c then op_drop else op_return ())))"
  have "fail_closed ?h" by (intro fail_closed_bind) (auto simp: fail_closed_basic)
  then show "handshake c = (None, c') \<Longrightarrow> store_fd c' = None" by (simp add: handshake_def fail_closed_def)
qed

lemma fail_closed_ensure: "fail_closed ensureConnected"
  by (auto simp: fail_closed_def ensureConnected_def connect_def Let_def fail_closed_handshake split: if_splits option.splits list.splits)

lemma fail_closed_ops: "fail_closed (client_set key val)" "fail_closed (client_get key)" "fail_closed (deleteKey key)"
  unfolding client_set_def client_get_def deleteKey_def recvBlob_def
  by (intro fail_closed_bind fail_closed_ensure; auto intro!: fail_closed_bind simp: fail_closed_basic)+

lemma ensure_connected: "store_fd c = Some s \<Longrightarrow> ensureConnected c = (Some (), c)"
  by (simp add: ensureConnected_def)

lemma client_get_framed:
  assumes "client_get key c = (Some r, c')" and "store_fd c = Some s"
  shows "(r = None \<and> (\<exists>b. b \<noteq> check_ready \<and> exchanged c (check_request key) [b] c')) \<or>
    (\<exists>val. r = (if val = [] then None else Some val) \<and>
      exchanged c (check_request key @ get_request key) (check_ready # u64_bytes (size_of val) @ val) c')"
proof -
  obtain u c1 where 1: "sendAll (check_request key) c = (Some u, c1)" and r1: "op_bind (recvAll 1) (\<lambda>response.
       if response \<noteq> [check_ready] then op_return None
       else op_bind (sendAll (get_request key)) (\<lambda>_. op_bind recvBlob (\<lambda>val. op_return (if val = [] then None else Some val)))) c1 = (Some r, c')"
    using assms(1) unfolding client_get_def op_bind_def [of ensureConnected] ensure_connected [OF assms(2)]
    by (auto elim: op_bind_Some)
  note e1 = sendAll_exchanged [OF 1 assms(2)]
  obtain s1 where s1: "store_fd c1 = Some s1" using exchanged_fd [OF e1] by blast
  obtain resp c2 where 2: "recvAll 1 c1 = (Some resp, c2)" and r2: "(if resp \<noteq> [check_ready] then op_return None
       else op_bind (sendAll (get_request key)) (\<lambda>_. op_bind recvBlob (\<lambda>val. op_return (if val = [] then None else Some val)))) c2 = (Some r, c')"
    using r1 by (rule op_bind_Some)
  have e2: "exchanged c (check_request key) resp c2" and l: "length resp = 1"
    using recvAll_exchanged [OF 2 s1] exchanged_trans [OF e1, of "[]" resp c2] by simp_all
  obtain s2 where s2: "store_fd c2 = Some s2" using exchanged_fd [OF e2] by blast
  show ?thesis
  proof (cases "resp = [check_ready]")
    case False
    then have "r = None" "c' = c2" using r2 by (auto simp: op_return_def)
    moreover obtain b where "resp = [b]" using l by (auto simp: length_Suc_conv)
    ultimately show ?thesis using e2 False by auto
  next
    case True
    then have r3: "op_bind (sendAll (get_request key)) (\<lambda>_. op_bind recvBlob (\<lambda>val. op_return (if val = [] then None else Some val))) c2 = (Some r, c')"
      using r2 by simp
    obtain u3 c3 where 3: "sendAll (get_request key) c2 = (Some u3, c3)"
      and r4: "op_bind recvBlob (\<lambda>val. op_return (if val = [] then None else Some val)) c3 = (Some r, c')"
      using r3 by (rule op_bind_Some)
    obtain val c4 where 4: "recvBlob c3 = (Some val, c4)" and r: "op_return (if val = [] then None else Some val) c4 = (Some r, c')"
      using r4 by (rule op_bind_Some)
    note e3 = sendAll_exchanged [OF 3 s2]
    obtain s3 where s3: "store_fd c3 = Some s3" using exchanged_fd [OF e3] by blast
    have "exchanged c ((check_request key @ get_request key) @ []) ((resp @ []) @ u64_bytes (size_of val) @ val) c4"
      using exchanged_trans [OF exchanged_trans [OF e2 e3] conjunct1 [OF recvBlob_exchanged [OF 4 s3]]] .
    moreover have "r = (if val = [] then None else Some val)" "c' = c4" using r by (simp_all add: op_return_def)
    ultimately have "r = (if val = [] then None else Some val) \<and>
      exchanged c (check_request key @ get_request key) (check_ready # u64_bytes (size_of val) @ val) c'" using True by simp
    then show ?thesis by blast
  qed
qed

lemma client_set_framed: "client_set key val c = (Some u, c') \<Longrightarrow> store_fd c = Some s \<Longrightarrow> exchanged c (set_request key val) [] c'"
  by (simp add: client_set_def op_bind_def ensure_connected sendAll_exchanged)

lemma deleteKey_framed:
  assumes "deleteKey key c = (Some r, c')" and "store_fd c = Some s"
  shows "\<exists>n. (r \<longleftrightarrow> n = 1) \<and> exchanged c (delete_request key) (u64_bytes n) c'"
proof -
  obtain u c1 num where 1: "sendAll (delete_request key) c = (Some u, c1)" and 2: "recvAll 8 c1 = (Some num, c')" and r: "r \<longleftrightarrow> bytes_u64 num = 1"
    using assms(1) unfolding deleteKey_def op_bind_def [of ensureConnected] ensure_connected [OF assms(2)]
    by (auto elim!: op_bind_Some simp: op_return_def)
  note e1 = sendAll_exchanged [OF 1 assms(2)]
  obtain s1 where s1: "store_fd c1 = Some s1" using exchanged_fd [OF e1] by blast
  have "exchanged c (delete_request key) num c'" "length num = 8"
    using exchanged_trans [OF e1 conjunct1 [OF recvAll_exchanged [OF 2 s1]]] recvAll_exchanged [OF 2 s1] by auto
  then show ?thesis by (intro exI [of _ "bytes_u64 num"]) (simp add: r u64_bytes_read)
qed

text \<open>C16: The store protocol never loses its framing. An operation that throws has closed the connection,
  whatever state it started in. On an open connection, an operation that returns has written
  exactly its requests and consumed exactly the bytes of one whole response to each: nothing for a
  set; one byte, and for a present key the length and the value that it returns, for a get; eight
  bytes for a delete. So the next operation on the connection starts at a message boundary.\<close>

theorem store_protocol_framed:
  shows "(client_set key val c = (None, c1) \<or> client_get key c = (None, c1) \<or> deleteKey key c = (None, c1) \<longrightarrow> store_fd c1 = None) \<and>
    (store_fd c \<noteq> None \<longrightarrow>
      (client_set key val c = (Some u, c2) \<longrightarrow> exchanged c (set_request key val) [] c2) \<and>
      (client_get key c = (Some r, c3) \<longrightarrow>
        (r = None \<and> (\<exists>b. b \<noteq> check_ready \<and> exchanged c (check_request key) [b] c3)) \<or>
        (\<exists>v. r = (if v = [] then None else Some v) \<and>
          exchanged c (check_request key @ get_request key) (check_ready # u64_bytes (size_of v) @ v) c3)) \<and>
      (deleteKey key c = (Some d, c4) \<longrightarrow> (\<exists>n. (d \<longleftrightarrow> n = 1) \<and> exchanged c (delete_request key) (u64_bytes n) c4)))"
proof (rule conjI)
  show "client_set key val c = (None, c1) \<or> client_get key c = (None, c1) \<or> deleteKey key c = (None, c1) \<longrightarrow> store_fd c1 = None"
    using fail_closed_ops(1) [of key val] fail_closed_ops(2,3) [of key] unfolding fail_closed_def by metis
qed (cases "store_fd c", simp, use client_set_framed [of key val c u c2] client_get_framed [of key c r c3] deleteKey_framed [of key c d c4] in simp)

definition ex_sock :: "trecv list \<Rightarrow> tsock" where
  "ex_sock evs = \<lparr>t_in = evs, t_out = [TSent 5, TSendIntr, TSent 1000, TSent 1000], t_sent = []\<rparr>"

definition ex_client :: "tsock option \<Rightarrow> tcp_client" where
  "ex_client s = \<lparr>store_fd = s, bringUp = False, connectTimeout = 30000, opTimeout = 5000, pid = 7, dials = [], budgets = []\<rparr>"

text \<open>A store that has the value \<open>hi\<close>, over a connection that delivers the answer in two pieces.\<close>

lemma ex_get:
  assumes s: "s = ex_sock [TBytes [check_ready], TRecvIntr, TBytes (u64_bytes 2 @ ''h''), TBytes ''i'']"
  shows "\<exists>c'. client_get ''k'' (ex_client (Some s)) = (Some (Some ''hi''), c')"
proof -
  have l: "length (check_request ''k'') = 19" "length (get_request ''k'') = 11"
    by (simp_all add: check_request_def get_request_def appendString_def full_key_def)
  then have n: "check_request ''k'' \<noteq> []" "get_request ''k'' \<noteq> []" by auto
  show ?thesis
    by (simp add: s client_get_def op_bind_def ensure_connected ex_client_def sendAll_def recvAll_def recvBlob_def ex_sock_def n l
        send_all.simps recv_all.simps op_return_def max_blob_bytes_def)
qed

theorem store_protocol_framed_witness:
  "\<exists>s c'. client_get ''k'' (ex_client (Some s)) = (Some (Some ''hi''), c') \<and>
     exchanged (ex_client (Some s)) (check_request ''k'' @ get_request ''k'') (check_ready # u64_bytes (size_of ''hi'') @ ''hi'') c'"
proof -
  define s where "s = ex_sock [TBytes [check_ready], TRecvIntr, TBytes (u64_bytes 2 @ ''h''), TBytes ''i'']"
  obtain c' where g: "client_get ''k'' (ex_client (Some s)) = (Some (Some ''hi''), c')" using ex_get [OF s_def] by blast
  have "store_fd (ex_client (Some s)) \<noteq> None" by (simp add: ex_client_def)
  with store_protocol_framed [where key = "''k''" and c = "ex_client (Some s)" and r = "Some ''hi''" and ?c3.0 = c'] g
  obtain v where "Some ''hi'' = (if v = [] then None else Some v)"
    "exchanged (ex_client (Some s)) (check_request ''k'' @ get_request ''k'') (check_ready # u64_bytes (size_of v) @ v) c'"
    by blast
  with g show ?thesis by (metis option.distinct(1) option.inject)
qed

subsection \<open>Time budgets\<close>

text \<open>The bring-up budget is spent at most once, on the first connect; every later one has the budget of a
  single operation.\<close>

definition budget_ok :: "tcp_client \<Rightarrow> bool" where
  "budget_ok c \<longleftrightarrow>
     (if bringUp c then budgets c = [] else budgets c \<noteq> [] \<and> last (budgets c) = connectTimeout c \<and> set (butlast (budgets c)) \<subseteq> {opTimeout c})"

definition keeps_budget :: "'a client_op \<Rightarrow> bool" where
  "keeps_budget m \<longleftrightarrow> (\<forall>c. budget_ok c \<longrightarrow> budget_ok (snd (m c)))"

lemma budget_ok_fd [simp]: "budget_ok (c\<lparr>store_fd := s\<rparr>) \<longleftrightarrow> budget_ok c" "budget_ok (c\<lparr>dials := ds\<rparr>) \<longleftrightarrow> budget_ok c"
  by (simp_all add: budget_ok_def)

lemma keeps_budget_bind: "keeps_budget m \<Longrightarrow> (\<And>x. keeps_budget (f x)) \<Longrightarrow> keeps_budget (op_bind m f)"
  unfolding keeps_budget_def op_bind_def by (fastforce split: prod.splits option.splits)

lemma keeps_budget_basic: "keeps_budget (op_return x)" "keeps_budget op_drop" "keeps_budget (sendAll p)" "keeps_budget (recvAll n)"
  by (auto simp: keeps_budget_def op_return_def op_drop_def sendAll_def recvAll_def split: option.splits prod.splits)

lemma keeps_budget_handshake: "budget_ok c \<Longrightarrow> budget_ok (snd (handshake c))"
proof -
  let ?h = "op_bind (sendAll (query_code VALIDATE # u32_bytes validation_magic)) (\<lambda>_.
     op_bind (sendAll (query_code PING # u32_bytes (pid c))) (\<lambda>_.
     op_bind (recvAll 4) (\<lambda>echoed. if bytes_u32 echoed \<noteq> pid c then op_drop else op_return ())))"
  have "keeps_budget ?h" by (intro keeps_budget_bind) (auto simp: keeps_budget_basic)
  then show "budget_ok c \<Longrightarrow> budget_ok (snd (handshake c))" by (simp add: handshake_def keeps_budget_def)
qed

lemma budget_ok_connecting:
  "budget_ok c \<Longrightarrow> budget_ok (c\<lparr>bringUp := False, dials := ds, budgets := (if bringUp c then connectTimeout c else opTimeout c) # budgets c\<rparr>)"
  by (auto simp: budget_ok_def)

lemma keeps_budget_ensure: "keeps_budget ensureConnected"
proof -
  have "budget_ok (snd (connect (if bringUp c then connectTimeout c else opTimeout c) (c\<lparr>bringUp := False\<rparr>)))" if "budget_ok c" for c
    using budget_ok_connecting [OF that]
    by (auto simp: connect_def Let_def split: option.splits list.splits intro!: keeps_budget_handshake)
  then show ?thesis by (simp add: keeps_budget_def ensureConnected_def)
qed

lemma keeps_budget_ops: "keeps_budget (client_set key val)" "keeps_budget (client_get key)" "keeps_budget (deleteKey key)"
  unfolding client_set_def client_get_def deleteKey_def recvBlob_def
  by (intro keeps_budget_bind keeps_budget_ensure; auto intro!: keeps_budget_bind simp: keeps_budget_basic)+

subsection \<open>Safety and progress of the worker's jobs\<close>

lemma keeps_budget_delete: "keeps_budget (delete_each keys)"
  by (induction keys) (simp_all add: keeps_budget_basic keeps_budget_bind keeps_budget_ops)

lemma tryFetch_client:
  "tryFetch env g name key s a = Done (d, s', a') \<Longrightarrow> ts_client s' = snd (client_get key (ts_client s))"
  by (cases "client_get key (ts_client s)")
    (auto simp: tryFetch_def split: option.splits elim!: run_bind_Done run_option_Done)

lemma tryFetch_ok: "agent_inv env a \<Longrightarrow> outcome_ok env a (\<lambda>(d, s, a). a) True (tryFetch env g name key s a)"
proof -
  assume inv: "agent_inv env a"
  obtain r c where r: "client_get key (ts_client s) = (r, c)" by fastforce
  show ?thesis
  proof (cases "\<exists>blob. r = Some (Some blob)")
    case True
    then obtain blob where b: "r = Some (Some blob)" by blast
    obtain st nm a' where "loadRemoteMD env g blob a = Some (st, nm, a')" "serviced env a a'" using load_serviced [OF inv] .
    with r b show ?thesis by (simp add: tryFetch_def)
  next
    case False
    then show ?thesis using r inv by (cases r) (auto simp: tryFetch_def serviced_refl split: option.splits)
  qed
qed

lemma service_pending_ok:
  "agent_inv env a \<Longrightarrow> outcome_ok env a (\<lambda>(p, s, a). a) True (service_pending env g now late pend s a)"
proof (induction pend arbitrary: s a)
  case Nil
  then show ?case by (simp add: serviced_refl)
next
  case (Cons p pend)
  obtain key name dl where p: "p = (key, (name, dl))" by (metis prod.exhaust)
  let ?first = "if late key then Done (False, s, a) else tryFetch env g name key s a"
  let ?rest = "\<lambda>(settled, s, a). run_bind (service_pending env g now late pend s a) (\<lambda>(pend, s, a).
             Done (if settled then pend else (key, (name, dl)) # pend, s, a))"
  have rest: "outcome_ok env b (\<lambda>(p, s, a). a) True (?rest (d, s', b))" if "agent_inv env b" for d s' b
    using outcome_ok_bind [OF Cons.IH [OF that], where f = "\<lambda>(pend, s, a). Done (if d then pend else (key, (name, dl)) # pend, s, a)"
        and ag' = "\<lambda>(p, s, a). a"] by (fastforce intro: serviced_refl dest: serviced_inv)
  have "outcome_ok env a (\<lambda>(p, s, a). a) True (run_bind ?first ?rest)"
    by (rule outcome_ok_bind [where ag = "\<lambda>(d, s, a). a"]) (use rest tryFetch_ok [OF Cons.prems] Cons.prems in \<open>auto simp: serviced_refl dest: serviced_inv\<close>)
  with Cons.IH [OF Cons.prems] show ?case by (simp add: p)
qed

lemma store_exec_safe:
  assumes "agent_inv env a"
  shows "outcome_ok env a snd True (store_exec env g j s a)"
proof (cases j)
  case (StoreFetch name key now)
  show ?thesis unfolding StoreFetch store_exec.simps fetch_task_def
    by (rule outcome_ok_bind [OF tryFetch_ok [OF assms]]) (auto intro!: serviced_refl dest: serviced_inv)
next
  case (StorePoll now late)
  show ?thesis unfolding StorePoll store_exec.simps store_service_def
    by (rule outcome_ok_bind [OF service_pending_ok [OF assms]]) (auto intro!: serviced_refl dest: serviced_inv)
qed (use assms in \<open>auto simp: serviced_refl split: prod.splits option.splits\<close>)

interpretation store: metadata_transport env True "store_exec env g" for env g
  by unfold_locales (rule store_exec_safe)

lemma pending_subseq:
  "service_pending env g now late pend s a = Done (pend', s', a') \<Longrightarrow> subseq pend' (filter (\<lambda>(k, n, d). now < d) pend)"
proof (induction pend arbitrary: s a pend' s' a')
  case (Cons p pend)
  obtain key name dl where p: "p = (key, (name, dl))" by (metis prod.exhaust)
  show ?case
  proof (cases "now \<ge> dl")
    case True
    with Cons p show ?thesis by auto
  next
    case False
    let ?first = "if late key then Done (False, s, a) else tryFetch env g name key s a"
    obtain d s1 a1 where 1: "?first = Done (d, s1, a1)" using Cons.prems p False by (cases ?first) auto
    obtain pend1 s2 a2 where 2: "service_pending env g now late pend s1 a1 = Done (pend1, s2, a2)"
      using Cons.prems p False 1 by (cases "service_pending env g now late pend s1 a1") auto
    have "pend' = (if d then pend1 else p # pend1)" using Cons.prems p False 1 2 by (simp split: if_splits)
    with Cons.IH [OF 2] False p show ?thesis by auto
  qed
qed simp

lemma pending_deferred:
  "(\<And>k. late k) \<Longrightarrow> service_pending env g now late pend s a = Done (filter (\<lambda>(k, n, d). now < d) pend, s, a)"
  by (induction pend) auto

lemma not_expired: "\<forall>(k, n, d) \<in> set pend. d \<le> now \<Longrightarrow> filter (\<lambda>(k, n, d). now < (d :: nat)) pend = []"
  by (fastforce simp: filter_empty_conv)


definition ex_store :: "tcp_client \<Rightarrow> tcpstore" where
  "ex_store c = \<lparr>ts_client = c, publishedKeys = [], pendingFetches = [(''k1'', ''alice'', 10), (''k2'', ''carol'', 50)], fetchTimeout = 30000\<rparr>"


subsection \<open>The endpoint\<close>

lemma digit_char:
  assumes "(n :: nat) < 10"
  shows "CHR ''0'' \<le> char_of (48 + n) \<and> char_of (48 + n) \<le> CHR ''9'' \<and> of_char (char_of (48 + n)) - 48 = n \<and> char_of (48 + n) \<noteq> CHR '':''"
proof -
  have "n \<in> {0, 1, 2, 3, 4, 5, 6, 7, 8, 9}" using assms by auto
  then show ?thesis by (auto simp: less_eq_char_def char_of_def bit_0)
qed

lemma parse_digits_append: "parse_digits acc (xs @ ys) = (case parse_digits acc xs of None \<Rightarrow> None | Some v \<Rightarrow> parse_digits v ys)"
  by (induction xs arbitrary: acc) auto

lemma parse_digits_dec: "parse_digits 0 (dec n) = Some n"
proof (induction n rule: dec.induct)
  case (1 n)
  show ?case
  proof (cases "n < 10")
    case True
    with digit_char [OF True] show ?thesis by (simp add: dec.simps [of n])
  next
    case False
    with 1 digit_char [of "n mod 10"] show ?thesis by (simp add: dec.simps [of n] parse_digits_append)
  qed
qed

lemma dec_plain: "dec n \<noteq> [] \<and> CHR '':'' \<notin> set (dec n)"
proof (induction n rule: dec.induct)
  case (1 n)
  then show ?case using digit_char [of n] digit_char [of "n mod 10"] by (cases "n < 10") (auto simp: dec.simps [of n])
qed

text \<open>Every host with every port can be given: the text is split at the last colon, so the host itself may
  contain colons.\<close>

lemma parse_endpoint_print:
  assumes "host \<noteq> []" and "0 < prt" and "prt \<le> 65535"
  shows "parse_endpoint (host @ '':'' @ dec prt) = Some (host, prt)"
proof -
  have "takeWhile (\<lambda>c. c \<noteq> CHR '':'') (rev (host @ '':'' @ dec prt)) = rev (dec prt)"
    using dec_plain [of prt] by (auto simp: takeWhile_tail intro: trans [OF takeWhile_append2])
  with assms dec_plain [of prt] show ?thesis
    by (simp add: parse_endpoint_def Let_def parse_digits_dec)
qed

subsection \<open>Limits\<close>

text \<open>A blob under another name than the one asked for is loaded before the names are compared, and stays
  loaded.\<close>

lemma mismatched_name_stays_loaded:
  assumes "client_get key (ts_client s) = (Some (Some blob), c)" and "loadRemoteMD env g blob a = Some (NIXL_SUCCESS, loaded, a')"
    and "loaded \<noteq> remote_name"
  shows "tryFetch env g remote_name key s a = Done (True, s\<lparr>ts_client := c\<rparr>, a')"
  using assms by (simp add: tryFetch_def)

text \<open>The parts of a key are not delimited: a label with a slash and an agent name with one can meet.\<close>

lemma makeKey_collides: "makeKey ''metadata'' ''x/y'' dst = makeKey ''metadata/x'' ''y'' dst"
  by (simp add: makeKey_def)


text \<open>Over any sequence of jobs, a client spends the bring-up budget on its first connect and the budget of
  an operation on every later one.\<close>

lemma service_pending_budget:
  "budget_ok (ts_client s) \<Longrightarrow> service_pending env g now late pend s a = Done (pend', s', a') \<Longrightarrow> budget_ok (ts_client s')"
proof (induction pend arbitrary: s a pend')
  case (Cons p pend)
  obtain key name dl where p: "p = (key, (name, dl))" by (metis prod.exhaust)
  show ?case
  proof (cases "now \<ge> dl")
    case True
    with Cons p show ?thesis by auto
  next
    case False
    let ?first = "if late key then Done (False, s, a) else tryFetch env g name key s a"
    obtain d s1 a1 where 1: "?first = Done (d, s1, a1)" using Cons.prems p False by (cases ?first) auto
    obtain pend1 where 2: "service_pending env g now late pend s1 a1 = Done (pend1, s', a')"
      using Cons.prems p False 1 by (cases "service_pending env g now late pend s1 a1") auto
    have "budget_ok (ts_client s1)"
      using 1 Cons.prems(1) tryFetch_client [of env g name key s a d s1 a1] keeps_budget_ops(2) [of key]
      by (auto simp: keeps_budget_def split: if_splits)
    with Cons.IH 2 show ?thesis by blast
  qed
qed simp

lemma store_exec_budget:
  assumes "budget_ok (ts_client s)" and "store_exec env g j s a = Done (s', a')"
  shows "budget_ok (ts_client s')"
proof (cases j)
  case StoreConnect
  with assms keeps_budget_ensure show ?thesis by (auto simp: keeps_budget_def connect_task_def)
next
  case (StorePublish key blob)
  with assms keeps_budget_ops(1) [of key blob] show ?thesis
    by (cases "client_set key blob (ts_client s)") (fastforce simp: keeps_budget_def publishKey_def split: option.splits)
next
  case (StoreFetch name key now)
  then obtain d s1 a1 where f: "tryFetch env g name key s a = Done (d, s1, a1)" "ts_client s' = ts_client s1"
    using assms(2) by (auto simp: fetch_task_def elim!: run_bind_Done)
  with assms(1) tryFetch_client [OF f(1)] keeps_budget_ops(2) [of key] show ?thesis by (simp add: keeps_budget_def)
next
  case StoreDelete
  with assms keeps_budget_delete [of "publishedKeys s"] show ?thesis
    by (cases "delete_each (publishedKeys s) (ts_client s)") (fastforce simp: keeps_budget_def delete_task_def split: option.splits)
next
  case (StorePoll now late)
  with assms service_pending_budget show ?thesis by (fastforce simp: store_service_def elim!: run_bind_Done)
qed

theorem bring_up_budget_once:
  "budget_ok (ts_client s) \<Longrightarrow> run_jobs (store_exec env g) js s a = Done (s', a') \<Longrightarrow> budget_ok (ts_client s')"
proof (induction js arbitrary: s a)
  case (Cons j js)
  then show ?case using store_exec_budget by (fastforce elim!: run_bind_Done)
qed simp

end
