(* ===== verification/Nixl_Etcd.thy ===== *)
theory Nixl_Etcd
  imports Nixl_TcpStore
begin

text \<open>
  The etcd metadata transport (\<open>src/core/nixl_etcd_metadata_backend.cpp\<close>). The etcd client library is not
  part of the repository: what its calls answer is a parameter, a function of the calls made so far.
  Calls that watchers make on a thread of the library enter as jobs of their own, so the lock around
  their queue is the interleaving of jobs.
\<close>

datatype etcd_resp = EtcdOk string | EtcdFail | EtcdThrow

datatype watch_resp = WatchValue string | WatchDelete | WatchFail | WatchTimeout | WatchThrow

datatype etcd_call = PutCall string string etcd_resp | GetCall string etcd_resp | RmdirCall string etcd_resp | WatchCall string watch_resp

type_synonym etcd_log = "etcd_call list"

record etcd_env =
  ee_put :: "etcd_log \<Rightarrow> string \<Rightarrow> string \<Rightarrow> etcd_resp"
  ee_get :: "etcd_log \<Rightarrow> string \<Rightarrow> etcd_resp"
  ee_rmdir :: "etcd_log \<Rightarrow> string \<Rightarrow> etcd_resp"
  ee_watch :: "etcd_log \<Rightarrow> string \<Rightarrow> watch_resp"

record etcd_client =
  namespacePrefix :: string
  etcdAgent :: string
  invalidatedAgents :: "string list"
  agentWatchers :: "string list"
  agentPrefixStored :: bool
  etcdLog :: etcd_log

definition etcd_new :: "string \<Rightarrow> string \<Rightarrow> etcd_client" where
  "etcd_new ns name = \<lparr>namespacePrefix = ns, etcdAgent = name, invalidatedAgents = [], agentWatchers = [], agentPrefixStored = False, etcdLog = []\<rparr>"

definition etcd_makeKey :: "string \<Rightarrow> string \<Rightarrow> etcd_client \<Rightarrow> string" where
  "etcd_makeKey agent_name metadata_type c = namespacePrefix c @ ''/'' @ agent_name @ ''/'' @ metadata_type"

definition etcd_put :: "etcd_env \<Rightarrow> string \<Rightarrow> string \<Rightarrow> etcd_client \<Rightarrow> etcd_resp \<times> etcd_client" where
  "etcd_put ee key val c =
     (let r = ee_put ee (etcdLog c) key val in (r, c\<lparr>etcdLog := PutCall key val r # etcdLog c\<rparr>))"

definition etcd_get :: "etcd_env \<Rightarrow> string \<Rightarrow> etcd_client \<Rightarrow> etcd_resp \<times> etcd_client" where
  "etcd_get ee key c = (let r = ee_get ee (etcdLog c) key in (r, c\<lparr>etcdLog := GetCall key r # etcdLog c\<rparr>))"

text \<open>The status, \<open>None\<close> for an exception that the callers catch.\<close>

definition ensureAgentPrefix :: "etcd_env \<Rightarrow> etcd_client \<Rightarrow> nixl_status_t option \<times> etcd_client" where
  "ensureAgentPrefix ee c =
     (if agentPrefixStored c then (Some NIXL_SUCCESS, c)
      else let (r, c) = etcd_put ee (etcd_makeKey (etcdAgent c) [] c) [] c
           in case r of
                EtcdThrow \<Rightarrow> (None, c)
              | EtcdFail \<Rightarrow> (Some NIXL_ERR_BACKEND, c)
              | EtcdOk _ \<Rightarrow> (Some NIXL_SUCCESS, c\<lparr>agentPrefixStored := True\<rparr>))"

definition announceAgent :: "etcd_env \<Rightarrow> etcd_client \<Rightarrow> nixl_status_t \<times> etcd_client" where
  "announceAgent ee c =
     (case ensureAgentPrefix ee c of (None, c) \<Rightarrow> (NIXL_ERR_BACKEND, c) | (Some ret, c) \<Rightarrow> (ret, c))"

definition storeMetadataInEtcd :: "etcd_env \<Rightarrow> string \<Rightarrow> string \<Rightarrow> blob \<Rightarrow> etcd_client \<Rightarrow> nixl_status_t \<times> etcd_client" where
  "storeMetadataInEtcd ee agent_name metadata_type metadata c =
     (case ensureAgentPrefix ee c of
        (None, c) \<Rightarrow> (NIXL_ERR_BACKEND, c)
      | (Some ret, c) \<Rightarrow>
          if ret \<noteq> NIXL_SUCCESS then (ret, c)
          else let (r, c) = etcd_put ee (etcd_makeKey agent_name metadata_type c) metadata c
               in (case r of EtcdOk _ \<Rightarrow> NIXL_SUCCESS | _ \<Rightarrow> NIXL_ERR_BACKEND, c))"

definition removeMetadataFromEtcd :: "etcd_env \<Rightarrow> string \<Rightarrow> etcd_client \<Rightarrow> nixl_status_t \<times> etcd_client" where
  "removeMetadataFromEtcd ee agent_name c =
     (if agent_name = etcdAgent c \<and> \<not> agentPrefixStored c then (NIXL_SUCCESS, c)
      else let key = etcd_makeKey agent_name [] c; r = ee_rmdir ee (etcdLog c) key; c = c\<lparr>etcdLog := RmdirCall key r # etcdLog c\<rparr>
           in if r = EtcdThrow then (NIXL_ERR_BACKEND, c)
              else let c = (if agent_name = etcdAgent c then c\<lparr>agentPrefixStored := False\<rparr> else c)
                   in (if r = EtcdFail then NIXL_ERR_BACKEND else NIXL_SUCCESS, c))"

definition fetchMetadataFromEtcd :: "etcd_env \<Rightarrow> string \<Rightarrow> string \<Rightarrow> etcd_client \<Rightarrow> nixl_status_t \<times> blob \<times> etcd_client" where
  "fetchMetadataFromEtcd ee agent_name metadata_type c =
     (let (r, c) = etcd_get ee (etcd_makeKey agent_name metadata_type c) c
      in case r of
           EtcdOk metadata \<Rightarrow> (if metadata = [] then NIXL_ERR_NOT_FOUND else NIXL_SUCCESS, metadata, c)
         | EtcdFail \<Rightarrow> (NIXL_ERR_NOT_FOUND, [], c)
         | EtcdThrow \<Rightarrow> (NIXL_ERR_UNKNOWN, [], c))"

text \<open>The watch answers with the first event on the key, or not before the time-out.\<close>

definition waitForMetadataFromEtcd :: "etcd_env \<Rightarrow> string \<Rightarrow> blob \<Rightarrow> etcd_client \<Rightarrow> nixl_status_t \<times> blob \<times> etcd_client" where
  "waitForMetadataFromEtcd ee key remote_metadata c =
     (let (r, c) = etcd_get ee key c
      in if r = EtcdThrow then (NIXL_ERR_BACKEND, remote_metadata, c)
         else let w = ee_watch ee (etcdLog c) key; c = c\<lparr>etcdLog := WatchCall key w # etcdLog c\<rparr>
              in case w of
                   WatchValue v \<Rightarrow> (NIXL_SUCCESS, v, c)
                 | WatchDelete \<Rightarrow> (NIXL_ERR_INVALID_PARAM, remote_metadata, c)
                 | _ \<Rightarrow> (NIXL_ERR_BACKEND, remote_metadata, c))"

definition fetchOrWaitForMetadataFromEtcd :: "etcd_env \<Rightarrow> string \<Rightarrow> string \<Rightarrow> etcd_client \<Rightarrow> nixl_status_t \<times> blob \<times> etcd_client" where
  "fetchOrWaitForMetadataFromEtcd ee remote_agent metadata_label c =
     (let (ret, md, c) = fetchMetadataFromEtcd ee remote_agent metadata_label c
      in if ret = NIXL_SUCCESS then (NIXL_SUCCESS, md, c)
         else waitForMetadataFromEtcd ee (etcd_makeKey remote_agent metadata_label c) md c)"

definition setupAgentWatcher :: "string \<Rightarrow> etcd_client \<Rightarrow> etcd_client" where
  "setupAgentWatcher agent_name c =
     (if agent_name \<in> set (agentWatchers c) then c else c\<lparr>agentWatchers := agent_name # agentWatchers c\<rparr>)"

text \<open>The callback of a watcher: the response's events, \<open>True\<close> for a deletion, or \<open>None\<close> for a failed
  watch.\<close>

definition process_response :: "string \<Rightarrow> bool list option \<Rightarrow> etcd_client \<Rightarrow> etcd_client" where
  "process_response agent_name response c =
     (case response of
        None \<Rightarrow> c
      | Some evs \<Rightarrow> if evs = [True] then c\<lparr>invalidatedAgents := invalidatedAgents c @ [agent_name]\<rparr> else c)"

fun invalidate_each :: "benv \<Rightarrow> string list \<Rightarrow> etcd_client \<Rightarrow> nixlAgentData \<Rightarrow> (etcd_client \<times> nixlAgentData) run" where
  "invalidate_each env [] c a = Done (c, a)"
| "invalidate_each env (agent # agents) c a =
     run_bind (run_option (invalidateRemoteMD env agent a)) (\<lambda>(ret, a).
       invalidate_each env agents (c\<lparr>agentWatchers := removeAll agent (agentWatchers c)\<rparr>) a)"

definition processInvalidatedAgents :: "benv \<Rightarrow> etcd_client \<Rightarrow> nixlAgentData \<Rightarrow> (etcd_client \<times> nixlAgentData) run" where
  "processInvalidatedAgents env c a = invalidate_each env (invalidatedAgents c) (c\<lparr>invalidatedAgents := []\<rparr>) a"

subsection \<open>The backend\<close>

datatype etcd_job = EtcdAnnounce | EtcdStore string string blob | EtcdFetch string string | EtcdRemove string
  | EtcdPoll | EtcdWatchEvent string "bool list option"

definition etcd_fetch :: "benv \<Rightarrow> nixl_mem_t \<Rightarrow> etcd_env \<Rightarrow> string \<Rightarrow> string \<Rightarrow> etcd_client \<Rightarrow> nixlAgentData \<Rightarrow> (etcd_client \<times> nixlAgentData) run" where
  "etcd_fetch env g ee remote_name label c a =
     (let (ret, blob, c) = fetchOrWaitForMetadataFromEtcd ee remote_name label c
      in if ret \<noteq> NIXL_SUCCESS then Done (c, a)
         else run_bind (run_option (loadRemoteMD env g blob a)) (\<lambda>(ret, loaded_name, a).
                if ret \<noteq> NIXL_SUCCESS then Done (c, a)
                else if loaded_name \<noteq> remote_name then Done (c, a)
                else Done (setupAgentWatcher remote_name c, a)))"

text \<open>A watcher that was cancelled calls back no more.\<close>

fun etcd_exec :: "benv \<Rightarrow> nixl_mem_t \<Rightarrow> etcd_env \<Rightarrow> etcd_job \<Rightarrow> etcd_client \<Rightarrow> nixlAgentData \<Rightarrow> (etcd_client \<times> nixlAgentData) run" where
  "etcd_exec env g ee EtcdAnnounce c a = Done (snd (announceAgent ee c), a)"
| "etcd_exec env g ee (EtcdStore agent label blob) c a = Done (snd (storeMetadataInEtcd ee agent label blob c), a)"
| "etcd_exec env g ee (EtcdFetch remote_name label) c a = etcd_fetch env g ee remote_name label c a"
| "etcd_exec env g ee (EtcdRemove agent) c a = Done (snd (removeMetadataFromEtcd ee agent c), a)"
| "etcd_exec env g ee EtcdPoll c a = processInvalidatedAgents env c a"
| "etcd_exec env g ee (EtcdWatchEvent agent response) c a =
     Done (if agent \<in> set (agentWatchers c) then process_response agent response c else c, a)"

definition etcd_sendLocal :: "benv \<Rightarrow> nixlAgentData \<Rightarrow> nixl_status_t \<times> etcd_job option" where
  "etcd_sendLocal env a =
     (let (ret, blob) = getLocalMD env a
      in if is_err ret then (ret, None) else (NIXL_SUCCESS, Some (EtcdStore (agName a) default_metadata_label blob)))"

definition etcd_sendLocalPartial :: "benv \<Rightarrow> nixl_reg_dlist_t \<Rightarrow> nixl_opt_args_t option \<Rightarrow> nixlAgentData \<Rightarrow> nixl_status_t \<times> etcd_job option" where
  "etcd_sendLocalPartial env ds extra a =
     (if \<not> has_label extra then (NIXL_ERR_INVALID_PARAM, None)
      else let (ret, blob) = getLocalPartialMD env ds extra a
           in if is_err ret then (ret, None) else (NIXL_SUCCESS, Some (EtcdStore (agName a) (metadataLabel (the extra)) blob)))"

definition etcd_fetchRemote :: "string \<Rightarrow> nixl_opt_args_t option \<Rightarrow> nixl_status_t \<times> etcd_job option" where
  "etcd_fetchRemote remote_name extra = (NIXL_SUCCESS, Some (EtcdFetch remote_name (label_of extra)))"

definition etcd_invalidateLocal :: "nixlAgentData \<Rightarrow> nixl_status_t \<times> etcd_job option" where
  "etcd_invalidateLocal a = (NIXL_SUCCESS, Some (EtcdRemove (agName a)))"

subsection \<open>The jobs are safe\<close>

lemma invalidate_each_ok: "agent_inv env a \<Longrightarrow> outcome_ok env a snd True (invalidate_each env ags c a)"
proof (induction ags arbitrary: c a)
  case Nil
  then show ?case by (simp add: serviced_refl)
next
  case (Cons ag ags)
  obtain st a' where i: "invalidateRemoteMD env ag a = Some (st, a')" "serviced env a a'" using invalidate_serviced [OF Cons.prems] .
  with outcome_ok_from [OF i(2) Cons.IH] serviced_inv [OF i(2)] show ?case by simp
qed

lemma etcd_fetch_ok:
  assumes "agent_inv env a"
  shows "outcome_ok env a snd True (etcd_fetch env g ee name label c a)"
proof -
  obtain ret blob c1 where f: "fetchOrWaitForMetadataFromEtcd ee name label c = (ret, blob, c1)" by (metis prod.exhaust)
  obtain st nm a' where "loadRemoteMD env g blob a = Some (st, nm, a')" "serviced env a a'" using load_serviced [OF assms] .
  with f assms show ?thesis by (simp add: etcd_fetch_def serviced_refl)
qed

lemma etcd_exec_safe: "agent_inv env a \<Longrightarrow> outcome_ok env a snd True (etcd_exec env g ee j c a)"
  by (cases j) (simp_all add: serviced_refl etcd_fetch_ok invalidate_each_ok processInvalidatedAgents_def)

interpretation etcd: metadata_transport env True "etcd_exec env g ee" for env g ee
  by unfold_locales (rule etcd_exec_safe)

subsection \<open>Announcing\<close>

text \<open>Whether the agent's prefix key is known to be in the store, by the calls made: the last write of it or
  removal of the prefix decides. A removal that etcd answered counts, even with an error, since it
  may have removed the key; one that threw is taken as not made.\<close>

fun announced :: "string \<Rightarrow> etcd_log \<Rightarrow> bool" where
  "announced p [] = False"
| "announced p (PutCall k v (EtcdOk r) # l) = (k = p \<or> announced p l)"
| "announced p (RmdirCall k r # l) = (announced p l \<and> (k \<noteq> p \<or> r = EtcdThrow))"
| "announced p (_ # l) = announced p l"

fun publishes_announced :: "string \<Rightarrow> etcd_log \<Rightarrow> bool" where
  "publishes_announced p [] = True"
| "publishes_announced p (PutCall k v r # l) = ((k = p \<or> announced p l) \<and> publishes_announced p l)"
| "publishes_announced p (_ # l) = publishes_announced p l"

definition own_prefix :: "etcd_client \<Rightarrow> string" where
  "own_prefix c = etcd_makeKey (etcdAgent c) [] c"

definition etcd_inv :: "etcd_client \<Rightarrow> bool" where
  "etcd_inv c \<longleftrightarrow> (agentPrefixStored c \<longleftrightarrow> announced (own_prefix c) (etcdLog c)) \<and> publishes_announced (own_prefix c) (etcdLog c) \<and>
     distinct (agentWatchers c)"

definition same_agent :: "etcd_client \<Rightarrow> etcd_client \<Rightarrow> bool" where
  "same_agent c c' \<longleftrightarrow> etcdAgent c' = etcdAgent c \<and> namespacePrefix c' = namespacePrefix c"

fun own_job :: "string \<Rightarrow> etcd_job \<Rightarrow> bool" where
  "own_job name (EtcdStore ag label blob) \<longleftrightarrow> ag = name \<and> label \<noteq> []"
| "own_job name (EtcdRemove ag) \<longleftrightarrow> ag = name"
| "own_job name _ \<longleftrightarrow> True"

text \<open>The calls queue only such jobs.\<close>

lemma etcd_ops_own:
  "etcd_sendLocal env a = (st, Some j) \<Longrightarrow> own_job (agName a) j"
  "etcd_sendLocalPartial env ds extra a = (st, Some j) \<Longrightarrow> own_job (agName a) j"
  "etcd_fetchRemote name extra = (st, Some j) \<Longrightarrow> own_job (agName a) j"
  "etcd_invalidateLocal a = (st, Some j) \<Longrightarrow> own_job (agName a) j"
  by (auto simp: etcd_sendLocal_def etcd_sendLocalPartial_def etcd_fetchRemote_def etcd_invalidateLocal_def default_metadata_label_def
      has_label_def split: if_splits prod.splits option.splits)

lemmas etcd_frame_defs = etcd_inv_def same_agent_def own_prefix_def etcd_makeKey_def

lemma ensureAgentPrefix_inv:
  assumes "etcd_inv c" and "ensureAgentPrefix ee c = (r, c')"
  shows "etcd_inv c' \<and> same_agent c c' \<and> (r = Some NIXL_SUCCESS \<longrightarrow> agentPrefixStored c')"
  using assms by (auto simp: ensureAgentPrefix_def etcd_put_def Let_def etcd_frame_defs split: if_splits etcd_resp.splits)

lemma store_inv:
  assumes "etcd_inv c" and "label \<noteq> []" and "storeMetadataInEtcd ee (etcdAgent c) label blob c = (r, c')"
  shows "etcd_inv c' \<and> same_agent c c'"
proof -
  obtain r1 c1 where e: "ensureAgentPrefix ee c = (r1, c1)" by fastforce
  note k = ensureAgentPrefix_inv [OF assms(1) e]
  show ?thesis
  proof (cases "r1 = Some NIXL_SUCCESS")
    case True
    let ?r = "ee_put ee (etcdLog c1) (etcd_makeKey (etcdAgent c) label c1) blob"
    have "c' = c1\<lparr>etcdLog := PutCall (etcd_makeKey (etcdAgent c) label c1) blob ?r # etcdLog c1\<rparr>"
      using assms(3) e True by (simp add: storeMetadataInEtcd_def etcd_put_def Let_def)
    with k True assms(2) show ?thesis by (cases ?r) (auto simp: etcd_frame_defs)
  next
    case False
    then have "c' = c1" using assms(3) e by (auto simp: storeMetadataInEtcd_def split: option.splits)
    with k show ?thesis by simp
  qed
qed

lemma remove_inv: "etcd_inv c \<Longrightarrow> removeMetadataFromEtcd ee (etcdAgent c) c = (r, c') \<Longrightarrow> etcd_inv c' \<and> same_agent c c'"
  by (auto simp: removeMetadataFromEtcd_def Let_def etcd_frame_defs split: if_splits)

lemma fetch_inv: "etcd_inv c \<Longrightarrow> fetchOrWaitForMetadataFromEtcd ee name label c = (r, md, c') \<Longrightarrow> etcd_inv c' \<and> same_agent c c'"
  by (auto simp: fetchOrWaitForMetadataFromEtcd_def fetchMetadataFromEtcd_def waitForMetadataFromEtcd_def etcd_get_def Let_def etcd_frame_defs
      split: if_splits etcd_resp.splits watch_resp.splits)

lemma invalidate_each_inv: "etcd_inv c \<Longrightarrow> invalidate_each env ags c a = Done (c', a') \<Longrightarrow> etcd_inv c' \<and> same_agent c c'"
proof (induction ags arbitrary: c a)
  case (Cons ag ags)
  let ?c = "c\<lparr>agentWatchers := removeAll ag (agentWatchers c)\<rparr>"
  obtain st a1 where "invalidateRemoteMD env ag a = Some (st, a1)" "invalidate_each env ags ?c a1 = Done (c', a')"
    using Cons.prems by (cases "invalidateRemoteMD env ag a") auto
  moreover have "etcd_inv ?c" using Cons.prems by (auto simp: etcd_frame_defs distinct_removeAll)
  ultimately show ?case using Cons.IH [of ?c a1] by (simp add: same_agent_def)
qed (simp add: same_agent_def)

lemma watch_inv: "etcd_inv c \<Longrightarrow> etcd_inv (setupAgentWatcher name c) \<and> same_agent c (setupAgentWatcher name c)"
  by (cases "name \<in> set (agentWatchers c)") (simp_all add: setupAgentWatcher_def etcd_frame_defs)

lemma etcd_exec_inv:
  assumes "etcd_inv c" and "own_job (etcdAgent c) j" and "etcd_exec env g ee j c a = Done (c', a')"
  shows "etcd_inv c' \<and> same_agent c c'"
proof (cases j)
  case EtcdAnnounce
  obtain r c1 where e: "ensureAgentPrefix ee c = (r, c1)" by fastforce
  with ensureAgentPrefix_inv [OF assms(1) e] assms(3) EtcdAnnounce show ?thesis by (cases r) (auto simp: announceAgent_def)
next
  case (EtcdStore ag label blob)
  with store_inv [OF assms(1)] assms(2,3) show ?thesis by (metis etcd_exec.simps(2) own_job.simps(1) prod.collapse prod.inject run.inject)
next
  case (EtcdFetch name label)
  obtain r md c1 where f: "fetchOrWaitForMetadataFromEtcd ee name label c = (r, md, c1)" by (metis prod.exhaust)
  note k = fetch_inv [OF assms(1) f]
  have "c' = c1 \<or> c' = setupAgentWatcher name c1"
    using assms(3) EtcdFetch f by (cases "loadRemoteMD env g md a") (auto simp: etcd_fetch_def split: if_splits)
  with k watch_inv [of c1 name] show ?thesis by (auto simp: same_agent_def)
next
  case (EtcdRemove ag)
  with remove_inv [OF assms(1)] assms(2,3) show ?thesis by (metis etcd_exec.simps(4) own_job.simps(2) prod.collapse prod.inject run.inject)
next
  case EtcdPoll
  have "etcd_inv (c\<lparr>invalidatedAgents := []\<rparr>)" using assms(1) by (simp add: etcd_frame_defs)
  with invalidate_each_inv assms(3) EtcdPoll show ?thesis by (fastforce simp: processInvalidatedAgents_def same_agent_def)
next
  case (EtcdWatchEvent ag response)
  with assms(1,3) show ?thesis by (auto simp: process_response_def etcd_frame_defs split: option.splits if_splits)
qed

lemma etcd_run_inv:
  "etcd_inv c \<Longrightarrow> \<forall>j \<in> set js. own_job (etcdAgent c) j \<Longrightarrow> run_jobs (etcd_exec env g ee) js c a = Done (c', a') \<Longrightarrow> etcd_inv c' \<and> same_agent c c'"
proof (induction js arbitrary: c a)
  case Nil
  then show ?case by (simp add: same_agent_def)
next
  case (Cons j js)
  obtain c1 a1 where 1: "etcd_exec env g ee j c a = Done (c1, a1)" "run_jobs (etcd_exec env g ee) js c1 a1 = Done (c', a')"
    using Cons.prems(3) by (cases "etcd_exec env g ee j c a") auto
  note k = etcd_exec_inv [OF Cons.prems(1) _ 1(1)]
  have "etcd_inv c1" "same_agent c c1" using k Cons.prems(2) by simp_all
  with Cons.IH [OF _ _ 1(2)] Cons.prems(2) show ?case by (simp add: same_agent_def)
qed

text \<open>C23: An agent is announced before it publishes. Whatever etcd answers, whatever its watchers report and in
  whatever order the jobs of the agent's calls run, the worker gets through them and leaves the
  agent's invariant intact; the client's flag says whether, by the calls made, the prefix key is
  known to be in the store; and every metadata key was written while it was.\<close>

theorem etcd_announces_first:
  assumes "agent_inv env a" and "\<forall>j \<in> set js. own_job name j"
  shows "\<exists>c a'. run_jobs (etcd_exec env g ee) js (etcd_new ns name) a = Done (c, a') \<and> agent_inv env a' \<and>
    (agentPrefixStored c \<longleftrightarrow> announced (ns @ ''/'' @ name @ ''/'') (etcdLog c)) \<and>
    publishes_announced (ns @ ''/'' @ name @ ''/'') (etcdLog c) \<and> distinct (agentWatchers c)"
proof -
  obtain c a' where r: "run_jobs (etcd_exec env g ee) js (etcd_new ns name) a = Done (c, a')" "agent_inv env a'"
    using etcd.run_jobs_live [OF assms(1)] by blast
  have "etcd_inv (etcd_new ns name)" "etcdAgent (etcd_new ns name) = name" by (simp_all add: etcd_inv_def etcd_new_def)
  with etcd_run_inv [OF _ _ r(1)] assms(2) r show ?thesis by (auto simp: etcd_frame_defs etcd_new_def)
qed

definition ex_etcd :: etcd_env where
  "ex_etcd = \<lparr>ee_put = (\<lambda>l k v. if l = [] then EtcdFail else EtcdOk []), ee_get = (\<lambda>l k. EtcdFail), ee_rmdir = (\<lambda>l k. EtcdOk []),
     ee_watch = (\<lambda>l k. WatchTimeout)\<rparr>"

theorem etcd_announces_first_witness:
  "\<exists>c a'. run_jobs (etcd_exec ex_env DRAM_SEG ex_etcd) [EtcdAnnounce, EtcdStore ''alice'' ''metadata'' ''md'', EtcdRemove ''alice'']
       (etcd_new ''ns'' ''alice'') ex_publisher = Done (c, a') \<and>
     \<not> agentPrefixStored c \<and> length (etcdLog c) = 4 \<and> publishes_announced ''ns/alice/'' (etcdLog c)"
  using etcd_announces_first [OF ex_agent_inv(1), of "[EtcdAnnounce, EtcdStore ''alice'' ''metadata'' ''md'', EtcdRemove ''alice'']" "''alice''"
      DRAM_SEG ex_etcd "''ns''"]
  by (simp add: announceAgent_def ensureAgentPrefix_def storeMetadataInEtcd_def removeMetadataFromEtcd_def etcd_put_def ex_etcd_def etcd_new_def
      Let_def etcd_makeKey_def)

subsection \<open>Invalidation\<close>

lemma invalidate_remote:
  assumes "agent_inv env a"
  obtains st a' where "invalidateRemoteMD env ag a = Some (st, a')" "agent_inv env a'" "agName a' = agName a"
    "remoteSections a' = (if ag = agName a then remoteSections a else al_delete ag (remoteSections a))"
  using invalidate_total [OF assms, of ag] assms that by (cases "ag = agName a") (auto simp: invalidateRemoteMD_def)

lemma invalidate_each_effect:
  "agent_inv env a \<Longrightarrow> invalidate_each env ags c a = Done (c', a') \<Longrightarrow>
    (\<forall>ag. map_of (remoteSections a') ag = (if ag \<in> set ags \<and> ag \<noteq> agName a then None else map_of (remoteSections a) ag)) \<and>
    set (agentWatchers c') = set (agentWatchers c) - set ags \<and> invalidatedAgents c' = invalidatedAgents c"
proof (induction ags arbitrary: c a)
  case (Cons x ags)
  obtain st a1 where i: "invalidateRemoteMD env x a = Some (st, a1)" "agent_inv env a1" "agName a1 = agName a"
    "remoteSections a1 = (if x = agName a then remoteSections a else al_delete x (remoteSections a))"
    using invalidate_remote [OF Cons.prems(1)] .
  have "invalidate_each env ags (c\<lparr>agentWatchers := removeAll x (agentWatchers c)\<rparr>) a1 = Done (c', a')" using Cons.prems(2) i(1) by simp
  from Cons.IH [OF i(2) this] i(3,4) show ?case by (auto simp: map_of_al_delete)
qed simp

text \<open>C26: Invalidations reported by watchers are carried out by the next poll: every peer whose deletion was
  queued has lost its remote section and its watcher, the queue is empty, and all other peers keep
  theirs.\<close>

theorem etcd_poll_invalidates:
  assumes "agent_inv env a"
  shows "\<exists>c' a'. etcd_exec env g ee EtcdPoll c a = Done (c', a') \<and> agent_inv env a' \<and> invalidatedAgents c' = [] \<and>
    set (agentWatchers c') = set (agentWatchers c) - set (invalidatedAgents c) \<and>
    (\<forall>ag. map_of (remoteSections a') ag =
      (if ag \<in> set (invalidatedAgents c) \<and> ag \<noteq> agName a then None else map_of (remoteSections a) ag))"
proof -
  let ?c = "c\<lparr>invalidatedAgents := []\<rparr>"
  obtain c' a' where r: "invalidate_each env (invalidatedAgents c) ?c a = Done (c', a')" "agent_inv env a'"
    using invalidate_each_ok [OF assms, of "invalidatedAgents c" ?c]
    by (cases "invalidate_each env (invalidatedAgents c) ?c a") (auto dest: serviced_inv)
  from invalidate_each_effect [OF assms r(1)] r show ?thesis by (simp add: processInvalidatedAgents_def)
qed

theorem etcd_poll_invalidates_witness:
  "\<exists>c' a'. etcd_exec ex_env DRAM_SEG ex_etcd EtcdPoll ((etcd_new ''ns'' ''alice'')\<lparr>invalidatedAgents := [''bob''], agentWatchers := [''carol'', ''bob'']\<rparr>)
       ex_publisher = Done (c', a') \<and> set (agentWatchers c') = {''carol''} \<and> map_of (remoteSections a') ''bob'' = None"
proof -
  let ?c = "(etcd_new ''ns'' ''alice'')\<lparr>invalidatedAgents := [''bob''], agentWatchers := [''carol'', ''bob'']\<rparr>"
  have "agName ex_publisher = ''alice''" by (simp add: ex_publisher_def ex_agent_def)
  with etcd_poll_invalidates [OF ex_agent_inv(1), of DRAM_SEG ex_etcd ?c] show ?thesis by auto
qed

text \<open>Removing an agent removes its prefix with everything below: an agent whose name extends the other's by a
  slash goes with it.\<close>

lemma etcd_prefix_covers_other_agent: "prefix (etcd_makeKey ''a'' [] c) (etcd_makeKey ''a/b'' label c)"
  by (simp add: etcd_makeKey_def)

end
