(* ===== verification/Nixl_MDManager.thy ===== *)
theory Nixl_MDManager
  imports Nixl_Etcd
begin

text \<open>
  The manager that owns the metadata transports and routes the agent's calls to them
  (\<open>src/core/nixl_md_manager.cpp\<close>, and the methods of \<open>src/core/nixl_agent.cpp\<close> that forward to it). The
  settings it reads are arguments: the values of the two endpoint variables, and whether the build has
  etcd.
\<close>

datatype name_backend = UseEtcd string | UseTcpStore string nat

record md_config =
  haveEtcd :: bool
  etcdEndpoints :: "string option"
  tcpstoreEndpoint :: "string option"
  useListenThread :: bool

definition etcdConfigured :: "md_config \<Rightarrow> bool" where
  "etcdConfigured cfg \<longleftrightarrow> haveEtcd cfg \<and> etcdEndpoints cfg \<noteq> None"

text \<open>The outer \<open>None\<close> is a thrown error: both endpoints set, an empty one, or one that is not a host and
  a port.\<close>

definition makeBackend :: "md_config \<Rightarrow> name_backend option option" where
  "makeBackend cfg =
     (if etcdConfigured cfg
      then if tcpstoreEndpoint cfg \<noteq> None then None
           else let eps = the (etcdEndpoints cfg) in if eps = [] then None else Some (Some (UseEtcd eps))
      else case tcpstoreEndpoint cfg of
             None \<Rightarrow> Some None
           | Some ep \<Rightarrow> if ep = [] then None else map_option (\<lambda>(host, prt). Some (UseTcpStore host prt)) (parse_endpoint ep))"

record md_manager =
  mdConfig :: md_config
  nameBackend :: "name_backend option"

definition manager_new :: "md_config \<Rightarrow> (family \<Rightarrow> stream_env) \<Rightarrow> listen_env \<Rightarrow> md_manager option" where
  "manager_new cfg se le =
     (if useListenThread cfg \<and> setupListener se le = None then None
      else map_option (\<lambda>b. \<lparr>mdConfig = cfg, nameBackend = b\<rparr>) (makeBackend cfg))"

datatype transport = ToP2P | ToName name_backend

definition md_select :: "nixl_opt_args_t option \<Rightarrow> md_manager \<Rightarrow> transport option" where
  "md_select extra m = (if hasAddress extra then Some ToP2P else map_option ToName (nameBackend m))"

definition noTransport :: "md_manager \<Rightarrow> nixl_status_t" where
  "noTransport m = (if haveEtcd (mdConfig m) then NIXL_ERR_INVALID_PARAM else NIXL_ERR_NOT_SUPPORTED)"

text \<open>A job for one of the workers.\<close>

datatype md_job = JobP2P p2p_job | JobStore store_job | JobEtcd etcd_job

text \<open>\<open>ce\<close> is what the network answers if the peer has to be connected to.\<close>

definition route :: "md_manager \<Rightarrow> nixl_opt_args_t option \<Rightarrow> connect_env \<Rightarrow> nixl_status_t \<times> send_task option \<Rightarrow> nixl_status_t \<times> etcd_job option \<Rightarrow>
    nixl_status_t \<times> store_job option \<Rightarrow> nixl_status_t \<times> md_job option" where
  "route m extra ce via_p2p via_etcd via_store =
     (case md_select extra m of
        None \<Rightarrow> (noTransport m, None)
      | Some ToP2P \<Rightarrow> map_prod id (map_option (\<lambda>t. JobP2P (P2PSend ce t))) via_p2p
      | Some (ToName (UseEtcd _)) \<Rightarrow> map_prod id (map_option JobEtcd) via_etcd
      | Some (ToName (UseTcpStore _ _)) \<Rightarrow> map_prod id (map_option JobStore) via_store)"

definition sendLocalMD :: "benv \<Rightarrow> nixl_opt_args_t option \<Rightarrow> connect_env \<Rightarrow> md_manager \<Rightarrow> nixlAgentData \<Rightarrow> nixl_status_t \<times> md_job option" where
  "sendLocalMD env extra ce m a = route m extra ce (p2p_sendLocal env extra a) (etcd_sendLocal env a) (store_sendLocal env a)"

definition sendLocalPartialMD :: "benv \<Rightarrow> nixl_reg_dlist_t \<Rightarrow> nixl_opt_args_t option \<Rightarrow> connect_env \<Rightarrow> md_manager \<Rightarrow> nixlAgentData \<Rightarrow>
    nixl_status_t \<times> md_job option" where
  "sendLocalPartialMD env ds extra ce m a =
     route m extra ce (p2p_sendLocalPartial env ds extra a) (etcd_sendLocalPartial env ds extra a) (store_sendLocalPartial env ds extra a)"

definition fetchRemoteMD :: "string \<Rightarrow> nixl_opt_args_t option \<Rightarrow> connect_env \<Rightarrow> nat \<Rightarrow> md_manager \<Rightarrow> nixl_status_t \<times> md_job option" where
  "fetchRemoteMD remote_name extra ce now m =
     route m extra ce (p2p_fetchRemote extra) (etcd_fetchRemote remote_name extra) (store_fetchRemote remote_name extra now)"

definition invalidateLocalMD :: "nixl_opt_args_t option \<Rightarrow> connect_env \<Rightarrow> md_manager \<Rightarrow> nixlAgentData \<Rightarrow> nixl_status_t \<times> md_job option" where
  "invalidateLocalMD extra ce m a = route m extra ce (p2p_invalidateLocal extra a) (etcd_invalidateLocal a) store_invalidateLocal"

definition backendName :: "md_manager \<Rightarrow> string" where
  "backendName m =
     (case nameBackend m of None \<Rightarrow> ''P2P'' | Some (UseEtcd _) \<Rightarrow> ''ETCD'' | Some (UseTcpStore _ _) \<Rightarrow> ''TCPStore'')"

definition usesThread :: "md_manager \<Rightarrow> bool" where
  "usesThread m \<longleftrightarrow> useListenThread (mdConfig m) \<or> nameBackend m \<noteq> None"

text \<open>The threads the manager starts, and the first job of each.\<close>

definition manager_start :: "md_manager \<Rightarrow> md_job list" where
  "manager_start m =
     (case nameBackend m of None \<Rightarrow> [] | Some (UseEtcd _) \<Rightarrow> [JobEtcd EtcdAnnounce] | Some (UseTcpStore _ _) \<Rightarrow> [JobStore StoreConnect])"

subsection \<open>Running the workers\<close>

text \<open>Each transport has a worker of its own; the jobs of all of them interleave, and the lock of the agent
  keeps each job's access to it whole.\<close>

record md_state =
  p2pState :: socket_map
  storeState :: tcpstore
  etcdState :: etcd_client

fun md_exec :: "benv \<Rightarrow> nixl_mem_t \<Rightarrow> etcd_env \<Rightarrow> md_job \<Rightarrow> md_state \<Rightarrow> nixlAgentData \<Rightarrow> (md_state \<times> nixlAgentData) run" where
  "md_exec env g ee (JobP2P j) s a = run_bind (p2p_exec env g j (p2pState s) a) (\<lambda>(x, a). Done (s\<lparr>p2pState := x\<rparr>, a))"
| "md_exec env g ee (JobStore j) s a = run_bind (store_exec env g j (storeState s) a) (\<lambda>(x, a). Done (s\<lparr>storeState := x\<rparr>, a))"
| "md_exec env g ee (JobEtcd j) s a = run_bind (etcd_exec env g ee j (etcdState s) a) (\<lambda>(x, a). Done (s\<lparr>etcdState := x\<rparr>, a))"

lemma outcome_ok_state:
  assumes "outcome_ok env a snd live r"
  shows "outcome_ok env a snd live (run_bind r (\<lambda>(x, a). Done (f x, a)))"
  by (rule outcome_ok_bind [OF assms]) (auto intro!: serviced_refl dest: serviced_inv)

lemma md_exec_safe: "agent_inv env a \<Longrightarrow> outcome_ok env a snd False (md_exec env g ee j s a)"
  by (cases j) (auto intro!: outcome_ok_state p2p.exec_safe outcome_ok_weaken [OF store.exec_safe] outcome_ok_weaken [OF etcd.exec_safe])

interpretation manager: metadata_transport env False "md_exec env g ee" for env g ee
  by unfold_locales (rule md_exec_safe)

lemma route_cases:
  "route m extra ce x y z =
     (if hasAddress extra then map_prod id (map_option (\<lambda>t. JobP2P (P2PSend ce t))) x
      else case nameBackend m of
        None \<Rightarrow> (noTransport m, None)
      | Some (UseEtcd _) \<Rightarrow> map_prod id (map_option JobEtcd) y
      | Some (UseTcpStore _ _) \<Rightarrow> map_prod id (map_option JobStore) z)"
  by (simp add: route_def md_select_def split: option.splits name_backend.splits)

subsection \<open>The agent's lock\<close>

datatype nixl_thread_sync_t = NIXL_THREAD_SYNC_NONE | NIXL_THREAD_SYNC_STRICT | NIXL_THREAD_SYNC_RW

definition effectiveSyncMode :: "nixl_thread_sync_t \<Rightarrow> bool \<Rightarrow> nixl_thread_sync_t" where
  "effectiveSyncMode requested uses_thread =
     (if uses_thread \<and> requested = NIXL_THREAD_SYNC_NONE then NIXL_THREAD_SYNC_STRICT else requested)"

text \<open>The mutex behind it: who holds it exclusively and how many share it. A call that has to wait is
  \<open>None\<close>.\<close>

record nixl_lock =
  syncMode :: nixl_thread_sync_t
  writers :: nat
  readers :: nat

definition lock_new :: "nixl_thread_sync_t \<Rightarrow> nixl_lock" where
  "lock_new sm = \<lparr>syncMode = sm, writers = 0, readers = 0\<rparr>"

definition lock_free :: "nixl_lock \<Rightarrow> bool" where
  "lock_free l \<longleftrightarrow> syncMode l = NIXL_THREAD_SYNC_NONE \<or> writers l = 0 \<and> readers l = 0"

definition lock_acquire :: "nixl_lock \<Rightarrow> nixl_lock option" where
  "lock_acquire l = (if lock_free l then Some (l\<lparr>writers := writers l + 1\<rparr>) else None)"

definition lock_release :: "nixl_lock \<Rightarrow> nixl_lock" where
  "lock_release l = l\<lparr>writers := writers l - 1\<rparr>"

definition lock_shared :: "nixl_lock \<Rightarrow> nixl_lock option" where
  "lock_shared l =
     (case syncMode l of
        NIXL_THREAD_SYNC_NONE \<Rightarrow> Some (l\<lparr>readers := readers l + 1\<rparr>)
      | NIXL_THREAD_SYNC_STRICT \<Rightarrow> if lock_free l then Some (l\<lparr>readers := readers l + 1\<rparr>) else None
      | NIXL_THREAD_SYNC_RW \<Rightarrow> if writers l = 0 then Some (l\<lparr>readers := readers l + 1\<rparr>) else None)"

definition unlock_shared :: "nixl_lock \<Rightarrow> nixl_lock" where
  "unlock_shared l = l\<lparr>readers := readers l - 1\<rparr>"

inductive lock_step :: "nixl_lock \<Rightarrow> nixl_lock \<Rightarrow> bool" where
  step_lock: "lock_acquire l = Some l' \<Longrightarrow> lock_step l l'"
| step_unlock: "writers l > 0 \<Longrightarrow> lock_step l (lock_release l)"
| step_lock_shared: "lock_shared l = Some l' \<Longrightarrow> lock_step l l'"
| step_unlock_shared: "readers l > 0 \<Longrightarrow> lock_step l (unlock_shared l)"

definition lock_excl :: "nixl_thread_sync_t \<Rightarrow> nixl_lock \<Rightarrow> bool" where
  "lock_excl sm l \<longleftrightarrow> syncMode l = sm \<and>
     (sm \<noteq> NIXL_THREAD_SYNC_NONE \<longrightarrow> writers l \<le> 1 \<and> (writers l = 1 \<longrightarrow> readers l = 0)) \<and>
     (sm = NIXL_THREAD_SYNC_STRICT \<longrightarrow> writers l + readers l \<le> 1)"

interpretation lock_life: invariant_system "\<lambda>l. l = lock_new sm" lock_step "lock_excl sm" for sm
proof
  show "lock_excl sm l" if "l = lock_new sm" for l using that by (simp add: lock_excl_def lock_new_def)
  show "lock_excl sm l'" if "lock_excl sm l" "lock_step l l'" for l l'
    using that(2,1)
    by cases (auto simp: lock_excl_def lock_acquire_def lock_release_def lock_shared_def unlock_shared_def lock_free_def
        split: nixl_thread_sync_t.splits if_splits)
qed


subsection \<open>Properties\<close>


definition ex_md_state :: md_state where
  "ex_md_state = \<lparr>p2pState = [], storeState = ex_store (ex_client None), etcdState = etcd_new ''ns'' ''alice''\<rparr>"


text \<open>Every metadata call goes to the right transport. A call with a peer address queues a send to exactly
  that address, whatever store is configured; without an address it goes to the configured store,
  under the caller's label or the default one; without a store it fails at once, with the error of
  the build, and queues nothing. A manager never has two stores: with both endpoints set its
  construction throws.\<close>

theorem metadata_calls_routed:
  "(hasAddress (Some x) \<longrightarrow> fetchRemoteMD name (Some x) ce now m =
      (NIXL_SUCCESS, Some (JobP2P (P2PSend ce (SendToPeer (ipAddr x) (port x) (comm_tag @ ''SEND'')))))) \<and>
   (\<not> hasAddress extra \<longrightarrow>
      (case nameBackend m of
         Some (UseTcpStore host prt) \<Rightarrow> fetchRemoteMD name extra ce now m =
           (NIXL_SUCCESS, Some (JobStore (StoreFetch name (makeKey (label_of extra) name nixl_null_agent) now)))
       | Some (UseEtcd eps) \<Rightarrow> fetchRemoteMD name extra ce now m = (NIXL_SUCCESS, Some (JobEtcd (EtcdFetch name (label_of extra))))
       | None \<Rightarrow> (\<forall>st. st = (if haveEtcd (mdConfig m) then NIXL_ERR_INVALID_PARAM else NIXL_ERR_NOT_SUPPORTED) \<longrightarrow>
           sendLocalMD env extra ce m a = (st, None) \<and> sendLocalPartialMD env ds extra ce m a = (st, None) \<and>
           fetchRemoteMD name extra ce now m = (st, None) \<and> invalidateLocalMD extra ce m a = (st, None)))) \<and>
   (haveEtcd cfg \<and> etcdEndpoints cfg \<noteq> None \<and> tcpstoreEndpoint cfg \<noteq> None \<longrightarrow> manager_new cfg se le = None)"
  by (auto simp: fetchRemoteMD_def sendLocalMD_def sendLocalPartialMD_def invalidateLocalMD_def route_cases p2p_fetchRemote_def p2p_submit_def
      store_fetchRemote_def etcd_fetchRemote_def noTransport_def manager_new_def makeBackend_def etcdConfigured_def
      split: option.splits name_backend.splits)

definition ex_manager :: md_manager where
  "ex_manager = \<lparr>mdConfig = \<lparr>haveEtcd = True, etcdEndpoints = Some ''http://e:2379'', tcpstoreEndpoint = None, useListenThread = False\<rparr>,
     nameBackend = Some (UseEtcd ''http://e:2379'')\<rparr>"

theorem metadata_calls_routed_witness:
  "fetchRemoteMD ''bob'' (Some (opt_args_default\<lparr>ipAddr := ''10.0.0.2''\<rparr>)) ex_connect 0 ex_manager =
     (NIXL_SUCCESS, Some (JobP2P (P2PSend ex_connect (SendToPeer ''10.0.0.2'' 8888 (comm_tag @ ''SEND''))))) \<and>
   fetchRemoteMD ''bob'' None ex_connect 0 ex_manager = (NIXL_SUCCESS, Some (JobEtcd (EtcdFetch ''bob'' ''metadata'')))"
  using metadata_calls_routed [where x = "opt_args_default\<lparr>ipAddr := ''10.0.0.2''\<rparr>" and extra = None and name = "''bob''"
      and ce = ex_connect and now = 0 and m = ex_manager]
  by (simp add: hasAddress_def opt_args_default_def ex_manager_def label_of_def has_label_def default_metadata_label_def)




end
