(* ===== verification/Nixl_Ring.thy ===== *)
theory Nixl_Ring
  imports Nixl_Prelude
begin

unbundle bit_operations_syntax

text \<open>
  The shared-memory ring buffer through which telemetry leaves the process
  (\<open>src/utils/common/cyclic_buffer.h\<close>, \<open>cyclic_buffer.tpp\<close>): one producer and one consumer, each with a
  cached copy of the other's position. \<open>push\<close> and \<open>pop\<close> are given whole, and again as the steps between
  their accesses to shared memory, which interleave in any order; the release and acquire pairs of
  the source make each such access atomic and ordered. Positions are machine words. Shown: the
  consumer gets exactly the items the producer pushed, in order, and the two never touch a slot at
  the same time.
\<close>

subsection \<open>The operations\<close>

record 'a ring =
  write_pos :: u64
  read_pos :: u64
  ring_mask :: u64
  slots :: "'a list"
  cachedWritePos :: u64
  cachedReadPos :: u64

definition next_pos :: "'a ring \<Rightarrow> u64 \<Rightarrow> u64" where
  "next_pos r p = (p + 1) AND ring_mask r"

definition ring_push :: "'a \<Rightarrow> 'a ring \<Rightarrow> bool \<times> 'a ring" where
  "ring_push x r =
     (let nw = next_pos r (write_pos r);
          r = (if nw = cachedReadPos r then r\<lparr>cachedReadPos := read_pos r\<rparr> else r)
      in if nw = cachedReadPos r then (False, r)
         else (True, r\<lparr>slots := (slots r)[unat (write_pos r) := x], write_pos := nw\<rparr>))"

definition ring_pop :: "'a ring \<Rightarrow> 'a option \<times> 'a ring" where
  "ring_pop r =
     (let r = (if read_pos r = cachedWritePos r then r\<lparr>cachedWritePos := write_pos r\<rparr> else r)
      in if read_pos r = cachedWritePos r then (None, r)
         else (Some (slots r ! unat (read_pos r)), r\<lparr>read_pos := next_pos r (read_pos r)\<rparr>))"

definition ring_size :: "'a ring \<Rightarrow> u64" where
  "ring_size r = (write_pos r - read_pos r) AND ring_mask r"

definition ring_empty :: "'a ring \<Rightarrow> bool" where
  "ring_empty r \<longleftrightarrow> read_pos r = write_pos r"

definition ring_full :: "'a ring \<Rightarrow> bool" where
  "ring_full r \<longleftrightarrow> next_pos r (write_pos r) = read_pos r"

subsection \<open>The file behind it\<close>

definition header_bytes :: u64 where
  "header_bytes = 512"

definition getTotalSize :: "u64 \<Rightarrow> u64 \<Rightarrow> u64" where
  "getTotalSize item_size n = header_bytes + item_size * n"

text \<open>\<open>None\<close> is the thrown error.\<close>

definition header_mask :: "u64 \<Rightarrow> u64 option" where
  "header_mask n = (if n AND (n - 1) \<noteq> 0 then None else Some (n - 1))"

record ring_file =
  f_size :: u64
  f_version :: int
  f_capacity :: u64
  f_mask :: u64
  f_write :: u64
  f_read :: u64

definition compatible :: "u64 \<Rightarrow> u64 \<Rightarrow> int \<Rightarrow> ring_file \<Rightarrow> bool" where
  "compatible item_size n version f \<longleftrightarrow>
     f_size f = getTotalSize item_size n \<and> f_version f = version \<and> f_capacity f = n \<and> f_mask f = n - 1 \<and>
     f_write f \<le> f_mask f \<and> f_read f \<le> f_mask f"

datatype file_action_t = CREATE | REUSE | RESET | REPLACE

datatype probe = ProbeLocked | ProbeFree | ProbeError

text \<open>What becomes of the file: there may be none; one that cannot be examined (\<open>None\<close> inside) is
  replaced; \<open>pr\<close> is what trying the consumer's lock shows.\<close>

definition file_action :: "u64 \<Rightarrow> u64 \<Rightarrow> int \<Rightarrow> probe \<Rightarrow> ring_file option option \<Rightarrow> file_action_t" where
  "file_action item_size n version pr existing =
     (case existing of
        None \<Rightarrow> CREATE
      | Some None \<Rightarrow> REPLACE
      | Some (Some f) \<Rightarrow>
          if \<not> compatible item_size n version f then REPLACE
          else case pr of ProbeLocked \<Rightarrow> REUSE | ProbeFree \<Rightarrow> RESET | ProbeError \<Rightarrow> REPLACE)"

text \<open>The producer's view after it opened the buffer; \<open>contents\<close> are the slots of a reused file. The
  calls that can fail are arguments; a missing file is not a failure of the look-up.\<close>

record create_env =
  cr_lookup :: bool
  cr_unlink :: bool
  cr_open :: bool
  cr_truncate :: bool
  cr_map :: bool

definition createCyclicBuffer :: "create_env \<Rightarrow> u64 \<Rightarrow> u64 \<Rightarrow> int \<Rightarrow> probe \<Rightarrow> ring_file option option \<Rightarrow> 'a list \<Rightarrow> 'a ring option" where
  "createCyclicBuffer ce item_size n version pr existing contents =
     (if n = 0 then None
      else if \<not> cr_lookup ce then None
      else let act = file_action item_size n version pr existing
           in if act = REPLACE \<and> \<not> cr_unlink ce then None
              else if act \<in> {CREATE, REPLACE} \<and> \<not> cr_open ce then None
              else if \<not> cr_truncate ce then None
              else if \<not> cr_map ce then None
              else if act = REUSE
              then let f = the (the existing)
                   in Some \<lparr>write_pos = f_write f, read_pos = f_read f, ring_mask = f_mask f, slots = contents,
                            cachedWritePos = f_write f, cachedReadPos = f_read f\<rparr>
              else map_option (\<lambda>m. \<lparr>write_pos = 0, read_pos = 0, ring_mask = m, slots = contents, cachedWritePos = 0, cachedReadPos = 0\<rparr>)
                     (header_mask n))"

text \<open>The consumer's view: it takes the capacity from the file. There is none when the file cannot be opened
  or examined.\<close>

definition openCyclicBuffer :: "bool \<Rightarrow> bool \<Rightarrow> u64 \<Rightarrow> int \<Rightarrow> ring_file option \<Rightarrow> 'a list \<Rightarrow> 'a ring option" where
  "openCyclicBuffer map_header map_all item_size version existing contents =
     (case existing of
        None \<Rightarrow> None
      | Some f \<Rightarrow>
          if f_size f < header_bytes then None
          else if \<not> map_header then None
          else if f_version f \<noteq> version then None
          else if f_size f < getTotalSize item_size (f_capacity f) then None
          else if \<not> map_all then None
          else Some \<lparr>write_pos = f_write f, read_pos = f_read f, ring_mask = f_mask f, slots = contents,
                     cachedWritePos = f_write f, cachedReadPos = f_read f\<rparr>)"

subsection \<open>Interleaved steps\<close>

datatype 'a producer = PIdle | PLoad 'a | PWrite 'a | PStore 'a

datatype 'a consumer = CIdle | CLoad | CRead | CStore 'a

text \<open>Besides the ring and the two threads' positions in their code, the state keeps what was pushed and
  popped so far and how much of it each cached position stands for.\<close>

record 'a ring_sys =
  ring :: "'a ring"
  producer :: "'a producer"
  consumer :: "'a consumer"
  pushed :: "'a list"
  popped :: "'a list"
  seen_popped :: nat
  seen_pushed :: nat

definition push_begin :: "'a \<Rightarrow> 'a ring_sys \<Rightarrow> 'a ring_sys" where
  "push_begin x s =
     s\<lparr>producer := (if next_pos (ring s) (write_pos (ring s)) = cachedReadPos (ring s) then PLoad x else PWrite x)\<rparr>"

definition push_load :: "'a \<Rightarrow> 'a ring_sys \<Rightarrow> 'a ring_sys" where
  "push_load x s =
     s\<lparr>ring := (ring s)\<lparr>cachedReadPos := read_pos (ring s)\<rparr>, seen_popped := length (popped s),
       producer := (if next_pos (ring s) (write_pos (ring s)) = read_pos (ring s) then PIdle else PWrite x)\<rparr>"

definition push_write :: "'a \<Rightarrow> 'a ring_sys \<Rightarrow> 'a ring_sys" where
  "push_write x s = s\<lparr>ring := (ring s)\<lparr>slots := (slots (ring s))[unat (write_pos (ring s)) := x]\<rparr>, producer := PStore x\<rparr>"

definition push_store :: "'a \<Rightarrow> 'a ring_sys \<Rightarrow> 'a ring_sys" where
  "push_store x s =
     s\<lparr>ring := (ring s)\<lparr>write_pos := next_pos (ring s) (write_pos (ring s))\<rparr>, producer := PIdle, pushed := pushed s @ [x]\<rparr>"

definition pop_begin :: "'a ring_sys \<Rightarrow> 'a ring_sys" where
  "pop_begin s = s\<lparr>consumer := (if read_pos (ring s) = cachedWritePos (ring s) then CLoad else CRead)\<rparr>"

definition pop_load :: "'a ring_sys \<Rightarrow> 'a ring_sys" where
  "pop_load s =
     s\<lparr>ring := (ring s)\<lparr>cachedWritePos := write_pos (ring s)\<rparr>, seen_pushed := length (pushed s),
       consumer := (if read_pos (ring s) = write_pos (ring s) then CIdle else CRead)\<rparr>"

definition pop_read :: "'a ring_sys \<Rightarrow> 'a ring_sys" where
  "pop_read s = s\<lparr>consumer := CStore (slots (ring s) ! unat (read_pos (ring s)))\<rparr>"

definition pop_store :: "'a \<Rightarrow> 'a ring_sys \<Rightarrow> 'a ring_sys" where
  "pop_store x s =
     s\<lparr>ring := (ring s)\<lparr>read_pos := next_pos (ring s) (read_pos (ring s))\<rparr>, consumer := CIdle, popped := popped s @ [x]\<rparr>"

inductive ring_step :: "'a ring_sys \<Rightarrow> 'a ring_sys \<Rightarrow> bool" where
  "producer s = PIdle \<Longrightarrow> ring_step s (push_begin x s)"
| "producer s = PLoad x \<Longrightarrow> ring_step s (push_load x s)"
| "producer s = PWrite x \<Longrightarrow> ring_step s (push_write x s)"
| "producer s = PStore x \<Longrightarrow> ring_step s (push_store x s)"
| "consumer s = CIdle \<Longrightarrow> ring_step s (pop_begin s)"
| "consumer s = CLoad \<Longrightarrow> ring_step s (pop_load s)"
| "consumer s = CRead \<Longrightarrow> ring_step s (pop_read s)"
| "consumer s = CStore x \<Longrightarrow> ring_step s (pop_store x s)"

subsection \<open>Positions\<close>

lemma unat_next:
  assumes "ring_mask r = 2 ^ k - 1" and "k < 64" and "unat p = x mod 2 ^ k"
  shows "unat (next_pos r p) = Suc x mod 2 ^ k"
proof -
  have lt: "unat p < 2 ^ k" using assms(3) by simp
  have "(2 :: nat) ^ k \<le> 2 ^ 63" using assms(2) by (intro power_increasing) auto
  then have "unat (p + 1) = Suc (unat p)" using lt by (simp add: unat_add_lem [THEN iffD1])
  moreover have "next_pos r p = take_bit k (p + 1)" by (simp only: next_pos_def assms(1) take_bit_eq_mask mask_eq_decr_exp)
  ultimately have "unat (next_pos r p) = Suc (x mod 2 ^ k) mod 2 ^ k"
    using assms(3) by (simp only: unsigned_take_bit_eq) (simp add: take_bit_eq_mod)
  then show ?thesis by (simp add: mod_Suc_eq)
qed

lemma mod_near:
  assumes "a \<le> c" and "c < a + n"
  shows "c mod n = a mod n \<longleftrightarrow> c = (a :: nat)"
proof
  assume "c mod n = a mod n"
  then have "n dvd c - a" using assms(1) mod_eq_dvd_iff_nat by blast
  moreover have "c - a < n" using assms by simp
  ultimately have "c - a = 0" using nat_dvd_not_less [of "c - a" n] by (cases "c - a = 0") auto
  then show "c = a" using assms(1) by simp
qed simp

lemma mod_far:
  assumes "a < c" and "c \<le> a + n"
  shows "c mod n = a mod n \<longleftrightarrow> c = a + (n :: nat)"
  using mod_near [of a c n] assms by (cases "c = a + n") auto

subsection \<open>The invariant\<close>

text \<open>\<open>b\<close> is the read position at the start, \<open>2 ^ k\<close> the capacity.\<close>

definition ring_inv :: "nat \<Rightarrow> nat \<Rightarrow> 'a ring_sys \<Rightarrow> bool" where
  "ring_inv b k s \<longleftrightarrow>
     ring_mask (ring s) = 2 ^ k - 1 \<and> length (slots (ring s)) = 2 ^ k \<and>
     unat (write_pos (ring s)) = (b + length (pushed s)) mod 2 ^ k \<and> unat (read_pos (ring s)) = (b + length (popped s)) mod 2 ^ k \<and>
     unat (cachedReadPos (ring s)) = (b + seen_popped s) mod 2 ^ k \<and> unat (cachedWritePos (ring s)) = (b + seen_pushed s) mod 2 ^ k \<and>
     seen_popped s \<le> length (popped s) \<and> length (popped s) \<le> seen_pushed s \<and> seen_pushed s \<le> length (pushed s) \<and>
     length (pushed s) < seen_popped s + 2 ^ k \<and>
     popped s = take (length (popped s)) (pushed s) \<and>
     (\<forall>m. length (popped s) \<le> m \<and> m < length (pushed s) \<longrightarrow> slots (ring s) ! ((b + m) mod 2 ^ k) = pushed s ! m) \<and>
     (case producer s of
        PWrite x \<Rightarrow> Suc (length (pushed s)) < seen_popped s + 2 ^ k
      | PStore x \<Rightarrow> Suc (length (pushed s)) < seen_popped s + 2 ^ k \<and> slots (ring s) ! ((b + length (pushed s)) mod 2 ^ k) = x
      | _ \<Rightarrow> True) \<and>
     (case consumer s of
        CRead \<Rightarrow> length (popped s) < seen_pushed s
      | CStore x \<Rightarrow> length (popped s) < seen_pushed s \<and> x = pushed s ! length (popped s)
      | _ \<Rightarrow> True)"

definition ring_start :: "nat \<Rightarrow> nat \<Rightarrow> 'a ring_sys \<Rightarrow> bool" where
  "ring_start b k s \<longleftrightarrow> ring_inv b k s \<and> producer s = PIdle \<and> consumer s = CIdle \<and> popped s = []"

lemma push_next_eq:
  assumes "ring_inv b k s" and "k < 64" and "unat p = (b + j) mod 2 ^ k" and "j \<le> length (pushed s)" and "length (pushed s) < j + 2 ^ k"
  shows "next_pos (ring s) (write_pos (ring s)) = p \<longleftrightarrow> Suc (length (pushed s)) = j + 2 ^ k"
proof -
  have "unat (next_pos (ring s) (write_pos (ring s))) = (b + Suc (length (pushed s))) mod 2 ^ k"
    using unat_next [of "ring s" k "write_pos (ring s)" "b + length (pushed s)"] assms(1,2) by (simp add: ring_inv_def)
  then show ?thesis
    using assms(3-5) mod_far [of "b + j" "b + Suc (length (pushed s))" "2 ^ k"] by (simp add: word_unat_eq_iff)
qed

lemma pop_pos_eq:
  assumes "ring_inv b k s" and "unat p = (b + i) mod 2 ^ k" and "length (popped s) \<le> i" and "i < length (popped s) + 2 ^ k"
  shows "read_pos (ring s) = p \<longleftrightarrow> i = length (popped s)"
  using assms mod_near [of "b + length (popped s)" "b + i" "2 ^ k"] by (auto simp: ring_inv_def word_unat_eq_iff)

lemma push_begin_inv:
  assumes "ring_inv b k s" and "k < 64" and "producer s = PIdle"
  shows "ring_inv b k (push_begin x s)"
  using push_next_eq [OF assms(1,2), of "cachedReadPos (ring s)" "seen_popped s"] assms(1,3)
  by (auto simp: ring_inv_def push_begin_def split: consumer.splits)

lemma push_load_inv:
  assumes "ring_inv b k s" and "k < 64" and "producer s = PLoad x"
  shows "ring_inv b k (push_load x s)"
  using push_next_eq [OF assms(1,2), of "read_pos (ring s)" "length (popped s)"] assms(1,3)
  by (auto simp: ring_inv_def push_load_def split: consumer.splits)

lemma slot_kept:
  assumes "ring_inv b k s" and "length (popped s) \<le> m" and "m < length (pushed s)"
  shows "(b + m) mod 2 ^ k \<noteq> (b + length (pushed s)) mod 2 ^ k"
  using assms mod_near [of "b + m" "b + length (pushed s)" "2 ^ k"] by (auto simp: ring_inv_def)

lemma push_write_inv:
  assumes "ring_inv b k s" and "producer s = PWrite x"
  shows "ring_inv b k (push_write x s)"
proof -
  let ?new = "(slots (ring s))[unat (write_pos (ring s)) := x]"
  have "?new ! ((b + m) mod 2 ^ k) = slots (ring s) ! ((b + m) mod 2 ^ k)" if "length (popped s) \<le> m" "m < length (pushed s)" for m
    using slot_kept [OF assms(1) that] assms(1) by (simp add: ring_inv_def)
  moreover have "?new ! ((b + length (pushed s)) mod 2 ^ k) = x" using assms(1) by (simp add: ring_inv_def)
  ultimately show ?thesis using assms by (simp add: ring_inv_def push_write_def split: consumer.splits)
qed

lemma push_store_inv:
  assumes "ring_inv b k s" and "k < 64" and "producer s = PStore x"
  shows "ring_inv b k (push_store x s)"
  using assms unat_next [of "ring s" k "write_pos (ring s)" "b + length (pushed s)"]
  by (auto simp: ring_inv_def push_store_def next_pos_def nth_append less_Suc_eq split: consumer.splits)

lemma pop_begin_inv:
  assumes "ring_inv b k s" and "consumer s = CIdle"
  shows "ring_inv b k (pop_begin s)"
  using pop_pos_eq [OF assms(1), of "cachedWritePos (ring s)" "seen_pushed s"] assms
  by (auto simp: ring_inv_def pop_begin_def split: producer.splits)

lemma pop_load_inv:
  assumes "ring_inv b k s" and "consumer s = CLoad"
  shows "ring_inv b k (pop_load s)"
  using pop_pos_eq [OF assms(1), of "write_pos (ring s)" "length (pushed s)"] assms
  by (auto simp: ring_inv_def pop_load_def split: producer.splits)

lemma pop_read_inv: "ring_inv b k s \<Longrightarrow> consumer s = CRead \<Longrightarrow> ring_inv b k (pop_read s)"
  by (auto simp: ring_inv_def pop_read_def split: producer.splits)

lemma pop_store_inv:
  assumes "ring_inv b k s" and "k < 64" and "consumer s = CStore x"
  shows "ring_inv b k (pop_store x s)"
  using assms unat_next [of "ring s" k "read_pos (ring s)" "b + length (popped s)"]
  by (auto simp: ring_inv_def pop_store_def next_pos_def take_Suc_conv_app_nth split: producer.splits)


interpretation ring_life: invariant_system "\<lambda>s. k < 64 \<and> ring_start b k s" ring_step "\<lambda>s. k < 64 \<and> ring_inv b k s" for b k
proof
  show "k < 64 \<and> ring_inv b k s" if "k < 64 \<and> ring_start b k s" for s using that by (simp add: ring_start_def)
  show "k < 64 \<and> ring_inv b k t" if "k < 64 \<and> ring_inv b k s" "ring_step s t" for s t
    using that(2,1)
    by cases (auto intro: push_begin_inv push_load_inv push_write_inv push_store_inv pop_begin_inv pop_load_inv pop_read_inv pop_store_inv)
qed

subsection \<open>The steps are the operations\<close>

text \<open>Without a step of the other side in between, the steps of one call give the call.\<close>

definition run_push :: "'a \<Rightarrow> 'a ring_sys \<Rightarrow> 'a ring_sys" where
  "run_push x s =
     (let s = push_begin x s; s = (if producer s = PLoad x then push_load x s else s)
      in if producer s = PIdle then s else push_store x (push_write x s))"

definition run_pop :: "'a ring_sys \<Rightarrow> 'a ring_sys" where
  "run_pop s =
     (let s = pop_begin s; s = (if consumer s = CLoad then pop_load s else s)
      in if consumer s = CIdle then s else pop_store (slots (ring s) ! unat (read_pos (ring s))) (pop_read s))"

lemma run_push_ring:
  "ring (run_push x s) = snd (ring_push x (ring s)) \<and> pushed (run_push x s) = pushed s @ (if fst (ring_push x (ring s)) then [x] else [])"
  by (simp add: run_push_def ring_push_def push_begin_def push_load_def push_write_def push_store_def next_pos_def Let_def)

lemma run_pop_ring:
  "ring (run_pop s) = snd (ring_pop (ring s)) \<and>
   popped (run_pop s) = popped s @ (case fst (ring_pop (ring s)) of None \<Rightarrow> [] | Some x \<Rightarrow> [x])"
  by (simp add: run_pop_def ring_pop_def pop_begin_def pop_load_def pop_read_def pop_store_def next_pos_def Let_def)

subsection \<open>Attaching\<close>

text \<open>The items of a buffer that were not read yet, and the system that starts from it.\<close>

definition unread :: "'a ring \<Rightarrow> 'a list" where
  "unread r = map (\<lambda>i. slots r ! ((unat (read_pos r) + i) mod length (slots r))) [0..<unat (ring_size r)]"

definition ring_attach :: "'a ring \<Rightarrow> 'a ring_sys" where
  "ring_attach r =
     \<lparr>ring = r, producer = PIdle, consumer = CIdle, pushed = unread r, popped = [], seen_popped = 0, seen_pushed = length (unread r)\<rparr>"

lemma unat_and_mask: "k < 64 \<Longrightarrow> unat ((w :: u64) AND (2 ^ k - 1)) = unat w mod 2 ^ k"
  by (simp only: mask_eq_decr_exp [symmetric] take_bit_eq_mask [symmetric] unsigned_take_bit_eq) (simp add: take_bit_eq_mod)

lemma size_gap:
  assumes "k < 64" and "unat (w :: u64) < 2 ^ k"
  shows "(unat r + unat ((w - r) AND (2 ^ k - 1))) mod 2 ^ k = unat w"
proof -
  have "unat w = take_bit 64 (unat r + unat (w - r))" using unat_word_ariths(1) [of r "w - r"] by (simp add: take_bit_eq_mod)
  then have "take_bit k (unat w) = take_bit k (unat r + unat (w - r))" using assms(1) by (simp add: min_def)
  moreover have "take_bit k (unat w) = unat w" using assms(2) by (simp add: take_bit_nat_eq_self)
  ultimately show ?thesis using assms(1) by (simp add: unat_and_mask take_bit_eq_mod mod_add_right_eq)
qed

lemma attach_start:
  assumes "k < 64" and "ring_mask r = 2 ^ k - 1" and "length (slots r) = 2 ^ k" and "unat (write_pos r) < 2 ^ k" and "unat (read_pos r) < 2 ^ k"
    and "cachedWritePos r = write_pos r" and "cachedReadPos r = read_pos r"
  shows "ring_start (unat (read_pos r)) k (ring_attach r)"
  using assms size_gap [OF assms(1,4), of "read_pos r"]
  by (simp add: ring_start_def ring_inv_def ring_attach_def unread_def ring_size_def unat_and_mask)

lemma header_mask_pow: "k < 64 \<Longrightarrow> header_mask (2 ^ k) = Some (2 ^ k - 1)"
proof -
  assume "k < 64"
  have "(2 :: u64) ^ k AND (2 ^ k - 1) = take_bit k (2 ^ k)" by (simp only: take_bit_eq_mask mask_eq_decr_exp)
  also have "\<dots> = 0" by (simp add: take_bit_eq_mod)
  finally show ?thesis by (simp add: header_mask_def)
qed

lemma create_start:
  assumes "createCyclicBuffer ce isz (2 ^ k) version pr existing contents = Some r" and "k < 64" and "length contents = 2 ^ k"
  shows "ring_start (unat (read_pos r)) k (ring_attach r)"
proof (cases "file_action isz (2 ^ k) version pr existing = REUSE")
  case True
  then obtain f where f: "existing = Some (Some f)" "compatible isz (2 ^ k) version f"
    by (auto simp: file_action_def split: option.splits if_splits)
  have "unat ((2 :: u64) ^ k - 1) < 2 ^ k" using unat_and_mask [OF assms(2), of "- 1"] by simp
  then have "unat (f_write f) < 2 ^ k" "unat (f_read f) < 2 ^ k"
    using f(2) by (auto simp: compatible_def word_le_nat_alt)
  then show ?thesis using assms True f
    by (intro attach_start) (auto simp: createCyclicBuffer_def Let_def compatible_def split: if_splits)
next
  case False
  then show ?thesis using assms
    by (intro attach_start) (auto simp: createCyclicBuffer_def Let_def header_mask_pow split: if_splits)
qed


lemma size_inv:
  assumes "ring_inv b k s" and "k < 64"
  shows "unat (ring_size (ring s)) = length (pushed s) - length (popped s)"
proof -
  let ?w = "write_pos (ring s)" and ?r = "read_pos (ring s)" and ?n = "unat (ring_size (ring s))"
  have "?n < 2 ^ k" using assms by (simp add: ring_size_def ring_inv_def unat_and_mask)
  moreover have "(unat ?r + ?n) mod 2 ^ k = unat ?w"
    using size_gap [OF assms(2), of ?w ?r] assms(1) by (simp add: ring_size_def ring_inv_def)
  then have "(b + length (popped s) + ?n) mod 2 ^ k = (b + length (pushed s)) mod 2 ^ k"
    using assms(1) by (simp add: ring_inv_def mod_add_left_eq)
  moreover have "length (popped s) \<le> length (pushed s)" "length (pushed s) < length (popped s) + 2 ^ k"
    using assms(1) by (auto simp: ring_inv_def)
  ultimately show ?thesis
    using mod_near [of "b + length (popped s) + ?n" "b + length (pushed s)" "2 ^ k"]
      mod_near [of "b + length (pushed s)" "b + length (popped s) + ?n" "2 ^ k"]
    by (cases "length (popped s) + ?n \<le> length (pushed s)") auto
qed

subsection \<open>Properties\<close>

text \<open>C14: The ring is a queue under concurrency. From a buffer that was created, or taken over with the unread
  items of an earlier producer, in every interleaving of the accesses of one producer and one
  consumer: what was popped is a prefix of the items unread at the start followed by those pushed;
  fewer items than the capacity are waiting and \<open>size\<close> is their number; and the producer never writes
  the slot the consumer reads.\<close>

theorem ring_is_fifo:
  assumes "createCyclicBuffer ce isz (2 ^ k) version pr existing contents = Some r" and "k < 64" and "length contents = 2 ^ k"
    and "reach (\<lambda>s. s = ring_attach r) ring_step s"
  shows "popped s = take (length (popped s)) (pushed s) \<and>
    unat (ring_size (ring s)) = length (pushed s) - length (popped s) \<and> length (pushed s) - length (popped s) < 2 ^ k \<and>
    (\<forall>x. producer s = PWrite x \<and> consumer s = CRead \<longrightarrow> write_pos (ring s) \<noteq> read_pos (ring s))"
proof -
  let ?b = "unat (read_pos r)"
  have "reach (\<lambda>s. k < 64 \<and> ring_start ?b k s) ring_step s"
    using assms(4)
  proof induction
    case (reach_start s)
    then show ?case using create_start [OF assms(1-3)] assms(2) by (auto intro: reach.reach_start)
  next
    case (reach_step s t)
    then show ?case by (blast intro: reach.reach_step)
  qed
  then have inv: "ring_inv ?b k s" using ring_life.reach_inv by blast
  have "write_pos (ring s) \<noteq> read_pos (ring s)" if "consumer s = CRead"
    using pop_pos_eq [OF inv, of "write_pos (ring s)" "length (pushed s)"] inv that by (auto simp: ring_inv_def)
  with inv size_inv [OF inv assms(2)] show ?thesis by (auto simp: ring_inv_def)
qed

definition ex_ring :: "u64 \<Rightarrow> u64 \<Rightarrow> char list \<Rightarrow> char ring" where
  "ex_ring w r cs = \<lparr>write_pos = w, read_pos = r, ring_mask = 1, slots = cs, cachedWritePos = 0, cachedReadPos = 0\<rparr>"

definition ex_sys :: "char ring \<Rightarrow> char producer \<Rightarrow> char consumer \<Rightarrow> string \<Rightarrow> char ring_sys" where
  "ex_sys r p c xs = \<lparr>ring = r, producer = p, consumer = c, pushed = xs, popped = [], seen_popped = 0, seen_pushed = 0\<rparr>"

theorem ring_is_fifo_witness:
  "\<exists>s. reach (\<lambda>s. s = ring_attach (ex_ring 0 0 ''--'')) ring_step s \<and> pushed s = ''a'' \<and> popped s = [] \<and> unat (ring_size (ring s)) = 1"
proof -
  let ?st = "\<lambda>s. s = ring_attach (ex_ring 0 0 ''--'')"
  note step = reach_step [where start = ?st and step = ring_step]
  have "ring_attach (ex_ring 0 0 ''--'') = ex_sys (ex_ring 0 0 ''--'') PIdle CIdle []"
    by (simp add: ring_attach_def ex_ring_def ex_sys_def unread_def ring_size_def)
  then have r0: "reach ?st ring_step (ex_sys (ex_ring 0 0 ''--'') PIdle CIdle [])" by (intro reach_start) simp
  have s1: "ring_step (ex_sys (ex_ring 0 0 ''--'') PIdle CIdle []) (ex_sys (ex_ring 0 0 ''--'') (PWrite CHR ''a'') CIdle [])"
    using ring_step.intros(1) [of "ex_sys (ex_ring 0 0 ''--'') PIdle CIdle []" "CHR ''a''"]
    by (simp add: push_begin_def ex_sys_def ex_ring_def next_pos_def)
  have s2: "ring_step (ex_sys (ex_ring 0 0 ''--'') (PWrite CHR ''a'') CIdle []) (ex_sys (ex_ring 0 0 ''a-'') (PStore CHR ''a'') CIdle [])"
    using ring_step.intros(3) [of "ex_sys (ex_ring 0 0 ''--'') (PWrite CHR ''a'') CIdle []" "CHR ''a''"]
    by (simp add: push_write_def ex_sys_def ex_ring_def)
  have s3: "ring_step (ex_sys (ex_ring 0 0 ''a-'') (PStore CHR ''a'') CIdle []) (ex_sys (ex_ring 1 0 ''a-'') PIdle CIdle ''a'')"
    using ring_step.intros(4) [of "ex_sys (ex_ring 0 0 ''a-'') (PStore CHR ''a'') CIdle []" "CHR ''a''"]
    by (simp add: push_store_def ex_sys_def ex_ring_def next_pos_def)
  have r: "reach ?st ring_step (ex_sys (ex_ring 1 0 ''a-'') PIdle CIdle ''a'')" by (rule step [OF step [OF step [OF r0 s1] s2] s3])
  have c: "createCyclicBuffer \<lparr>cr_lookup = True, cr_unlink = True, cr_open = True, cr_truncate = True, cr_map = True\<rparr> 16 (2 ^ 1) 1 ProbeFree None ''--'' =
    Some (ex_ring 0 0 ''--'')"
    by (simp add: createCyclicBuffer_def file_action_def header_mask_def ex_ring_def)
  from ring_is_fifo [OF c _ _ r] have "unat (ring_size (ring (ex_sys (ex_ring 1 0 ''a-'') PIdle CIdle ''a''))) = 1"
    by (simp add: ex_sys_def)
  with r show ?thesis by (intro exI [of _ "ex_sys (ex_ring 1 0 ''a-'') PIdle CIdle ''a''"]) (simp add: ex_sys_def)
qed

end
