(* ===== verification/Nixl_BlockingQueue.thy ===== *)
theory Nixl_BlockingQueue
  imports Nixl_Prelude
begin

text \<open>
  The intrusive queue between threads (\<open>src/utils/common/blocking_queue.h\<close>). Items carry the link to
  the next one, and the queue holds a pointer to the first item and a pointer to the link that the
  next push overwrites: that of the last item, or the queue's own head. The links are kept in an
  explicit store, because the two pointers alias. Each operation is one section under the mutex.
  Shown: the store always represents a list, push appends to it and pop takes its head, so items come
  out in the order in which they went in, each as often as it was pushed.
\<close>

subsection \<open>The operations\<close>

type_synonym item_ptr = nat

datatype link = HeadLink | NextLink item_ptr

record blockingQueue =
  bq_head :: "item_ptr option"
  bq_ptail :: link
  bq_next :: "item_ptr \<Rightarrow> item_ptr option"

definition bq_init :: "(item_ptr \<Rightarrow> item_ptr option) \<Rightarrow> blockingQueue" where
  "bq_init links = \<lparr>bq_head = None, bq_ptail = HeadLink, bq_next = links\<rparr>"

definition write_link :: "link \<Rightarrow> item_ptr option \<Rightarrow> blockingQueue \<Rightarrow> blockingQueue" where
  "write_link l v q =
     (case l of
        HeadLink \<Rightarrow> q\<lparr>bq_head := v\<rparr>
      | NextLink i \<Rightarrow> q\<lparr>bq_next := (bq_next q)(i := v)\<rparr>)"

definition bq_push :: "item_ptr \<Rightarrow> blockingQueue \<Rightarrow> blockingQueue" where
  "bq_push item q =
     (let q = q\<lparr>bq_next := (bq_next q)(item := None)\<rparr>;
          q = write_link (bq_ptail q) (Some item) q
      in q\<lparr>bq_ptail := NextLink item\<rparr>)"

definition popLocked :: "blockingQueue \<Rightarrow> item_ptr option \<times> blockingQueue" where
  "popLocked q =
     (case bq_head q of
        None \<Rightarrow> (None, q)
      | Some item \<Rightarrow>
          let q = q\<lparr>bq_head := bq_next q item\<rparr>
          in (Some item, if bq_ptail q = NextLink item then q\<lparr>bq_ptail := HeadLink\<rparr> else q))"

definition tryPop :: "blockingQueue \<Rightarrow> item_ptr option \<times> blockingQueue" where
  "tryPop q = popLocked q"

text \<open>The waiting pops return once the queue is not empty, or a stop is requested, or the time is
  over. The wait leaves the queue alone; \<open>None\<close> is a pop that is still waiting.\<close>

definition pop_wait :: "bool \<Rightarrow> blockingQueue \<Rightarrow> (item_ptr option \<times> blockingQueue) option" where
  "pop_wait stop_requested q =
     (if bq_head q \<noteq> None \<or> stop_requested then Some (popLocked q) else None)"

definition pop_wait_for :: "bool \<Rightarrow> bool \<Rightarrow> blockingQueue \<Rightarrow> (item_ptr option \<times> blockingQueue) option" where
  "pop_wait_for stop_requested timed_out q =
     (if bq_head q \<noteq> None \<or> stop_requested \<or> timed_out then Some (popLocked q) else None)"

subsection \<open>The list in the store\<close>

fun linked :: "(item_ptr \<Rightarrow> item_ptr option) \<Rightarrow> item_ptr option \<Rightarrow> item_ptr list \<Rightarrow> bool" where
  "linked nx h [] \<longleftrightarrow> h = None"
| "linked nx h (x # xs) \<longleftrightarrow> h = Some x \<and> linked nx (nx x) xs"

definition represents :: "blockingQueue \<Rightarrow> item_ptr list \<Rightarrow> bool" where
  "represents q xs \<longleftrightarrow>
     linked (bq_next q) (bq_head q) xs \<and> distinct xs \<and>
     bq_ptail q = (if xs = [] then HeadLink else NextLink (last xs))"

lemma linked_update_other: "i \<notin> set xs \<Longrightarrow> linked (nx(i := v)) h xs = linked nx h xs"
  by (induction xs arbitrary: h) auto

lemma linked_unique: "linked nx h xs \<Longrightarrow> linked nx h ys \<Longrightarrow> xs = ys"
proof (induction xs arbitrary: h ys)
  case Nil
  then show ?case by (cases ys) auto
next
  case (Cons x xs)
  then show ?case by (cases ys) auto
qed

lemma linked_snoc:
  "linked nx h xs \<Longrightarrow> xs \<noteq> [] \<Longrightarrow> distinct xs \<Longrightarrow> y \<notin> set xs \<Longrightarrow>
     linked (nx(y := None, last xs := Some y)) h (xs @ [y])"
proof (induction xs arbitrary: h)
  case (Cons x xs)
  show ?case
  proof (cases "xs = []")
    case True
    then show ?thesis using Cons.prems by auto
  next
    case False
    moreover have "x \<noteq> last xs" "x \<noteq> y" using Cons.prems False by auto
    ultimately show ?thesis using Cons by simp
  qed
qed simp

lemma represents_init: "represents (bq_init links) []"
  by (simp add: represents_def bq_init_def)

lemma represents_unique: "represents q xs \<Longrightarrow> represents q ys \<Longrightarrow> xs = ys"
  by (auto simp: represents_def intro: linked_unique)

lemma represents_push:
  assumes "represents q xs" "x \<notin> set xs"
  shows "represents (bq_push x q) (xs @ [x])"
proof (cases "xs = []")
  case True
  then show ?thesis using assms by (simp add: represents_def bq_push_def write_link_def)
next
  case False
  then show ?thesis
    using assms linked_snoc [of "bq_next q" "bq_head q" xs x]
    by (simp add: represents_def bq_push_def write_link_def)
qed

lemma represents_pop:
  assumes "represents q xs"
  shows "represents (snd (popLocked q)) (tl xs)"
    and "fst (popLocked q) = (case xs of [] \<Rightarrow> None | x # _ \<Rightarrow> Some x)"
proof -
  have "represents (snd (popLocked q)) (tl xs) \<and>
    fst (popLocked q) = (case xs of [] \<Rightarrow> None | x # _ \<Rightarrow> Some x)"
  proof (cases xs)
    case Nil
    then show ?thesis using assms by (simp add: represents_def popLocked_def)
  next
    case (Cons x t)
    moreover have "last t \<noteq> x" if "t \<noteq> []"
      using assms Cons that by (auto simp: represents_def)
    ultimately show ?thesis
      using assms by (auto simp: represents_def popLocked_def Let_def)
  qed
  then show "represents (snd (popLocked q)) (tl xs)"
    and "fst (popLocked q) = (case xs of [] \<Rightarrow> None | x # _ \<Rightarrow> Some x)" by blast+
qed

subsection \<open>Threads\<close>

text \<open>Any number of threads push and pop. The state records the items pushed and popped so far; an item
  is pushed only while it is not queued, as the interface requires.\<close>

record bq_state =
  bq_queue :: blockingQueue
  bq_pushed :: "item_ptr list"
  bq_popped :: "item_ptr list"

definition bq_queued :: "bq_state \<Rightarrow> item_ptr list" where
  "bq_queued s = drop (length (bq_popped s)) (bq_pushed s)"

definition bq_took :: "item_ptr option \<times> blockingQueue \<Rightarrow> bq_state \<Rightarrow> bq_state" where
  "bq_took r s =
     s\<lparr>bq_queue := snd r,
       bq_popped := bq_popped s @ (case fst r of None \<Rightarrow> [] | Some x \<Rightarrow> [x])\<rparr>"

inductive bq_step :: "bq_state \<Rightarrow> bq_state \<Rightarrow> bool" where
  bqs_push: "x \<notin> set (bq_queued s) \<Longrightarrow>
    bq_step s (s\<lparr>bq_queue := bq_push x (bq_queue s), bq_pushed := bq_pushed s @ [x]\<rparr>)"
| bqs_tryPop: "bq_step s (bq_took (tryPop (bq_queue s)) s)"
| bqs_pop: "pop_wait stop (bq_queue s) = Some r \<Longrightarrow> bq_step s (bq_took r s)"
| bqs_pop_for: "pop_wait_for stop timed_out (bq_queue s) = Some r \<Longrightarrow> bq_step s (bq_took r s)"

definition bq_start :: "bq_state \<Rightarrow> bool" where
  "bq_start s \<longleftrightarrow> (\<exists>links. s = \<lparr>bq_queue = bq_init links, bq_pushed = [], bq_popped = []\<rparr>)"

definition bq_inv :: "bq_state \<Rightarrow> bool" where
  "bq_inv s \<longleftrightarrow> represents (bq_queue s) (bq_queued s) \<and>
     bq_pushed s = bq_popped s @ bq_queued s"

lemma bq_invI: "represents (bq_queue s) xs \<Longrightarrow> bq_pushed s = bq_popped s @ xs \<Longrightarrow> bq_inv s"
  by (simp add: bq_inv_def bq_queued_def)

lemma bq_invE:
  assumes "bq_inv s"
  obtains xs where "represents (bq_queue s) xs" "bq_pushed s = bq_popped s @ xs" "bq_queued s = xs"
  using assms by (auto simp: bq_inv_def)

lemma bq_inv_took:
  assumes "bq_inv s"
  shows "bq_inv (bq_took (popLocked (bq_queue s)) s)"
proof -
  from assms obtain xs where r: "represents (bq_queue s) xs" and p: "bq_pushed s = bq_popped s @ xs"
    by (rule bq_invE)
  show ?thesis
    by (rule bq_invI [of _ "tl xs"]) (use represents_pop [OF r] p in \<open>simp_all add: bq_took_def split: list.splits\<close>)
qed

lemma bq_inv_push:
  assumes "bq_inv s" "x \<notin> set (bq_queued s)"
  shows "bq_inv (s\<lparr>bq_queue := bq_push x (bq_queue s), bq_pushed := bq_pushed s @ [x]\<rparr>)"
proof -
  from assms(1) obtain xs where r: "represents (bq_queue s) xs" and p: "bq_pushed s = bq_popped s @ xs"
    and q: "bq_queued s = xs" by (rule bq_invE)
  show ?thesis
    by (rule bq_invI [of _ "xs @ [x]"]) (use represents_push [OF r] p q assms(2) in simp_all)
qed

interpretation bqueue: invariant_system bq_start bq_step bq_inv
proof
  show "bq_inv s" if "bq_start s" for s
    using that represents_init by (auto simp: bq_start_def bq_inv_def bq_queued_def)
  show "bq_inv t" if "bq_inv s" "bq_step s t" for s t
    using that(2,1) bq_inv_took [of s] bq_inv_push [of s]
    by (cases rule: bq_step.cases)
      (auto simp: tryPop_def pop_wait_def pop_wait_for_def split: if_splits)
qed

text \<open>C21: Whatever threads push and pop, the items popped from the blocking queue so far are the first
  items pushed, in that order; the rest are the items still in the queue, which the intrusive links
  represent in that order, each once.\<close>

theorem blocking_queue_is_fifo:
  assumes "reach bq_start bq_step s"
  shows "bq_pushed s = bq_popped s @ bq_queued s \<and> represents (bq_queue s) (bq_queued s)"
  using bqueue.reach_inv [OF assms] by (simp add: bq_inv_def)

theorem blocking_queue_is_fifo_witness:
  "\<exists>s. reach bq_start bq_step s \<and> bq_popped s = [3] \<and> bq_queued s = [5] \<and>
     represents (bq_queue s) [5]"
proof -
  define s0 where "s0 = \<lparr>bq_queue = bq_init (\<lambda>_. None), bq_pushed = [], bq_popped = []\<rparr>"
  define s1 where "s1 = s0\<lparr>bq_queue := bq_push 3 (bq_queue s0), bq_pushed := bq_pushed s0 @ [3]\<rparr>"
  define s2 where "s2 = s1\<lparr>bq_queue := bq_push 5 (bq_queue s1), bq_pushed := bq_pushed s1 @ [5]\<rparr>"
  define s3 where "s3 = bq_took (tryPop (bq_queue s2)) s2"
  have q: "bq_queued s0 = []" "bq_queued s1 = [3]"
    by (simp_all add: s0_def s1_def bq_queued_def)
  have "reach bq_start bq_step s0"
    by (rule reach_start) (auto simp: s0_def bq_start_def)
  then have "reach bq_start bq_step s1"
    by (rule reach_step) (auto simp: s1_def q intro: bqs_push)
  then have "reach bq_start bq_step s2"
    by (rule reach_step) (unfold s2_def, rule bqs_push, simp add: q)
  then have r: "reach bq_start bq_step s3"
    by (rule reach_step) (unfold s3_def, rule bqs_tryPop)
  have "bq_popped s3 = [3]" "bq_queued s3 = [5]"
    by (simp_all add: s3_def s2_def s1_def s0_def bq_took_def tryPop_def popLocked_def bq_push_def
        bq_init_def write_link_def bq_queued_def)
  then show ?thesis using blocking_queue_is_fifo [OF r] r by auto
qed

text \<open>The requirement on callers is needed: an item pushed twice is linked to itself.\<close>

lemma double_push_cycles: "bq_next (bq_push x (bq_push x (bq_init links))) x = Some x"
  by (simp add: bq_push_def bq_init_def write_link_def)

lemma stopped_pop_returns: "\<exists>r. pop_wait True q = Some r"
  by (simp add: pop_wait_def)

end
