(* ===== verification/Nixl_Config.thy ===== *)
theory Nixl_Config
  imports Nixl_Prelude Nixl_Types
begin

text \<open>
  Configuration values (\<open>src/utils/common/config_traits.h\<close>, \<open>toml_traits.h\<close>, \<open>configuration.h\<close>,
  \<open>configuration.cpp\<close>, \<open>backend.h\<close>): conversion of strings and TOML nodes to booleans, integers and
  durations, the lookup of a variable in the environment and then in the configuration file, and the
  parameters of a backend. The environment, the parsed file and the file system are arguments. A
  thrown \<open>std::runtime_error\<close> is an \<open>Inl\<close>. Shown: the conversion of integers accepts exactly the
  numerals in range, and a fallback is used only when a value is absent, never to hide an error.
\<close>

subsection \<open>Strings to values\<close>

datatype config_error =
  NotABool
| InvalidInteger
| IntegerOutOfRange
| TrailingGarbage
| InvalidTomlType
| MissingEntry
| ConvertingParam config_error string
| TomlFileError

text \<open>\<open>strcasecmp\<close> reads two C strings, so each ends at its first NUL character; letters are compared
  in lower case, as in the C locale.\<close>

definition c_str :: "string \<Rightarrow> string" where
  "c_str s = takeWhile (\<lambda>c. c \<noteq> CHR 0x00) s"

definition to_lower :: "char \<Rightarrow> char" where
  "to_lower c = (if 65 \<le> (of_char c :: nat) \<and> (of_char c :: nat) \<le> 90 then char_of ((of_char c :: nat) + 32) else c)"

definition strcasecmp_eq :: "string \<Rightarrow> string \<Rightarrow> bool" where
  "strcasecmp_eq a b \<longleftrightarrow> map to_lower (c_str a) = map to_lower (c_str b)"

definition match :: "string \<Rightarrow> string list \<Rightarrow> bool" where
  "match s haystack \<longleftrightarrow> (\<exists>ref \<in> set haystack. strcasecmp_eq ref s)"

definition positive_words :: "string list" where
  "positive_words = [''y'', ''yes'', ''on'', ''1'', ''true'', ''enable'']"

definition negative_words :: "string list" where
  "negative_words = [''n'', ''no'', ''off'', ''0'', ''false'', ''disable'']"

definition convert_bool :: "string \<Rightarrow> config_error + bool" where
  "convert_bool s =
     (if match s positive_words then Inr True
      else if match s negative_words then Inr False
      else Inl NotABool)"

text \<open>An integer type is its signedness and its width. \<open>std::from_chars\<close> takes a minus sign only for
  a signed type, reads the longest run of digits of the base, in either case, and reports where it
  stopped; a value that does not fit is an error of its own.\<close>

datatype integer_type = Unsigned nat | Signed nat

fun is_unsigned :: "integer_type \<Rightarrow> bool" where
  "is_unsigned (Unsigned w) = True"
| "is_unsigned (Signed w) = False"

fun int_min :: "integer_type \<Rightarrow> int" where
  "int_min (Unsigned w) = 0"
| "int_min (Signed w) = - (2 ^ (w - 1))"

fun int_max :: "integer_type \<Rightarrow> int" where
  "int_max (Unsigned w) = 2 ^ w - 1"
| "int_max (Signed w) = 2 ^ (w - 1) - 1"

definition in_range :: "integer_type \<Rightarrow> int \<Rightarrow> bool" where
  "in_range ty v \<longleftrightarrow> int_min ty \<le> v \<and> v \<le> int_max ty"

definition digit_value :: "char \<Rightarrow> nat" where
  "digit_value c =
     (let n = of_char c in
      if 48 \<le> n \<and> n \<le> 57 then n - 48
      else if 97 \<le> n \<and> n \<le> 122 then n - 87
      else if 65 \<le> n \<and> n \<le> 90 then n - 55
      else 36)"

definition is_digit :: "nat \<Rightarrow> char \<Rightarrow> bool" where
  "is_digit base c \<longleftrightarrow> digit_value c < base"

definition numeral_value :: "nat \<Rightarrow> string \<Rightarrow> nat" where
  "numeral_value base ds = foldl (\<lambda>acc c. acc * base + digit_value c) 0 ds"

datatype from_chars_result = FcInvalid | FcRange | FcOk int string

definition from_chars :: "integer_type \<Rightarrow> nat \<Rightarrow> string \<Rightarrow> from_chars_result" where
  "from_chars ty base s =
     (let minus = (\<not> is_unsigned ty \<and> s \<noteq> [] \<and> hd s = CHR ''-'');
          body = (if minus then tl s else s);
          ds = takeWhile (is_digit base) body;
          rest = dropWhile (is_digit base) body;
          v = (if minus then - int (numeral_value base ds) else int (numeral_value base ds))
      in if ds = [] then FcInvalid
         else if \<not> in_range ty v then FcRange
         else FcOk v rest)"

definition isHex :: "integer_type \<Rightarrow> string \<Rightarrow> bool" where
  "isHex ty s \<longleftrightarrow>
     is_unsigned ty \<and> 2 < length s \<and> s ! 0 = CHR ''0'' \<and> (s ! 1 = CHR ''x'' \<or> s ! 1 = CHR ''X'')"

definition int_base :: "integer_type \<Rightarrow> string \<Rightarrow> nat" where
  "int_base ty s = (if isHex ty s then 16 else 10)"

definition int_start :: "integer_type \<Rightarrow> string \<Rightarrow> string" where
  "int_start ty s = drop (if isHex ty s then 2 else 0) s"

definition convert_int :: "integer_type \<Rightarrow> string \<Rightarrow> config_error + int" where
  "convert_int ty s =
     (case from_chars ty (int_base ty s) (int_start ty s) of
        FcInvalid \<Rightarrow> Inl InvalidInteger
      | FcRange \<Rightarrow> Inl IntegerOutOfRange
      | FcOk v rest \<Rightarrow> if rest \<noteq> [] then Inl TrailingGarbage else Inr v)"

text \<open>A duration in milliseconds is counted in a signed 64-bit integer; the unsigned value is
  converted to it as C++ does, modulo \<open>2 ^ 64\<close>.\<close>

definition to_int64 :: "int \<Rightarrow> int" where
  "to_int64 v = sint (word_of_int v :: u64)"

definition convert_milliseconds :: "string \<Rightarrow> config_error + int" where
  "convert_milliseconds s =
     (case convert_int (Unsigned 64) s of Inl e \<Rightarrow> Inl e | Inr v \<Rightarrow> Inr (to_int64 v))"

subsection \<open>TOML nodes to values\<close>

datatype toml_node =
  TomlBool bool
| TomlString string
| TomlInteger int
| TomlTime nat nat nat nat
| TomlOther

fun toml_bool :: "toml_node \<Rightarrow> config_error + bool" where
  "toml_bool (TomlBool b) = Inr b"
| "toml_bool _ = Inl InvalidTomlType"

fun toml_string :: "toml_node \<Rightarrow> config_error + string" where
  "toml_string (TomlString s) = Inr s"
| "toml_string _ = Inl InvalidTomlType"

fun toml_int :: "integer_type \<Rightarrow> toml_node \<Rightarrow> config_error + int" where
  "toml_int ty (TomlInteger v) = (if in_range ty v then Inr v else Inl IntegerOutOfRange)"
| "toml_int ty _ = Inl InvalidTomlType"

fun toml_milliseconds :: "toml_node \<Rightarrow> config_error + int" where
  "toml_milliseconds (TomlTime h m s ns) =
     Inr (int (h * 3600000 + m * 60000 + s * 1000 + ns div 1000000))"
| "toml_milliseconds (TomlInteger v) = Inr v"
| "toml_milliseconds _ = Inl InvalidTomlType"


subsection \<open>The configuration file\<close>

text \<open>The environment of the process, the file system and the TOML parser. A parsed table is the
  function that \<open>at_path\<close> computes on it.\<close>

type_synonym toml_table = "string \<Rightarrow> toml_node option"

record config_env =
  getenv :: "string \<Rightarrow> string option"
  weakly_canonical :: "string \<Rightarrow> config_error + string"
  file_exists :: "string \<Rightarrow> bool"
  parse_file :: "string \<Rightarrow> toml_table option"

definition home_filename :: string where "home_filename = ''.nixl.cfg''"
definition nixl_filename :: string where "nixl_filename = ''/etc/nixl.cfg''"
definition nixl_variable :: string where "nixl_variable = ''NIXL_CONFIG_FILE''"

definition path_join :: "string \<Rightarrow> string \<Rightarrow> string" where
  "path_join dir file = (if dir = [] \<or> last dir = CHR ''/'' then dir @ file else dir @ ''/'' @ file)"

definition readFile_path :: "config_env \<Rightarrow> string \<Rightarrow> config_error + toml_table" where
  "readFile_path env file = (case parse_file env file of None \<Rightarrow> Inl TomlFileError | Some t \<Rightarrow> Inr t)"

definition readFile_global :: "config_env \<Rightarrow> config_error + toml_table" where
  "readFile_global env =
     (if file_exists env nixl_filename then readFile_path env nixl_filename else Inr (\<lambda>_. None))"

definition readFile :: "config_env \<Rightarrow> config_error + toml_table" where
  "readFile env =
     (case getenv env nixl_variable of
        Some name \<Rightarrow>
          (case weakly_canonical env name of
             Inl e \<Rightarrow> Inl e
           | Inr file \<Rightarrow> readFile_path env file)
      | None \<Rightarrow>
          (case getenv env ''HOME'' of
             Some home \<Rightarrow>
               (case weakly_canonical env (path_join home home_filename) of
                  Inl e \<Rightarrow> Inl e
                | Inr file \<Rightarrow>
                    if file_exists env file then readFile_path env file else readFile_global env)
           | None \<Rightarrow> readFile_global env))"

definition getConfig :: "config_env \<Rightarrow> config_error + toml_table" where
  "getConfig env = readFile env"

definition getenvOptional :: "config_env \<Rightarrow> string \<Rightarrow> string option" where
  "getenvOptional env name = getenv env (c_str name)"

definition getenvDefaulted :: "config_env \<Rightarrow> string \<Rightarrow> string \<Rightarrow> string" where
  "getenvDefaulted env name fallback =
     (case getenv env (c_str name) of Some v \<Rightarrow> v | None \<Rightarrow> fallback)"

definition findTomlNode :: "config_env \<Rightarrow> string \<Rightarrow> config_error + toml_node option" where
  "findTomlNode env path = (case getConfig env of Inl e \<Rightarrow> Inl e | Inr t \<Rightarrow> Inr (t path))"

definition warnIgnoreToml :: "config_env \<Rightarrow> string \<Rightarrow> config_error + unit" where
  "warnIgnoreToml env path = (case getConfig env of Inl e \<Rightarrow> Inl e | Inr t \<Rightarrow> Inr ())"

subsection \<open>Looking a value up\<close>

record 'a convertTraits =
  of_string :: "string \<Rightarrow> config_error + 'a"
  of_toml :: "toml_node \<Rightarrow> config_error + 'a"

definition bool_traits :: "bool convertTraits" where
  "bool_traits = \<lparr>of_string = convert_bool, of_toml = toml_bool\<rparr>"

definition string_traits :: "string convertTraits" where
  "string_traits = \<lparr>of_string = Inr, of_toml = toml_string\<rparr>"

definition int_traits :: "integer_type \<Rightarrow> int convertTraits" where
  "int_traits ty = \<lparr>of_string = convert_int ty, of_toml = toml_int ty\<rparr>"

definition milliseconds_traits :: "int convertTraits" where
  "milliseconds_traits = \<lparr>of_string = convert_milliseconds, of_toml = toml_milliseconds\<rparr>"

text \<open>The status form leaves the result alone unless it succeeds: \<open>None\<close> is an untouched result. An
  unreadable configuration file is not caught by it.\<close>

definition getValueWithStatus ::
  "'a convertTraits \<Rightarrow> config_env \<Rightarrow> string \<Rightarrow> config_error + nixl_status_t \<times> 'a option" where
  "getValueWithStatus tr env name =
     (case getenvOptional env name of
        Some s \<Rightarrow>
          (case of_string tr s of
             Inl _ \<Rightarrow> Inr (NIXL_ERR_MISMATCH, None)
           | Inr v \<Rightarrow>
               (case warnIgnoreToml env name of Inl e \<Rightarrow> Inl e | Inr _ \<Rightarrow> Inr (NIXL_SUCCESS, Some v)))
      | None \<Rightarrow>
          (case findTomlNode env name of
             Inl e \<Rightarrow> Inl e
           | Inr None \<Rightarrow> Inr (NIXL_ERR_NOT_FOUND, None)
           | Inr (Some node) \<Rightarrow>
               (case of_toml tr node of
                  Inl _ \<Rightarrow> Inr (NIXL_ERR_MISMATCH, None)
                | Inr v \<Rightarrow> Inr (NIXL_SUCCESS, Some v))))"

definition getValueOptional :: "'a convertTraits \<Rightarrow> config_env \<Rightarrow> string \<Rightarrow> config_error + 'a option" where
  "getValueOptional tr env name =
     (case getenvOptional env name of
        Some s \<Rightarrow>
          (case of_string tr s of
             Inl e \<Rightarrow> Inl e
           | Inr v \<Rightarrow> (case warnIgnoreToml env name of Inl e \<Rightarrow> Inl e | Inr _ \<Rightarrow> Inr (Some v)))
      | None \<Rightarrow>
          (case findTomlNode env name of
             Inl e \<Rightarrow> Inl e
           | Inr None \<Rightarrow> Inr None
           | Inr (Some node) \<Rightarrow> (case of_toml tr node of Inl e \<Rightarrow> Inl e | Inr v \<Rightarrow> Inr (Some v))))"

definition getValue :: "'a convertTraits \<Rightarrow> config_env \<Rightarrow> string \<Rightarrow> config_error + 'a" where
  "getValue tr env name =
     (case getenvOptional env name of
        Some s \<Rightarrow>
          (case of_string tr s of
             Inl e \<Rightarrow> Inl e
           | Inr v \<Rightarrow> (case warnIgnoreToml env name of Inl e \<Rightarrow> Inl e | Inr _ \<Rightarrow> Inr v))
      | None \<Rightarrow>
          (case findTomlNode env name of
             Inl e \<Rightarrow> Inl e
           | Inr None \<Rightarrow> Inl MissingEntry
           | Inr (Some node) \<Rightarrow> of_toml tr node))"

definition getValueDefaulted :: "'a convertTraits \<Rightarrow> config_env \<Rightarrow> string \<Rightarrow> 'a \<Rightarrow> config_error + 'a" where
  "getValueDefaulted tr env name fallback =
     (case getValueOptional tr env name of
        Inl e \<Rightarrow> Inl e
      | Inr None \<Rightarrow> Inr fallback
      | Inr (Some v) \<Rightarrow> Inr v)"

definition getNonEmptyString :: "config_env \<Rightarrow> string \<Rightarrow> config_error + string" where
  "getNonEmptyString env name =
     (case getValue string_traits env name of
        Inl e \<Rightarrow> Inl e
      | Inr s \<Rightarrow> if s = [] then Inl MissingEntry else Inr s)"

definition checkExistence :: "config_env \<Rightarrow> string \<Rightarrow> config_error + bool" where
  "checkExistence env name =
     (if getenv env (c_str name) \<noteq> None then Inr True
      else (case findTomlNode env name of Inl e \<Rightarrow> Inl e | Inr n \<Rightarrow> Inr (n \<noteq> None)))"

subsection \<open>Parameters of a backend\<close>

text \<open>The parameters are a \<open>std::unordered_map\<close>, or no map at all.\<close>

type_synonym nixl_b_params_t = "(string \<times> string) list"

definition getBackendParamOptional ::
  "(string \<Rightarrow> config_error + 'a) \<Rightarrow> nixl_b_params_t \<Rightarrow> string \<Rightarrow> config_error + 'a option" where
  "getBackendParamOptional conv params key =
     (case map_of params key of
        None \<Rightarrow> Inr None
      | Some s \<Rightarrow> (case conv s of Inl e \<Rightarrow> Inl (ConvertingParam e key) | Inr v \<Rightarrow> Inr (Some v)))"

definition getBackendParamOptional_ptr ::
  "(string \<Rightarrow> config_error + 'a) \<Rightarrow> nixl_b_params_t option \<Rightarrow> string \<Rightarrow> config_error + 'a option" where
  "getBackendParamOptional_ptr conv params key =
     (case params of Some p \<Rightarrow> getBackendParamOptional conv p key | None \<Rightarrow> Inr None)"

definition getBackendParamDefaulted_ptr ::
  "(string \<Rightarrow> config_error + 'a) \<Rightarrow> nixl_b_params_t option \<Rightarrow> string \<Rightarrow> 'a \<Rightarrow> config_error + 'a" where
  "getBackendParamDefaulted_ptr conv params key fallback =
     (case getBackendParamOptional_ptr conv params key of
        Inl e \<Rightarrow> Inl e
      | Inr None \<Rightarrow> Inr fallback
      | Inr (Some v) \<Rightarrow> Inr v)"


subsection \<open>Integers\<close>

text \<open>What the conversion is meant to accept: a numeral of the whole string, decimal, or hexadecimal
  behind \<open>0x\<close> for an unsigned type, or negative for a signed one.\<close>

definition digits :: "nat \<Rightarrow> string \<Rightarrow> bool" where
  "digits base ds \<longleftrightarrow> ds \<noteq> [] \<and> list_all (is_digit base) ds"

definition denotes :: "integer_type \<Rightarrow> string \<Rightarrow> int \<Rightarrow> bool" where
  "denotes ty s v \<longleftrightarrow>
     (digits 10 s \<and> v = int (numeral_value 10 s)) \<or>
     (is_unsigned ty \<and> take 2 s \<in> {''0x'', ''0X''} \<and> digits 16 (drop 2 s) \<and>
        v = int (numeral_value 16 (drop 2 s))) \<or>
     (\<not> is_unsigned ty \<and> take 1 s = ''-'' \<and> digits 10 (drop 1 s) \<and> v = - int (numeral_value 10 (drop 1 s)))"

lemma takeWhile_all_digits: "\<forall>x\<in>set xs. P x \<Longrightarrow> takeWhile P xs = xs"
  by simp

lemma is_digit_letters:
  "\<not> is_digit 10 CHR ''x''" "\<not> is_digit 10 CHR ''X''" "\<not> is_digit b CHR ''-'' \<or> 36 < b" "is_digit 10 CHR ''0''"
  by (auto simp: is_digit_def digit_value_def)

lemma minus_not_digit: "digits 10 s \<Longrightarrow> hd s \<noteq> CHR ''-''"
  using is_digit_letters(3) [of 10] by (cases s) (auto simp: digits_def)

lemma isHex_split: "isHex ty s \<longleftrightarrow> is_unsigned ty \<and> take 2 s \<in> {''0x'', ''0X''} \<and> drop 2 s \<noteq> []"
proof (cases s)
  case (Cons a t)
  then show ?thesis by (cases t) (auto simp: isHex_def)
qed (simp add: isHex_def)

lemma isHex_not_decimal:
  assumes "isHex ty s"
  shows "\<not> digits 10 s"
proof -
  have "1 < length s" "s ! 1 = CHR ''x'' \<or> s ! 1 = CHR ''X''"
    using assms by (auto simp: isHex_def)
  then show ?thesis
    using is_digit_letters(1,2) by (auto simp: digits_def list_all_length)
qed

lemma from_chars_unsigned:
  assumes "is_unsigned ty"
  shows "from_chars ty base s = FcOk v [] \<longleftrightarrow>
     digits base s \<and> v = int (numeral_value base s) \<and> in_range ty v"
  using assms
  by (auto simp: from_chars_def Let_def digits_def list_all_iff takeWhile_all_digits)

lemma from_chars_signed:
  assumes "\<not> is_unsigned ty"
  shows "from_chars ty 10 s = FcOk v [] \<longleftrightarrow>
     in_range ty v \<and>
     ((digits 10 s \<and> v = int (numeral_value 10 s)) \<or>
      (take 1 s = ''-'' \<and> digits 10 (drop 1 s) \<and> v = - int (numeral_value 10 (drop 1 s))))"
proof (cases s)
  case (Cons a t)
  have "\<not> is_digit 10 CHR ''-''" using is_digit_letters(3) [of 10] by simp
  then show ?thesis
    using assms Cons
    by (auto simp: from_chars_def Let_def digits_def list_all_iff takeWhile_all_digits)
qed (simp add: from_chars_def digits_def)

lemma convert_int_Inr:
  "convert_int ty s = Inr v \<longleftrightarrow> from_chars ty (int_base ty s) (int_start ty s) = FcOk v []"
  by (auto simp: convert_int_def split: from_chars_result.splits)

text \<open>The conversion of a configured integer accepts exactly the strings that are, as a whole,
  a numeral of a value the type can hold, and returns that value: decimal, hexadecimal behind
  \<open>0x\<close> or \<open>0X\<close> for unsigned types, or with a minus sign for signed ones. Nothing is truncated or
  wrapped, and no prefix of a string is taken for the whole.\<close>

theorem convert_int_exact:
  "convert_int ty s = Inr v \<longleftrightarrow> denotes ty s v \<and> in_range ty v"
proof (cases "is_unsigned ty")
  case True
  have "digits 16 ds \<Longrightarrow> ds \<noteq> []" for ds by (simp add: digits_def)
  then show ?thesis
    using True isHex_not_decimal [of ty s]
    by (auto simp: convert_int_Inr from_chars_unsigned denotes_def int_base_def int_start_def isHex_split)
next
  case False
  then have "\<not> isHex ty s" by (simp add: isHex_def)
  then show ?thesis
    using False by (auto simp: convert_int_Inr from_chars_signed denotes_def int_base_def int_start_def)
qed

text \<open>A duration above \<open>2 ^ 63 - 1\<close> milliseconds is not refused: it becomes negative.\<close>

lemma milliseconds_wrap:
  "convert_milliseconds ''18446744073709551615'' = Inr (- 1)"
  by (simp add: convert_milliseconds_def convert_int_def from_chars_def int_base_def int_start_def
      isHex_def is_digit_def digit_value_def numeral_value_def in_range_def to_int64_def Let_def)

subsection \<open>Precedence and fallbacks\<close>


lemma status_form_agrees:
  "getValueWithStatus tr env name = Inr (NIXL_SUCCESS, Some v) \<longleftrightarrow>
     getValueOptional tr env name = Inr (Some v)"
  by (auto simp: getValueWithStatus_def getValueOptional_def split: option.splits sum.splits)

lemma param_fallback_only_when_absent:
  "getBackendParamDefaulted_ptr conv params key fallback = Inr v \<longleftrightarrow>
     (case params of
        None \<Rightarrow> v = fallback
      | Some p \<Rightarrow> (case map_of p key of None \<Rightarrow> v = fallback | Some s \<Rightarrow> conv s = Inr v))"
  by (auto simp: getBackendParamDefaulted_ptr_def getBackendParamOptional_ptr_def
      getBackendParamOptional_def split: option.splits sum.splits)

text \<open>The file that is read: the one the environment names, or the one in the home directory if it
  exists, or the global one if it exists, or none.\<close>

lemma readFile_choice:
  "readFile env = Inr table \<Longrightarrow>
     (\<exists>name file. getenv env nixl_variable = Some name \<and> weakly_canonical env name = Inr file \<and>
        parse_file env file = Some table) \<or>
     getenv env nixl_variable = None \<and>
     ((\<exists>home file. getenv env ''HOME'' = Some home \<and>
         weakly_canonical env (path_join home home_filename) = Inr file \<and> file_exists env file \<and>
         parse_file env file = Some table) \<or>
      (file_exists env nixl_filename \<and> parse_file env nixl_filename = Some table) \<or>
      (\<not> file_exists env nixl_filename \<and> table = (\<lambda>_. None)))"
  by (auto simp: readFile_def readFile_path_def readFile_global_def
      split: option.splits sum.splits if_splits)

end
