(* ===== verification/Nixl_Trace.thy ===== *)
theory Nixl_Trace
  imports Complex_Main Nixl_Config
begin

unbundle bit_operations_syntax

text \<open>
  Trace contexts (\<open>src/core/tracing/trace_context.h\<close>, \<open>trace_context.cpp\<close>, \<open>random_buffer.h\<close>) and the
  random identifiers (\<open>src/utils/common/uuid_v4.cpp\<close>): the W3C text form, the binary record, the
  sampling decision and the generation of identifiers. Random sources are scripts of their answers.
  A \<open>double\<close> is an exact rational, an infinity or not a number; the one product the code forms, with a
  power of two, is exact. Shown: both forms round-trip, a lower ratio samples a subset, generated
  contexts are valid, and buffered random bytes are handed out once.
\<close>

subsection \<open>Contexts\<close>

type_synonym u8 = "8 word"

record TraceContext =
  traceId :: "u8 list"
  spanId :: "u8 list"
  flags :: u8

text \<open>The two identifiers are arrays of fixed size.\<close>

definition wf_context :: "TraceContext \<Rightarrow> bool" where
  "wf_context c \<longleftrightarrow> length (traceId c) = 16 \<and> length (spanId c) = 8"

definition empty_context :: TraceContext where
  "empty_context = \<lparr>traceId = replicate 16 0, spanId = replicate 8 0, flags = 0\<rparr>"

definition supported_trace_flags :: u8 where "supported_trace_flags = 3"
definition traceContextWireVersion :: u8 where "traceContextWireVersion = 1"
definition traceContextWireSize :: nat where "traceContextWireSize = 26"

definition isAllZero :: "u8 list \<Rightarrow> bool" where
  "isAllZero bs \<longleftrightarrow> list_all (\<lambda>b. b = 0) bs"

definition ctx_valid :: "TraceContext \<Rightarrow> bool" where
  "ctx_valid c \<longleftrightarrow> \<not> isAllZero (traceId c) \<and> \<not> isAllZero (spanId c)"

definition sampled :: "TraceContext \<Rightarrow> bool" where
  "sampled c \<longleftrightarrow> flags c AND 1 \<noteq> 0"

definition masked :: "TraceContext \<Rightarrow> TraceContext" where
  "masked c = c\<lparr>flags := flags c AND supported_trace_flags\<rparr>"

subsection \<open>The text form\<close>

definition hexValue :: "char \<Rightarrow> int" where
  "hexValue c =
     (let n = of_char c :: nat in
      if 48 \<le> n \<and> n \<le> 57 then int n - 48
      else if 97 \<le> n \<and> n \<le> 102 then int n - 97 + 10
      else - 1)"

definition parseByte :: "string \<Rightarrow> nat \<Rightarrow> u8 option" where
  "parseByte s i =
     (let high = hexValue (s ! i); low = hexValue (s ! (i + 1))
      in if high < 0 \<or> low < 0 then None
         else Some (word_of_int (push_bit 4 high OR low)))"

fun parseBytes :: "string \<Rightarrow> nat \<Rightarrow> nat \<Rightarrow> u8 list option" where
  "parseBytes s i 0 = Some []"
| "parseBytes s i (Suc n) =
     (case parseByte s i of
        None \<Rightarrow> None
      | Some b \<Rightarrow> map_option (\<lambda>bs. b # bs) (parseBytes s (i + 2) n))"

definition hex_digits :: string where
  "hex_digits = ''0123456789abcdef''"

definition appendByte :: "string \<Rightarrow> u8 \<Rightarrow> string" where
  "appendByte result b =
     result @ [hex_digits ! unat (drop_bit 4 b)] @ [hex_digits ! unat (b AND 15)]"

definition parseTraceparent :: "string \<Rightarrow> TraceContext option" where
  "parseTraceparent s =
     (if length s \<noteq> 55 \<or> s ! 0 \<noteq> CHR ''0'' \<or> s ! 1 \<noteq> CHR ''0'' \<or> s ! 2 \<noteq> CHR ''-'' \<or>
         s ! 35 \<noteq> CHR ''-'' \<or> s ! 52 \<noteq> CHR ''-'' then None
      else
        (case parseBytes s 3 16 of
           None \<Rightarrow> None
         | Some t \<Rightarrow>
             (case parseBytes s 36 8 of
                None \<Rightarrow> None
              | Some sp \<Rightarrow>
                  (case parseByte s 53 of
                     None \<Rightarrow> None
                   | Some f \<Rightarrow>
                       let c = \<lparr>traceId = t, spanId = sp, flags = f\<rparr>
                       in if ctx_valid c then Some c else None))))"

definition formatTraceparent :: "TraceContext \<Rightarrow> string" where
  "formatTraceparent c =
     (if \<not> ctx_valid c then []
      else
        let result = ''00-'';
            result = foldl appendByte result (traceId c);
            result = result @ ''-'';
            result = foldl appendByte result (spanId c);
            result = result @ ''-''
        in appendByte result (flags c AND supported_trace_flags))"

subsection \<open>The binary record\<close>

text \<open>The buffer is written in place; \<open>overlay\<close> is a copy into it at an offset. A refused encoding
  leaves it alone.\<close>

definition overlay :: "nat \<Rightarrow> 'a list \<Rightarrow> 'a list \<Rightarrow> 'a list" where
  "overlay i xs buf = take i buf @ xs @ drop (i + length xs) buf"

definition encodeTraceContext :: "TraceContext \<Rightarrow> u8 list \<Rightarrow> nat option \<times> u8 list" where
  "encodeTraceContext c buf =
     (if \<not> ctx_valid c \<or> length buf < traceContextWireSize then (None, buf)
      else
        let buf = buf[0 := traceContextWireVersion];
            buf = buf[1 := flags c AND supported_trace_flags];
            buf = overlay 2 (traceId c) buf;
            buf = overlay 18 (spanId c) buf
        in (Some traceContextWireSize, buf))"

datatype WireDecodeResult = Ok | UnknownVersion | Malformed

definition decodeTraceContext :: "u8 list \<Rightarrow> TraceContext \<Rightarrow> WireDecodeResult \<times> TraceContext" where
  "decodeTraceContext buf c =
     (if buf = [] then (Malformed, c)
      else if buf ! 0 \<noteq> traceContextWireVersion then (UnknownVersion, c)
      else if length buf \<noteq> traceContextWireSize then (Malformed, c)
      else
        let c = c\<lparr>flags := buf ! 1 AND supported_trace_flags\<rparr>;
            c = c\<lparr>traceId := take 16 (drop 2 buf)\<rparr>;
            c = c\<lparr>spanId := take 8 (drop 18 buf)\<rparr>
        in (if \<not> ctx_valid c then Malformed else Ok, c))"

subsection \<open>Sampling\<close>

datatype double = NaN | Infinite bool | Finite rat

fun positive :: "double \<Rightarrow> bool" where
  "positive NaN = False"
| "positive (Infinite neg) = (\<not> neg)"
| "positive (Finite r) = (0 < r)"

fun at_least_one :: "double \<Rightarrow> bool" where
  "at_least_one NaN = False"
| "at_least_one (Infinite neg) = (\<not> neg)"
| "at_least_one (Finite r) = (1 \<le> r)"

text \<open>\<open>std::round\<close> of a positive number: half away from zero.\<close>

definition round_pos :: "rat \<Rightarrow> int" where
  "round_pos x = \<lfloor>x + 1 / 2\<rfloor>"

definition traceIdRandomness :: "TraceContext \<Rightarrow> u64" where
  "traceIdRandomness c =
     foldl (\<lambda>result b. push_bit 8 result OR ucast b) 0 (drop (length (traceId c) - 7) (traceId c))"

definition sampling_threshold :: "rat \<Rightarrow> u64" where
  "sampling_threshold r = 2 ^ 56 - word_of_int (round_pos (r * 2 ^ 56))"

definition sampledByRatio :: "TraceContext \<Rightarrow> double \<Rightarrow> bool" where
  "sampledByRatio c ratio \<longleftrightarrow>
     (if \<not> ctx_valid c \<or> \<not> positive ratio then False
      else if at_least_one ratio then True
      else (case ratio of Finite r \<Rightarrow> sampling_threshold r \<le> traceIdRandomness c | _ \<Rightarrow> False))"

text \<open>\<open>absl::SimpleAtod\<close> is the argument \<open>atod\<close>.\<close>

definition parseSampleRatio :: "(string \<Rightarrow> double option) \<Rightarrow> string \<Rightarrow> double option" where
  "parseSampleRatio atod s =
     (case atod s of
        Some (Finite r) \<Rightarrow>
          if r < 0 \<or> 1 < r then None
          else if 0 < r \<and> r < 1 / 2 ^ 56 then None
          else Some (Finite r)
      | _ \<Rightarrow> None)"

definition traceSampleRatioVar :: string where "traceSampleRatioVar = ''NIXL_TRACE_SAMPLE_RATIO''"
definition otelTracesSampleRatioVar :: string where "otelTracesSampleRatioVar = ''OTEL_TRACES_SAMPLE_RATIO''"

datatype ratio_error = ConfigFailed config_error | InvalidRatio string

definition resolveTraceSampleRatio ::
  "(string \<Rightarrow> double option) \<Rightarrow> config_env \<Rightarrow> ratio_error + double" where
  "resolveTraceSampleRatio atod env =
     (case getValueOptional string_traits env traceSampleRatioVar of
        Inl e \<Rightarrow> Inl (ConfigFailed e)
      | Inr (Some spec) \<Rightarrow>
          if spec = [] then Inr (Finite 0)
          else (case parseSampleRatio atod spec of
                  None \<Rightarrow> Inl (InvalidRatio spec)
                | Some ratio \<Rightarrow> Inr ratio)
      | Inr None \<Rightarrow>
          (case getValueOptional string_traits env otelTracesSampleRatioVar of
             Inl e \<Rightarrow> Inl (ConfigFailed e)
           | Inr None \<Rightarrow> Inr (Finite 0)
           | Inr (Some spec) \<Rightarrow>
               if spec = [] then Inr (Finite 0)
               else (case parseSampleRatio atod spec of
                       None \<Rightarrow> Inr (Finite 0)
                     | Some ratio \<Rightarrow> Inr ratio)))"


subsection \<open>Random identifiers\<close>

text \<open>A random source is the script of its answers: each call fills the buffer it is given, or throws.
  A computation that has read the whole script without finishing is still drawing.\<close>

datatype draw = Bytes "nat \<Rightarrow> u8" | Throws

datatype 'a drawn = Drawn 'a "draw list" | DrawThrew "draw list" | StillDrawing

fun draw_until :: "(u8 list \<Rightarrow> bool) \<Rightarrow> nat \<Rightarrow> draw list \<Rightarrow> u8 list drawn" where
  "draw_until ok n [] = StillDrawing"
| "draw_until ok n (Throws # ds) = DrawThrew ds"
| "draw_until ok n (Bytes f # ds) =
     (let bs = map f [0..<n] in if ok bs then Drawn bs ds else draw_until ok n ds)"

definition generateInto :: "TraceContext \<Rightarrow> double \<Rightarrow> draw list \<Rightarrow> TraceContext drawn" where
  "generateInto c ratio ds =
     (case draw_until (\<lambda>bs. \<not> isAllZero bs) 16 ds of
        StillDrawing \<Rightarrow> StillDrawing
      | DrawThrew ds \<Rightarrow> DrawThrew ds
      | Drawn t ds \<Rightarrow>
          (case draw_until (\<lambda>bs. \<not> isAllZero bs) 8 ds of
             StillDrawing \<Rightarrow> StillDrawing
           | DrawThrew ds \<Rightarrow> DrawThrew ds
           | Drawn sp ds \<Rightarrow>
               let c = c\<lparr>traceId := t, spanId := sp, flags := 2\<rparr>
               in Drawn (if sampledByRatio c ratio then c\<lparr>flags := flags c OR 1\<rparr> else c) ds))"

text \<open>What the generation reads of a tracer, and whether it has logged its first failure.\<close>

record tracer_source =
  sampleRatio :: double
  contextFailureLogged :: bool

definition reportContextFailure :: "tracer_source \<Rightarrow> bool \<times> tracer_source" where
  "reportContextFailure t = (\<not> contextFailureLogged t, t\<lparr>contextFailureLogged := True\<rparr>)"

definition TraceContext_ctor :: "tracer_source option \<Rightarrow> draw list \<Rightarrow> (TraceContext \<times> tracer_source option) drawn" where
  "TraceContext_ctor tracer ds =
     (case tracer of
        None \<Rightarrow> Drawn (empty_context, None) ds
      | Some t \<Rightarrow>
          (case generateInto empty_context (sampleRatio t) ds of
             StillDrawing \<Rightarrow> StillDrawing
           | Drawn c ds \<Rightarrow> Drawn (c, tracer) ds
           | DrawThrew ds \<Rightarrow> Drawn (empty_context, Some (snd (reportContextFailure t))) ds))"

definition generateTraceContext :: "double \<Rightarrow> draw list \<Rightarrow> TraceContext drawn" where
  "generateTraceContext ratio ds = generateInto empty_context ratio ds"

definition u64_of_bytes :: "u8 list \<Rightarrow> u64" where
  "u64_of_bytes bs = foldr (\<lambda>b acc. ucast b OR push_bit 8 acc) bs 0"

definition generateRequestId :: "tracer_source option \<Rightarrow> draw list \<Rightarrow> (u64 \<times> tracer_source option) drawn" where
  "generateRequestId tracer ds =
     (case tracer of
        None \<Rightarrow> Drawn (0, None) ds
      | Some t \<Rightarrow>
          (case draw_until (\<lambda>bs. u64_of_bytes bs \<noteq> 0) 8 ds of
             StillDrawing \<Rightarrow> StillDrawing
           | Drawn bs ds \<Rightarrow> Drawn (u64_of_bytes bs, tracer) ds
           | DrawThrew ds \<Rightarrow> Drawn (0, Some (snd (reportContextFailure t))) ds))"

definition generatePostContext ::
  "TraceContext \<Rightarrow> tracer_source option \<Rightarrow> draw list \<Rightarrow> (TraceContext \<times> tracer_source option) drawn" where
  "generatePostContext request tracer ds =
     (case tracer of
        None \<Rightarrow> Drawn (request, None) ds
      | Some t \<Rightarrow>
          (case draw_until (\<lambda>bs. \<not> isAllZero bs) 8 ds of
             StillDrawing \<Rightarrow> StillDrawing
           | Drawn sp ds \<Rightarrow> Drawn (request\<lparr>spanId := sp\<rparr>, tracer) ds
           | DrawThrew ds \<Rightarrow> Drawn (request, Some (snd (reportContextFailure t))) ds))"

text \<open>The buffered source. \<open>rb_used\<close> never exceeds the size of the block, so the test for an empty block
  may be read as an inequality, which makes the loop terminate on every state.\<close>

definition blockSize :: nat where "blockSize = 256"

record RandomBuffer =
  rb_used :: nat
  rb_block :: "u8 list"

definition rb_init :: RandomBuffer where
  "rb_init = \<lparr>rb_used = blockSize, rb_block = replicate blockSize 0\<rparr>"

definition rb_clear :: "RandomBuffer \<Rightarrow> RandomBuffer" where
  "rb_clear rb = rb\<lparr>rb_used := blockSize\<rparr>"

definition rb_chunk :: "nat \<Rightarrow> RandomBuffer \<Rightarrow> u8 list \<times> RandomBuffer" where
  "rb_chunk n rb =
     (let chunk = min n (blockSize - rb_used rb)
      in (take chunk (drop (rb_used rb) (rb_block rb)), rb\<lparr>rb_used := rb_used rb + chunk\<rparr>))"

function rb_fill :: "nat \<Rightarrow> RandomBuffer \<Rightarrow> draw list \<Rightarrow> u8 list \<Rightarrow> (u8 list \<times> RandomBuffer) drawn" where
  "rb_fill n rb ds out =
     (if n = 0 then Drawn (out, rb) ds
      else if blockSize \<le> rb_used rb then
        (case ds of
           [] \<Rightarrow> StillDrawing
         | Throws # ds \<Rightarrow> DrawThrew ds
         | Bytes f # ds \<Rightarrow>
             let (bs, rb) = rb_chunk n \<lparr>rb_used = 0, rb_block = map f [0..<blockSize]\<rparr>
             in rb_fill (n - min n blockSize) rb ds (out @ bs))
      else
        let (bs, rb') = rb_chunk n rb
        in rb_fill (n - min n (blockSize - rb_used rb)) rb' ds (out @ bs))"
  by pat_completeness auto
termination
  by (relation "measure (\<lambda>(n, rb, ds, out). n)") (auto simp: blockSize_def)

declare rb_fill.simps [simp del]

fun generateRandomBytes :: "nat \<Rightarrow> draw list \<Rightarrow> u8 list \<Rightarrow> u8 list drawn" where
  "generateRandomBytes n [] out = (if n = 0 then Drawn out [] else StillDrawing)"
| "generateRandomBytes n (d # ds) out =
     (if n = 0 then Drawn out (d # ds)
      else (case d of
              Throws \<Rightarrow> DrawThrew ds
            | Bytes f \<Rightarrow>
                let chunk = min n 256
                in generateRandomBytes (n - chunk) ds (out @ map f [0..<chunk])))"

definition UUIDv4_ctor :: "draw list \<Rightarrow> u8 list drawn" where
  "UUIDv4_ctor ds =
     (case generateRandomBytes 16 ds [] of
        StillDrawing \<Rightarrow> StillDrawing
      | DrawThrew ds \<Rightarrow> DrawThrew ds
      | Drawn bs ds \<Rightarrow>
          let bs = bs[6 := (bs ! 6 AND 15) OR 64];
              bs = bs[8 := (bs ! 8 AND 63) OR 128]
          in Drawn bs ds)"

definition UUIDv4_to_string :: "u8 list \<Rightarrow> string" where
  "UUIDv4_to_string bs =
     foldl (\<lambda>oss i. appendByte (if i = 4 \<or> i = 6 \<or> i = 8 \<or> i = 10 then oss @ ''-'' else oss) (bs ! i))
       [] [0..<16]"

subsection \<open>Hexadecimal bytes\<close>

definition byte_hex :: "u8 \<Rightarrow> string" where
  "byte_hex b = [hex_digits ! (unat b div 16), hex_digits ! (unat b mod 16)]"

lemma length_byte_hex [simp]: "length (byte_hex b) = 2"
  by (simp add: byte_hex_def)

lemma unat_u8: "unat (b :: u8) < 256"
  using unsigned_less [of b, where ?'a = nat] by simp

lemma appendByte_hex: "appendByte r b = r @ byte_hex b"
proof -
  have "b AND 15 = take_bit 4 b" by (simp add: take_bit_eq_mask mask_eq_exp_minus_1)
  then have "unat (b AND 15) = unat b mod 16"
    by (simp only: unsigned_take_bit_eq) (simp add: take_bit_eq_mod)
  moreover have "unat (drop_bit 4 b) = unat b div 16"
    by (simp add: unat_div drop_bit_eq_div)
  ultimately show ?thesis by (simp add: appendByte_def byte_hex_def)
qed

lemma foldl_appendByte: "foldl appendByte r bs = r @ concat (map byte_hex bs)"
  by (induction bs arbitrary: r) (simp_all add: appendByte_hex)

lemma hexValue_digit: "n < 16 \<Longrightarrow> hexValue (hex_digits ! n) = int n"
proof -
  have "\<forall>n \<in> set [0..<16]. hexValue (hex_digits ! n) = int n"
    by (simp add: hexValue_def hex_digits_def upt_rec)
  then show "n < 16 \<Longrightarrow> hexValue (hex_digits ! n) = int n" by simp
qed

lemma of_char_hex_digit: "k < 16 \<Longrightarrow> of_char (hex_digits ! k) = (if k < 10 then 48 + k else 87 + k)"
proof -
  have "\<forall>k \<in> set [0..<16]. of_char (hex_digits ! k) = (if k < 10 then 48 + k else 87 + k)"
    by (simp add: hex_digits_def upt_rec)
  then show "k < 16 \<Longrightarrow> of_char (hex_digits ! k) = (if k < 10 then 48 + k else 87 + k)" by simp
qed

lemma hexValue_inverse:
  assumes "0 \<le> hexValue c"
  obtains k where "k < 16" "hexValue c = int k" "hex_digits ! k = c"
proof -
  define k where "k = nat (hexValue c)"
  have c: "k < 16" "hexValue c = int k" "of_char c = (if k < 10 then 48 + k else 87 + k)"
    using assms by (auto simp: k_def hexValue_def Let_def split: if_splits)
  then have "of_char (hex_digits ! k) = (of_char c :: nat)" using of_char_hex_digit by simp
  then have "hex_digits ! k = c" by (simp only: of_char_eq_iff)
  then show ?thesis using c that by blast
qed

lemma push_or_nibbles:
  assumes "h < 16" "l < (16 :: nat)"
  shows "push_bit 4 (int h) OR int l = int (h * 16 + l)"
proof -
  have "push_bit 4 h OR l = push_bit 4 h + l"
  proof (rule disjunctive_add [symmetric])
    fix n show "\<not> bit (push_bit 4 h) n \<or> \<not> bit l n"
    proof (cases "n < 4")
      case True then show ?thesis by (simp add: bit_push_bit_iff)
    next
      case False
      then have "l < 2 ^ n" using assms(2) power_increasing [of 4 n "2 :: nat"] by simp
      then show ?thesis by (simp add: bit_iff_odd)
    qed
  qed
  moreover have "push_bit 4 (int h) OR int l = int (push_bit 4 h OR l)"
    by (simp only: of_nat_or_eq push_bit_of_nat)
  ultimately show ?thesis by (simp only:) (simp add: push_bit_eq_mult)
qed


lemma take_two: "i + 2 \<le> length s \<Longrightarrow> take 2 (drop i s) = [s ! i, s ! (i + 1)]"
  by (simp add: numeral_2_eq_2 take_Suc_conv_app_nth)

lemma parseByte_iff:
  assumes "i + 2 \<le> length s"
  shows "parseByte s i = Some b \<longleftrightarrow> take 2 (drop i s) = byte_hex b"
proof
  assume h: "parseByte s i = Some b"
  then have "0 \<le> hexValue (s ! i)" "0 \<le> hexValue (s ! (i + 1))"
    by (auto simp: parseByte_def Let_def split: if_splits)
  then obtain k l where k: "k < 16" "hexValue (s ! i) = int k" "hex_digits ! k = s ! i"
    and l: "l < 16" "hexValue (s ! (i + 1)) = int l" "hex_digits ! l = s ! (i + 1)"
    by (metis hexValue_inverse)
  have "b = word_of_nat (k * 16 + l)"
    using h k(2) l(2) push_or_nibbles [OF k(1) l(1)] by (simp add: parseByte_def)
  moreover have "k * 16 + l < 256" using k(1) l(1) by simp
  ultimately have "unat b = k * 16 + l"
    by (simp only: unat_of_nat) (simp add: take_bit_nat_eq_self)
  then have "unat b div 16 = k" "unat b mod 16 = l" using l(1) by simp_all
  then show "take 2 (drop i s) = byte_hex b"
    using take_two [OF assms] k(3) l(3) by (simp add: byte_hex_def)
next
  assume "take 2 (drop i s) = byte_hex b"
  then have e: "s ! i = hex_digits ! (unat b div 16)" "s ! (i + 1) = hex_digits ! (unat b mod 16)"
    using take_two [OF assms] by (simp_all add: byte_hex_def)
  have d: "unat b div 16 < 16" "unat b mod 16 < 16" using unat_u8 [of b] by simp_all
  have "push_bit 4 (int (unat b div 16)) OR int (unat b mod 16) = int (unat b)"
    using push_or_nibbles [OF d] by (simp only: div_mult_mod_eq)
  then show "parseByte s i = Some b"
    using hexValue_digit [OF d(1)] hexValue_digit [OF d(2)]
    unfolding parseByte_def e Let_def by (simp del: of_nat_div of_nat_mod)
qed

lemma length_hex: "length (concat (map byte_hex bs)) = 2 * length bs"
  by (induction bs) simp_all

lemma parseBytes_iff:
  "i + 2 * n \<le> length s \<Longrightarrow>
     parseBytes s i n = Some bs \<longleftrightarrow> length bs = n \<and> take (2 * n) (drop i s) = concat (map byte_hex bs)"
proof (induction n arbitrary: i bs)
  case (Suc n)
  have b: "i + 2 \<le> length s" using Suc.prems by simp
  have t: "take (2 * Suc n) (drop i s) = take 2 (drop i s) @ take (2 * n) (drop (i + 2) s)"
    using take_add [of 2 "2 * n" "drop i s"] by (simp add: add.commute)
  have IH: "parseBytes s (i + 2) n = Some cs \<longleftrightarrow>
      length cs = n \<and> take (2 * n) (drop (i + 2) s) = concat (map byte_hex cs)" for cs
    using Suc.prems by (intro Suc.IH) simp
  have "parseBytes s i (Suc n) = Some bs \<longleftrightarrow>
      (\<exists>c cs. bs = c # cs \<and> parseByte s i = Some c \<and> parseBytes s (i + 2) n = Some cs)"
    by (auto split: option.splits)
  also have "\<dots> \<longleftrightarrow> (\<exists>c cs. bs = c # cs \<and> length cs = n \<and>
      take 2 (drop i s) = byte_hex c \<and> take (2 * n) (drop (i + 2) s) = concat (map byte_hex cs))"
    using parseByte_iff [OF b] IH by blast
  also have "\<dots> \<longleftrightarrow> length bs = Suc n \<and> take (2 * Suc n) (drop i s) = concat (map byte_hex bs)"
  proof (cases bs)
    case (Cons c cs)
    have "length (take 2 (drop i s)) = length (byte_hex c)" using b by simp
    then show ?thesis unfolding Cons t by (auto simp: append_eq_append_conv)
  qed simp
  finally show ?case .
qed auto


subsection \<open>Round trips\<close>

text \<open>The text of a context, flags included as they are.\<close>

definition traceparent :: "TraceContext \<Rightarrow> string" where
  "traceparent c =
     ''00-'' @ concat (map byte_hex (traceId c)) @ ''-'' @ concat (map byte_hex (spanId c)) @ ''-'' @
     byte_hex (flags c)"

lemma formatTraceparent_text: "ctx_valid c \<Longrightarrow> formatTraceparent c = traceparent (masked c)"
  by (simp add: formatTraceparent_def traceparent_def masked_def foldl_appendByte appendByte_hex)

lemma length_traceparent: "wf_context c \<Longrightarrow> length (traceparent c) = 55"
  by (simp add: traceparent_def wf_context_def length_hex)

lemma split_55:
  assumes "length s = 55"
  shows "s = [s ! 0, s ! 1, s ! 2] @ take 32 (drop 3 s) @ [s ! 35] @ take 16 (drop 36 s) @ [s ! 52] @
    take 2 (drop 53 s)"
proof -
  have cut: "drop i s = take n (drop i s) @ drop (i + n) s" for i n
    by (metis append_take_drop_id drop_drop add.commute)
  have one: "take 1 (drop i s) = [s ! i]" if "i < 55" for i
    using that assms by (simp add: take_Suc_conv_app_nth)
  have "s = take 3 s @ drop 3 s" by simp
  also have "take 3 s = [s ! 0, s ! 1, s ! 2]"
    using assms by (simp add: numeral_3_eq_3 take_Suc_conv_app_nth numeral_2_eq_2)
  also have "drop 3 s = take 32 (drop 3 s) @ drop 35 s" using cut [of 3 32] by simp
  also have "drop 35 s = [s ! 35] @ drop 36 s" using cut [of 35 1] one [of 35] by simp
  also have "drop 36 s = take 16 (drop 36 s) @ drop 52 s" using cut [of 36 16] by simp
  also have "drop 52 s = [s ! 52] @ drop 53 s" using cut [of 52 1] one [of 52] by simp
  also have "drop 53 s = take 2 (drop 53 s)" using assms by simp
  finally show ?thesis by simp
qed

lemma parseTraceparent_iff:
  "parseTraceparent s = Some c \<longleftrightarrow> wf_context c \<and> ctx_valid c \<and> s = traceparent c"
proof
  assume h: "parseTraceparent s = Some c"
  then have l: "length s = 55" and d: "s ! 0 = CHR ''0''" "s ! 1 = CHR ''0''" "s ! 2 = CHR ''-''"
      "s ! 35 = CHR ''-''" "s ! 52 = CHR ''-''"
    and p: "parseBytes s 3 16 = Some (traceId c)" "parseBytes s 36 8 = Some (spanId c)"
      "parseByte s 53 = Some (flags c)" and v: "ctx_valid c"
    by (auto simp: parseTraceparent_def Let_def split: if_splits option.splits)
  have "length (traceId c) = 16" "take 32 (drop 3 s) = concat (map byte_hex (traceId c))"
    "length (spanId c) = 8" "take 16 (drop 36 s) = concat (map byte_hex (spanId c))"
    "take 2 (drop 53 s) = byte_hex (flags c)"
    using p parseBytes_iff [of 3 16 s] parseBytes_iff [of 36 8 s] parseByte_iff [of 53 s] l by auto
  then show "wf_context c \<and> ctx_valid c \<and> s = traceparent c"
    using split_55 [OF l] d v by (simp add: wf_context_def traceparent_def)
next
  assume h: "wf_context c \<and> ctx_valid c \<and> s = traceparent c"
  then have l: "length s = 55" using length_traceparent by blast
  have n: "length (traceId c) = 16" "length (spanId c) = 8" using h by (auto simp: wf_context_def)
  have s: "s = [CHR ''0'', CHR ''0'', CHR ''-''] @ concat (map byte_hex (traceId c)) @ [CHR ''-''] @
      concat (map byte_hex (spanId c)) @ [CHR ''-''] @ byte_hex (flags c)"
    using h by (simp add: traceparent_def)
  have d: "s ! 0 = CHR ''0''" "s ! 1 = CHR ''0''" "s ! 2 = CHR ''-''" "s ! 35 = CHR ''-''" "s ! 52 = CHR ''-''"
    and p: "take 32 (drop 3 s) = concat (map byte_hex (traceId c))"
      "take 16 (drop 36 s) = concat (map byte_hex (spanId c))" "take 2 (drop 53 s) = byte_hex (flags c)"
    using n by (simp_all add: s length_hex nth_append)
  have "parseBytes s 3 16 = Some (traceId c)" "parseBytes s 36 8 = Some (spanId c)"
      "parseByte s 53 = Some (flags c)"
    using p n parseBytes_iff [of 3 16 s] parseBytes_iff [of 36 8 s] parseByte_iff [of 53 s] l by auto
  then show "parseTraceparent s = Some c" using l d h
    by (cases c) (simp add: parseTraceparent_def Let_def)
qed


lemma masked_simps [simp]:
  "traceId (masked c) = traceId c" "spanId (masked c) = spanId c"
  "flags (masked c) = flags c AND supported_trace_flags"
  "ctx_valid (masked c) = ctx_valid c" "wf_context (masked c) = wf_context c"
  by (simp_all add: masked_def ctx_valid_def wf_context_def)

text \<open>The text form of a trace context round-trips. Formatting a valid context and parsing the text
  gives the context back with its flags masked to the bits of this version, and a text that parses is
  formatted again as the same text whenever it carries no other flags.\<close>

theorem traceparent_round_trip:
  "(\<forall>c. wf_context c \<and> ctx_valid c \<longrightarrow> parseTraceparent (formatTraceparent c) = Some (masked c)) \<and>
   (\<forall>s c. parseTraceparent s = Some c \<and> masked c = c \<longrightarrow> formatTraceparent c = s)"
  by (auto simp: parseTraceparent_iff formatTraceparent_text)

theorem traceparent_round_trip_witness:
  "let c = \<lparr>traceId = replicate 16 171, spanId = replicate 8 18, flags = 255\<rparr> in
   parseTraceparent (formatTraceparent c) = Some (c\<lparr>flags := 3\<rparr>) \<and>
   formatTraceparent (c\<lparr>flags := 3\<rparr>) = formatTraceparent c"
proof -
  let ?c = "\<lparr>traceId = replicate 16 171, spanId = replicate 8 18, flags = 255\<rparr>"
  have v: "wf_context ?c" "ctx_valid ?c" "masked ?c = ?c\<lparr>flags := 3\<rparr>"
    by (simp_all add: wf_context_def ctx_valid_def isAllZero_def masked_def supported_trace_flags_def
        list_all_iff)
  have m: "masked (?c\<lparr>flags := 3\<rparr>) = ?c\<lparr>flags := 3\<rparr>"
    by (simp add: masked_def supported_trace_flags_def)
  have p: "parseTraceparent (formatTraceparent ?c) = Some (?c\<lparr>flags := 3\<rparr>)"
    using traceparent_round_trip v by metis
  moreover have "formatTraceparent (?c\<lparr>flags := 3\<rparr>) = formatTraceparent ?c"
    using traceparent_round_trip p m by blast
  ultimately show ?thesis by (simp only: Let_def)
qed

lemma parsed_flags_unmasked: "\<exists>s c. parseTraceparent s = Some c \<and> masked c \<noteq> c"
proof -
  let ?c = "\<lparr>traceId = replicate 16 171, spanId = replicate 8 18, flags = 255\<rparr>"
  have "wf_context ?c \<and> ctx_valid ?c"
    by (simp add: wf_context_def ctx_valid_def isAllZero_def list_all_iff)
  then have "parseTraceparent (traceparent ?c) = Some ?c" by (simp add: parseTraceparent_iff)
  moreover have "masked ?c \<noteq> ?c" by (simp add: masked_def supported_trace_flags_def)
  ultimately show ?thesis by blast
qed

lemma length_overlay [simp]: "i + length xs \<le> length buf \<Longrightarrow> length (overlay i xs buf) = length buf"
  by (simp add: overlay_def)

lemma encode_image:
  assumes "wf_context c" "ctx_valid c" "26 \<le> length buf"
  shows "encodeTraceContext c buf =
    (Some 26, traceContextWireVersion # (flags c AND supported_trace_flags) # traceId c @ spanId c @ drop 26 buf)"
proof -
  obtain a b t where buf: "buf = a # b # t"
    using assms(3) by (cases buf; cases "tl buf") auto
  have n: "length (traceId c) = 16" "length (spanId c) = 8" using assms(1) by (auto simp: wf_context_def)
  have "overlay 2 (traceId c) (v # f # t) = v # f # traceId c @ drop 16 t" for v f
    using n by (simp add: overlay_def numeral_2_eq_2)
  moreover have "overlay 18 (spanId c) (v # f # traceId c @ drop 16 t) =
      v # f # traceId c @ spanId c @ drop 24 t" for v f
    using n by (simp add: overlay_def)
  ultimately show ?thesis
    using assms by (simp add: encodeTraceContext_def traceContextWireSize_def buf)
qed

lemma decode_image:
  assumes "length t = 16" "length sp = 8"
  shows "decodeTraceContext (traceContextWireVersion # f # t @ sp) c =
    (let r = \<lparr>traceId = t, spanId = sp, flags = f AND supported_trace_flags\<rparr>
     in (if ctx_valid r then Ok else Malformed, r))"
  using assms
  by (cases c) (simp add: decodeTraceContext_def traceContextWireSize_def Let_def numeral_2_eq_2 ctx_valid_def)


text \<open>C33: A valid context encoded into a buffer with room for it is decoded from those 26 bytes as the
  same context with masked flags; the rest of the buffer is untouched, and whatever the target held
  before does not matter.\<close>

theorem wire_round_trip:
  assumes "wf_context c" "ctx_valid c" "26 \<le> length buf"
  shows "fst (encodeTraceContext c buf) = Some 26 \<and>
    decodeTraceContext (take 26 (snd (encodeTraceContext c buf))) old = (Ok, masked c) \<and>
    drop 26 (snd (encodeTraceContext c buf)) = drop 26 buf"
proof -
  have n: "length (traceId c) = 16" "length (spanId c) = 8" using assms(1) by (auto simp: wf_context_def)
  have "\<lparr>traceId = traceId c, spanId = spanId c, flags = flags c AND supported_trace_flags\<rparr> = masked c"
    by (cases c) (simp add: masked_def)
  then show ?thesis
    using encode_image [OF assms] decode_image [OF n, of "flags c AND supported_trace_flags" old] assms(2) n
    by (simp add: and.assoc Let_def ctx_valid_def)
qed

theorem wire_round_trip_witness:
  "let c = \<lparr>traceId = replicate 16 171, spanId = replicate 8 18, flags = 1\<rparr> in
   decodeTraceContext (take 26 (snd (encodeTraceContext c (replicate 30 7)))) empty_context = (Ok, c)"
proof -
  let ?c = "\<lparr>traceId = replicate 16 171, spanId = replicate 8 18, flags = 1\<rparr>"
  have "wf_context ?c" "ctx_valid ?c" "masked ?c = ?c"
    by (simp_all add: wf_context_def ctx_valid_def isAllZero_def masked_def supported_trace_flags_def
        list_all_iff)
  then show ?thesis
    using wire_round_trip [of ?c "replicate 30 7" empty_context] by (simp only: Let_def) simp
qed

lemma decode_Ok:
  assumes "decodeTraceContext buf old = (Ok, c)"
  shows "length buf = 26 \<and> buf ! 0 = traceContextWireVersion \<and> wf_context c \<and> ctx_valid c \<and> masked c = c"
  using assms
  by (cases old)
    (auto simp: decodeTraceContext_def traceContextWireSize_def Let_def wf_context_def masked_def and.assoc
      split: if_splits)

lemma decode_unknown_keeps:
  "fst (decodeTraceContext buf old) = UnknownVersion \<Longrightarrow> snd (decodeTraceContext buf old) = old"
  by (auto simp: decodeTraceContext_def Let_def split: if_splits)

subsection \<open>Sampling\<close>

lemma round_pos_mono: "x \<le> y \<Longrightarrow> round_pos x \<le> round_pos y"
  by (simp add: round_pos_def floor_mono)

lemma round_pos_range:
  assumes "0 < r" "r < 1"
  shows "0 \<le> round_pos (r * 2 ^ 56)" "round_pos (r * 2 ^ 56) \<le> 2 ^ 56"
proof -
  have "0 \<le> r * 2 ^ 56 + 1 / 2" using assms by simp
  then show "0 \<le> round_pos (r * 2 ^ 56)" by (simp add: round_pos_def)
  have "r * 2 ^ 56 + 1 / 2 < 2 ^ 56 + 1" using assms by simp
  then show "round_pos (r * 2 ^ 56) \<le> 2 ^ 56"
    unfolding round_pos_def by (simp add: floor_le_iff)
qed

lemma unat_sampling_threshold:
  assumes "0 < r" "r < 1"
  shows "int (unat (sampling_threshold r)) = 2 ^ 56 - round_pos (r * 2 ^ 56)"
proof -
  let ?k = "round_pos (r * 2 ^ 56)"
  have k: "0 \<le> ?k" "?k \<le> 2 ^ 56" using round_pos_range [OF assms] by auto
  have "sampling_threshold r = word_of_int (2 ^ 56 - ?k)"
    by (simp add: sampling_threshold_def)
  then have "uint (sampling_threshold r) = take_bit 64 (2 ^ 56 - ?k)"
    by (simp only: uint_word_of_int_eq) simp
  also have "\<dots> = 2 ^ 56 - ?k" using k by (intro take_bit_int_eq_self) auto
  finally show ?thesis by simp
qed

fun ratio_le :: "double \<Rightarrow> double \<Rightarrow> bool" where
  "ratio_le (Finite a) (Finite b) = (a \<le> b)"
| "ratio_le (Finite a) (Infinite neg) = (\<not> neg)"
| "ratio_le (Infinite neg) d = (neg \<and> d \<noteq> NaN \<or> d = Infinite False)"
| "ratio_le _ _ = False"

text \<open>C34: Sampling is consistent: what a sampler keeps at one ratio, a sampler at any higher ratio keeps
  too, whatever the ratios, infinities included. The smallest ratio the configuration accepts keeps
  the contexts whose random part is all ones, so no accepted positive ratio means never.\<close>

theorem sampling_consistent:
  "(\<forall>c lo hi. ratio_le lo hi \<and> sampledByRatio c lo \<longrightarrow> sampledByRatio c hi) \<and>
   (\<forall>c r. ctx_valid c \<and> 1 / 2 ^ 56 \<le> r \<and> traceIdRandomness c = 2 ^ 56 - 1 \<longrightarrow> sampledByRatio c (Finite r))"
proof (intro conjI allI impI)
  fix c lo hi assume h: "ratio_le lo hi \<and> sampledByRatio c lo"
  show "sampledByRatio c hi"
  proof (cases "\<exists>a b. lo = Finite a \<and> hi = Finite b \<and> b < 1")
    case True
    then obtain a b where ab: "lo = Finite a" "hi = Finite b" "a \<le> b" "b < 1" using h by auto
    have p: "0 < a" and t: "sampling_threshold a \<le> traceIdRandomness c" and v: "ctx_valid c"
      using h ab by (auto simp: sampledByRatio_def split: if_splits)
    have "int (unat (sampling_threshold b)) \<le> int (unat (sampling_threshold a))"
      using unat_sampling_threshold p ab round_pos_mono [of "a * 2 ^ 56" "b * 2 ^ 56"] by simp
    then have "sampling_threshold b \<le> sampling_threshold a" by (simp add: word_le_def)
    then show ?thesis using t v p ab by (auto simp: sampledByRatio_def)
  next
    case False
    then show ?thesis
      using h by (cases lo; cases hi) (auto simp: sampledByRatio_def split: if_splits)
  qed
next
  fix c and r :: rat
  assume h: "ctx_valid c \<and> 1 / 2 ^ 56 \<le> r \<and> traceIdRandomness c = 2 ^ 56 - 1"
  then have p: "0 < r" by (auto intro: less_le_trans [of 0 "1 / 2 ^ 56"])
  show "sampledByRatio c (Finite r)"
  proof (cases "r < 1")
    case True
    have "1 \<le> r * 2 ^ 56" using h by (simp add: divide_le_eq)
    then have "1 \<le> round_pos (r * 2 ^ 56)" by (simp add: round_pos_def le_floor_iff)
    then have "int (unat (sampling_threshold r)) \<le> 2 ^ 56 - 1"
      using unat_sampling_threshold [OF p True] by simp
    then have "sampling_threshold r \<le> 2 ^ 56 - 1" by (simp add: word_le_def)
    then show ?thesis using h p by (simp add: sampledByRatio_def)
  next
    case False
    then show ?thesis using h p by (simp add: sampledByRatio_def)
  qed
qed


theorem sampling_consistent_witness:
  "let c = \<lparr>traceId = replicate 16 255, spanId = replicate 8 18, flags = 0\<rparr> in
   sampledByRatio c (Finite (1 / 2 ^ 56)) \<and> sampledByRatio c (Finite (1 / 2))"
proof -
  let ?c = "\<lparr>traceId = replicate 16 255, spanId = replicate 8 18, flags = 0\<rparr>"
  have v: "ctx_valid ?c" by (simp add: ctx_valid_def isAllZero_def list_all_iff)
  have "replicate 7 x = [x, x, x, x, x, x, x]" for x :: u8
    by (simp add: eval_nat_numeral)
  then have t: "traceIdRandomness ?c = 2 ^ 56 - 1"
    by (simp add: traceIdRandomness_def)
  have lo: "sampledByRatio ?c (Finite (1 / 2 ^ 56))"
    using v t by (intro conjunct2 [OF sampling_consistent, rule_format] conjI order_refl)
  have "sampledByRatio ?c (Finite (1 / 2))"
    by (rule conjunct1 [OF sampling_consistent, rule_format, of "Finite (1 / 2 ^ 56)"]) (use lo in simp)
  then show ?thesis using lo by (simp only: Let_def)
qed

lemma parseSampleRatio_range:
  "parseSampleRatio atod s = Some d \<Longrightarrow> \<exists>r. d = Finite r \<and> 0 \<le> r \<and> r \<le> 1 \<and> (r = 0 \<or> 1 / 2 ^ 56 \<le> r)"
  by (auto simp: parseSampleRatio_def split: option.splits double.splits if_splits)

lemma resolved_ratio_range:
  "resolveTraceSampleRatio atod env = Inr d \<Longrightarrow>
     \<exists>r. d = Finite r \<and> 0 \<le> r \<and> r \<le> 1 \<and> (r = 0 \<or> 1 / 2 ^ 56 \<le> r)"
  by (auto simp: resolveTraceSampleRatio_def dest: parseSampleRatio_range
      split: option.splits sum.splits if_splits)


subsection \<open>Generated identifiers\<close>

lemma draw_until_Drawn:
  "draw_until ok n ds = Drawn bs rest \<Longrightarrow> ok bs \<and> length bs = n \<and> (\<exists>used. ds = used @ rest)"
proof (induction ok n ds rule: draw_until.induct)
  case (3 ok n f ds)
  show ?case
  proof (cases "ok (map f [0..<n])")
    case True
    then show ?thesis using 3 by (auto simp: Let_def)
  next
    case False
    then obtain used where "ok bs \<and> length bs = n" "ds = used @ rest" using 3 by (auto simp: Let_def)
    then show ?thesis by (metis append_Cons)
  qed
qed auto

lemma draw_until_StillDrawing:
  "draw_until ok n ds = StillDrawing \<longleftrightarrow> (\<forall>d \<in> set ds. \<exists>f. d = Bytes f \<and> \<not> ok (map f [0..<n]))"
  by (induction ok n ds rule: draw_until.induct) (auto simp: Let_def)

lemma sampledByRatio_flags [simp]: "sampledByRatio (c\<lparr>flags := f\<rparr>) ratio = sampledByRatio c ratio"
  by (simp add: sampledByRatio_def ctx_valid_def traceIdRandomness_def split: double.splits)

lemma generateInto_Drawn:
  assumes "generateInto c0 ratio ds = Drawn c rest"
  shows "wf_context c \<and> ctx_valid c \<and> masked c = c \<and> (sampled c \<longleftrightarrow> sampledByRatio c ratio)"
proof -
  obtain t ds1 where t: "draw_until (\<lambda>bs. \<not> isAllZero bs) 16 ds = Drawn t ds1"
    using assms by (auto simp: generateInto_def split: drawn.splits)
  obtain sp where sp: "draw_until (\<lambda>bs. \<not> isAllZero bs) 8 ds1 = Drawn sp rest"
    and c: "c = (let c = c0\<lparr>traceId := t, spanId := sp, flags := 2\<rparr>
        in if sampledByRatio c ratio then c\<lparr>flags := flags c OR 1\<rparr> else c)"
    using assms t by (auto simp: generateInto_def Let_def split: drawn.splits)
  show ?thesis
    using draw_until_Drawn [OF t] draw_until_Drawn [OF sp]
    by (auto simp: c Let_def wf_context_def ctx_valid_def masked_def sampled_def supported_trace_flags_def)
qed

text \<open>The context of a new request is either generated, and then it is valid, carries no flags beyond
  those of this version and is marked sampled exactly when the tracer's ratio selects it, or its
  random source failed, and then it is empty and the failure has been reported. The context of a post
  keeps the trace id and flags of its request. An id that is drawn is never zero.\<close>

theorem generated_contexts:
  assumes "TraceContext_ctor (Some t) ds = Drawn (c, t') ds1"
    and "generatePostContext c t' ds1 = Drawn (p, t'') ds2"
    and "generateRequestId t'' ds2 = Drawn (i, t''') rest"
  shows "(wf_context c \<and> ctx_valid c \<and> masked c = c \<and> (sampled c \<longleftrightarrow> sampledByRatio c (sampleRatio t)) \<or>
      c = empty_context \<and> (\<exists>u. t' = Some u \<and> contextFailureLogged u)) \<and>
    traceId p = traceId c \<and> flags p = flags c \<and> (ctx_valid c \<longrightarrow> ctx_valid p) \<and>
    (i = 0 \<longrightarrow> (\<exists>u. t''' = Some u \<and> contextFailureLogged u))"
proof -
  have c: "wf_context c \<and> ctx_valid c \<and> masked c = c \<and> (sampled c \<longleftrightarrow> sampledByRatio c (sampleRatio t)) \<or>
      c = empty_context \<and> (\<exists>u. t' = Some u \<and> contextFailureLogged u)"
    using assms(1) by (auto simp: TraceContext_ctor_def reportContextFailure_def
        dest: generateInto_Drawn split: drawn.splits)
  have t: "\<exists>u. t' = Some u" using assms(1) by (auto simp: TraceContext_ctor_def split: drawn.splits)
  have p: "traceId p = traceId c \<and> flags p = flags c \<and> (ctx_valid c \<longrightarrow> ctx_valid p) \<and> (\<exists>u. t'' = Some u)"
    using assms(2) t by (auto simp: generatePostContext_def ctx_valid_def
        dest!: draw_until_Drawn split: drawn.splits)
  have "i = 0 \<longrightarrow> (\<exists>u. t''' = Some u \<and> contextFailureLogged u)"
    using assms(3) p by (auto simp: generateRequestId_def reportContextFailure_def
        dest!: draw_until_Drawn split: drawn.splits)
  then show ?thesis using c p by blast
qed

theorem generated_contexts_witness:
  "\<exists>c t' ds1 p t'' ds2 i t''' rest.
     TraceContext_ctor (Some \<lparr>sampleRatio = Finite 1, contextFailureLogged = False\<rparr>)
       [Bytes (\<lambda>_. 0), Bytes (\<lambda>_. 9), Bytes (\<lambda>_. 8), Bytes (\<lambda>_. 7), Throws] = Drawn (c, t') ds1 \<and>
     generatePostContext c t' ds1 = Drawn (p, t'') ds2 \<and>
     generateRequestId t'' ds2 = Drawn (i, t''') rest \<and>
     sampled c \<and> traceId p = traceId c \<and> i = 0 \<and> (\<exists>u. t''' = Some u \<and> contextFailureLogged u)"
proof -
  let ?t = "\<lparr>sampleRatio = Finite 1, contextFailureLogged = False\<rparr>"
  let ?ds = "[Bytes (\<lambda>_. 0), Bytes (\<lambda>_. 9), Bytes (\<lambda>_. 8), Bytes (\<lambda>_. 7), Throws]"
  let ?c = "\<lparr>traceId = replicate 16 9, spanId = replicate 8 8, flags = 3\<rparr>"
  have m: "map (\<lambda>_. x) [0..<n] = replicate n x" for x :: u8 and n
    by (simp add: map_replicate_const)
  have s: "sampledByRatio \<lparr>traceId = replicate 16 9, spanId = replicate 8 8, flags = 2\<rparr> (Finite 1)"
    by (simp add: sampledByRatio_def ctx_valid_def isAllZero_def list_all_iff)
  have 1: "TraceContext_ctor (Some ?t) ?ds = Drawn (?c, Some ?t) [Bytes (\<lambda>_. 7), Throws]"
    using s by (simp add: TraceContext_ctor_def generateInto_def m isAllZero_def list_all_iff Let_def empty_context_def)
  have 2: "generatePostContext ?c (Some ?t) [Bytes (\<lambda>_. 7), Throws] =
      Drawn (?c\<lparr>spanId := replicate 8 7\<rparr>, Some ?t) [Throws]"
    by (simp add: generatePostContext_def m isAllZero_def list_all_iff Let_def)
  have 3: "generateRequestId (Some ?t) [Throws] =
      Drawn (0, Some (?t\<lparr>contextFailureLogged := True\<rparr>)) []"
    by (simp add: generateRequestId_def reportContextFailure_def)
  have g: "traceId (?c\<lparr>spanId := replicate 8 7\<rparr>) = traceId ?c"
      "\<exists>u. Some (?t\<lparr>contextFailureLogged := True\<rparr>) = Some u \<and> contextFailureLogged u"
    using generated_contexts [OF 1 2 3] by blast+
  have "sampled ?c" by (simp add: sampled_def)
  then show ?thesis using 1 2 3 g by blast
qed


subsection \<open>Buffered bytes and identifiers\<close>

definition rb_wf :: "RandomBuffer \<Rightarrow> bool" where
  "rb_wf rb \<longleftrightarrow> length (rb_block rb) = blockSize \<and> rb_used rb \<le> blockSize"

definition rb_pending :: "RandomBuffer \<Rightarrow> u8 list" where
  "rb_pending rb = drop (rb_used rb) (rb_block rb)"

fun draw_block :: "draw \<Rightarrow> u8 list" where
  "draw_block (Bytes f) = map f [0..<blockSize]"
| "draw_block Throws = []"

lemma take_drop_drop: "take k (drop u xs) @ drop (u + k) xs = drop u xs"
  by (metis append_take_drop_id drop_drop add.commute)

lemma rb_chunk_pending:
  assumes "rb_wf rb" "rb_chunk n rb = (bs, rb')"
  shows "rb_wf rb'" "bs @ rb_pending rb' = rb_pending rb" "length bs = min n (blockSize - rb_used rb)"
  using assms by (auto simp: rb_chunk_def rb_wf_def rb_pending_def Let_def take_drop_drop)

definition rb_served :: "nat \<Rightarrow> RandomBuffer \<Rightarrow> draw list \<Rightarrow> u8 list \<Rightarrow> RandomBuffer \<Rightarrow> draw list \<Rightarrow> bool" where
  "rb_served n rb ds new rb' rest \<longleftrightarrow>
     length new = n \<and> rb_wf rb' \<and>
     (\<exists>used. ds = used @ rest \<and> new @ rb_pending rb' = rb_pending rb @ concat (map draw_block used))"

lemma rb_served_chunk:
  assumes "rb_wf rb" "rb_chunk n rb = (cs, rb1)"
    and "rb_served (n - min n (blockSize - rb_used rb)) rb1 ds new rb' rest"
  shows "rb_served n rb ds (cs @ new) rb' rest"
proof -
  note p = rb_chunk_pending [OF assms(1,2)]
  obtain used where u: "ds = used @ rest"
    "new @ rb_pending rb' = rb_pending rb1 @ concat (map draw_block used)"
    using assms(3) by (auto simp: rb_served_def)
  have "(cs @ new) @ rb_pending rb' = (cs @ rb_pending rb1) @ concat (map draw_block used)"
    using u(2) by simp
  then show ?thesis
    using assms(3) p u(1) by (auto simp: rb_served_def)
qed

lemma rb_served_refill:
  assumes "rb_wf rb" "blockSize \<le> rb_used rb"
    and "rb_served n \<lparr>rb_used = 0, rb_block = map f [0..<blockSize]\<rparr> ds new rb' rest"
  shows "rb_served n rb (Bytes f # ds) new rb' rest"
proof -
  have "rb_pending rb = []" using assms(1,2) by (simp add: rb_pending_def rb_wf_def)
  moreover obtain used where "ds = used @ rest"
    "new @ rb_pending rb' = map f [0..<blockSize] @ concat (map draw_block used)"
    using assms(3) by (auto simp: rb_served_def rb_pending_def)
  ultimately show ?thesis
    using assms(3) unfolding rb_served_def by (intro conjI exI [of _ "Bytes f # used"]) auto
qed

text \<open>Bytes handed out by the buffered random source are never handed out twice. A call that
  succeeds returns as many bytes as asked for, and what it returns, followed by what is left in the
  block, is what was left before, followed by the blocks drawn from the system in between.\<close>

theorem random_bytes_fresh:
  assumes "rb_wf rb" "rb_fill n rb ds out = Drawn (bs, rb') rest"
  shows "\<exists>new used. bs = out @ new \<and> length new = n \<and> rb_wf rb' \<and> ds = used @ rest \<and>
    new @ rb_pending rb' = rb_pending rb @ concat (map draw_block used)"
proof -
  have "\<exists>new. bs = out @ new \<and> rb_served n rb ds new rb' rest"
    using assms
  proof (induction n rb ds out rule: rb_fill.induct)
    case (1 n rb ds out)
    let ?fresh = "\<lambda>f. \<lparr>rb_used = 0, rb_block = map f [0..<blockSize]\<rparr>"
    consider "n = 0"
      | f ds' cs rb1 where "n \<noteq> 0" "blockSize \<le> rb_used rb" "ds = Bytes f # ds'" "rb_chunk n (?fresh f) = (cs, rb1)"
          "rb_fill (n - min n blockSize) rb1 ds' (out @ cs) = Drawn (bs, rb') rest"
      | cs rb1 where "n \<noteq> 0" "\<not> blockSize \<le> rb_used rb" "rb_chunk n rb = (cs, rb1)"
          "rb_fill (n - min n (blockSize - rb_used rb)) rb1 ds (out @ cs) = Drawn (bs, rb') rest"
      using "1.prems"(2)
      by (subst (asm) rb_fill.simps) (auto split: if_splits list.splits draw.splits prod.splits)
    then show ?case
    proof cases
      case 1
      then show ?thesis using "1.prems" by (auto simp: rb_fill.simps [of 0] rb_served_def)
    next
      case (2 f ds' cs rb1)
      have w: "rb_wf (?fresh f)" by (simp add: rb_wf_def)
      obtain new where "bs = (out @ cs) @ new" "rb_served (n - min n blockSize) rb1 ds' new rb' rest"
        using "1.IH"(1) [OF 2(1,2,3) refl 2(4) [symmetric] refl rb_chunk_pending(1) [OF w 2(4)]] 2(5) by auto
      then show ?thesis
        using rb_served_refill [OF "1.prems"(1) 2(2)] rb_served_chunk [OF w 2(4)] 2(3) by auto
    next
      case (3 cs rb1)
      obtain new where "bs = (out @ cs) @ new"
        "rb_served (n - min n (blockSize - rb_used rb)) rb1 ds new rb' rest"
        using "1.IH"(2) [OF 3(1,2) 3(3) [symmetric] refl rb_chunk_pending(1) [OF "1.prems"(1) 3(3)]] 3(4) by auto
      then show ?thesis using rb_served_chunk [OF "1.prems"(1) 3(3)] by auto
    qed
  qed
  then show ?thesis by (auto simp: rb_served_def)
qed


theorem random_bytes_fresh_witness:
  "\<exists>new used. [7, 7] = [] @ new \<and> length new = 2 \<and>
     new @ rb_pending \<lparr>rb_used = 2, rb_block = map (\<lambda>_. 7) [0..<blockSize]\<rparr> =
       rb_pending rb_init @ concat (map draw_block used)"
proof -
  have "rb_wf rb_init" by (simp add: rb_wf_def rb_init_def)
  moreover have "rb_fill 2 rb_init [Bytes (\<lambda>_. 7)] [] =
      Drawn ([7, 7], \<lparr>rb_used = 2, rb_block = map (\<lambda>_. 7) [0..<blockSize]\<rparr>) []"
    using replicate_two [of 7]
    by (simp add: rb_fill.simps [of 2] rb_fill.simps [of 0] rb_init_def rb_chunk_def blockSize_def
        map_replicate_const)
  ultimately show ?thesis using random_bytes_fresh by metis
qed

lemma clear_discards: "rb_wf rb \<Longrightarrow> rb_wf (rb_clear rb) \<and> rb_pending (rb_clear rb) = []"
  by (simp add: rb_wf_def rb_clear_def rb_pending_def)

lemma generateRandomBytes_length:
  "generateRandomBytes n ds out = Drawn bs rest \<Longrightarrow> length bs = length out + n"
  by (induction n ds out rule: generateRandomBytes.induct)
    (auto simp: Let_def split: if_splits draw.splits)

definition uuid_text :: "u8 list \<Rightarrow> string" where
  "uuid_text bs =
     (let hex = \<lambda>a b. concat (map byte_hex (take (b - a) (drop a bs)))
      in hex 0 4 @ ''-'' @ hex 4 6 @ ''-'' @ hex 6 8 @ ''-'' @ hex 8 10 @ ''-'' @ hex 10 16)"

lemma uuid_fields:
  assumes "length bs = 16"
  obtains a b c d e f g h i j k l m n p q where "bs = [a, b, c, d, e, f, g, h, i, j, k, l, m, n, p, q]"
proof -
  have "bs = map (\<lambda>i. bs ! i) [0..<16]" using assms by (metis map_nth)
  then show ?thesis using that by (simp add: upt_rec) 
qed

lemma to_string_text: "length bs = 16 \<Longrightarrow> UUIDv4_to_string bs = uuid_text bs"
  by (erule uuid_fields) (simp add: UUIDv4_to_string_def uuid_text_def appendByte_hex upt_rec Let_def)

lemma byte_hex_inject: "byte_hex a = byte_hex b \<longleftrightarrow> a = b"
  using parseByte_iff [of 0 "byte_hex a" a] parseByte_iff [of 0 "byte_hex a" b] by auto

lemma hex_inject: "length xs = length ys \<Longrightarrow> concat (map byte_hex xs) = concat (map byte_hex ys) \<longleftrightarrow> xs = ys"
  by (induction xs ys rule: list_induct2) (auto simp: byte_hex_inject append_eq_append_conv)

lemma version_nibble: "unat ((x AND 15) OR 64 :: u8) div 16 = 4"
proof -
  have "drop_bit 4 ((x AND 15) OR 64 :: u8) = 4" by (simp add: drop_bit_or drop_bit_and)
  then have "unat (drop_bit 4 ((x AND 15) OR 64 :: u8)) = 4" by simp
  then show ?thesis by (simp add: unat_div drop_bit_eq_div)
qed

lemma UUIDv4_ctor_Drawn:
  "UUIDv4_ctor ds = Drawn bs rest \<Longrightarrow> length bs = 16 \<and> (\<exists>x. bs ! 6 = (x AND 15) OR 64)"
  by (auto simp: UUIDv4_ctor_def Let_def dest!: generateRandomBytes_length split: drawn.splits)

text \<open>A generated UUID is well-formed: its text has 36 characters, with dashes after 8, 13, 18 and 23
  characters, the digit 4 for the version, and two identifiers have the same text only if all
  their bytes are equal.\<close>

theorem uuid_text_faithful:
  assumes "UUIDv4_ctor ds = Drawn bs rest" "UUIDv4_ctor ds' = Drawn cs rest'"
  shows "length (UUIDv4_to_string bs) = 36 \<and>
    UUIDv4_to_string bs ! 8 = CHR ''-'' \<and> UUIDv4_to_string bs ! 13 = CHR ''-'' \<and>
    UUIDv4_to_string bs ! 18 = CHR ''-'' \<and> UUIDv4_to_string bs ! 23 = CHR ''-'' \<and>
    UUIDv4_to_string bs ! 14 = CHR ''4'' \<and>
    (UUIDv4_to_string bs = UUIDv4_to_string cs \<longleftrightarrow> bs = cs)"
proof -
  have l: "length bs = 16" "length cs = 16"
    using UUIDv4_ctor_Drawn [OF assms(1)] UUIDv4_ctor_Drawn [OF assms(2)] by auto
  obtain x where x: "bs ! 6 = (x AND 15) OR 64" using UUIDv4_ctor_Drawn [OF assms(1)] by auto
  obtain a b c d e f g h i j k l m n p q where bs: "bs = [a, b, c, d, e, f, g, h, i, j, k, l, m, n, p, q]"
    using l(1) by (rule uuid_fields)
  obtain a' b' c' d' e' f' g' h' i' j' k' l' m' n' p' q' where
    cs: "cs = [a', b', c', d', e', f', g', h', i', j', k', l', m', n', p', q']"
    using l(2) by (rule uuid_fields)
  have "hex_digits ! (unat g div 16) = CHR ''4''"
    using x version_nibble [of x] by (simp add: bs hex_digits_def)
  then show ?thesis
    unfolding to_string_text [OF l(1)] to_string_text [OF l(2)]
    by (auto simp: uuid_text_def bs cs Let_def byte_hex_inject append_eq_append_conv)
      (simp_all add: byte_hex_def)
qed



end
