(* ===== verification/Nixl_ProxyConfig.thy ===== *)
theory Nixl_ProxyConfig
  imports Nixl_Config "HOL-Library.Sublist"
begin

unbundle bit_operations_syntax

text \<open>
  Configuration of the device proxy (\<open>src/utils/device/proxy/proxy_config.h\<close>, \<open>proxy_config.cpp\<close>): the
  backend parameters, their validation, and the division of the (channel, peer) rings among the
  proxy threads. Counts are 32-bit words. Shown: a configuration that is accepted gives every ring
  exactly one thread, and every thread rings that exist.
\<close>

subsection \<open>The configuration\<close>

record proxyConfig =
  enabled :: bool
  channel_count :: u32
  thread_count :: u32
  max_peers :: u32
  ring_depth :: u32
  drain_timeout_ms :: u32

record proxyPeerSlice =
  ps_first :: u32
  ps_stride :: u32

record proxyThreadShare =
  first_channel :: u32
  share_channels :: u32
  share_peers :: proxyPeerSlice

definition kDefaultProxyChannelCount :: u32 where "kDefaultProxyChannelCount = 4"
definition kDefaultProxyMaxPeers :: u32 where "kDefaultProxyMaxPeers = 8"
definition kDefaultProxyRingDepth :: u32 where "kDefaultProxyRingDepth = 256"
definition kDefaultProxyDrainTimeoutMs :: u32 where "kDefaultProxyDrainTimeoutMs = 60000"

definition kProxyEnabledParam :: string where "kProxyEnabledParam = ''device_proxy''"
definition kProxyChannelCountParam :: string where "kProxyChannelCountParam = ''proxy_channel_count''"
definition kProxyThreadCountParam :: string where "kProxyThreadCountParam = ''proxy_thread_count''"
definition kProxyMaxPeersParam :: string where "kProxyMaxPeersParam = ''proxy_max_peers''"
definition kProxyRingDepthParam :: string where "kProxyRingDepthParam = ''proxy_ring_depth''"
definition kProxyDrainTimeoutParam :: string where "kProxyDrainTimeoutParam = ''proxy_drain_timeout_ms''"

definition kKnownProxyParams :: "string list" where
  "kKnownProxyParams =
     [kProxyEnabledParam, kProxyChannelCountParam, kProxyThreadCountParam, kProxyMaxPeersParam,
      kProxyRingDepthParam, kProxyDrainTimeoutParam]"

definition ringCount :: "proxyConfig \<Rightarrow> u64" where
  "ringCount c = ucast (channel_count c) * ucast (max_peers c)"

definition evenThreadSplit :: "proxyConfig \<Rightarrow> bool" where
  "evenThreadSplit c \<longleftrightarrow>
     (if thread_count c = 0 \<or> channel_count c = 0 then False
      else if thread_count c \<le> channel_count c then channel_count c mod thread_count c = 0
      else thread_count c mod channel_count c = 0 \<and> max_peers c mod (thread_count c div channel_count c) = 0)"

definition threadShare :: "proxyConfig \<Rightarrow> u32 \<Rightarrow> proxyThreadShare" where
  "threadShare c thread =
     (if thread_count c \<le> channel_count c then
        let channels = channel_count c div thread_count c
        in \<lparr>first_channel = thread * channels, share_channels = channels,
            share_peers = \<lparr>ps_first = 0, ps_stride = 1\<rparr>\<rparr>
      else
        let per_channel = thread_count c div channel_count c
        in \<lparr>first_channel = thread div per_channel, share_channels = 1,
            share_peers = \<lparr>ps_first = thread mod per_channel, ps_stride = per_channel\<rparr>\<rparr>)"

subsection \<open>Parsing\<close>

definition isPowerOfTwo :: "u32 \<Rightarrow> bool" where
  "isPowerOfTwo v \<longleftrightarrow> v \<noteq> 0 \<and> v AND (v - 1) = 0"

definition isProxyParamKey :: "string \<Rightarrow> bool" where
  "isProxyParamKey key \<longleftrightarrow> prefix ''device_proxy'' key \<or> prefix ''proxy_'' key"

text \<open>The loop over the parameters: an unknown key ends it, the first tuning key is remembered.\<close>

fun scan_params :: "nixl_b_params_t \<Rightarrow> string \<Rightarrow> nixl_status_t + string" where
  "scan_params [] tuning_key = Inr tuning_key"
| "scan_params ((key, v) # ps) tuning_key =
     (if \<not> isProxyParamKey key then scan_params ps tuning_key
      else if key \<notin> set kKnownProxyParams then Inl NIXL_ERR_INVALID_PARAM
      else scan_params ps (if key \<noteq> kProxyEnabledParam \<and> tuning_key = [] then key else tuning_key))"

definition convert_u32 :: "string \<Rightarrow> config_error + u32" where
  "convert_u32 s = (case convert_int (Unsigned 32) s of Inl e \<Rightarrow> Inl e | Inr v \<Rightarrow> Inr (word_of_int v))"

definition value_or :: "'a option \<Rightarrow> 'a \<Rightarrow> 'a" where
  "value_or x d = (case x of None \<Rightarrow> d | Some v \<Rightarrow> v)"

definition err_bind :: "'e + 'a \<Rightarrow> ('a \<Rightarrow> 'e + 'b) \<Rightarrow> 'e + 'b" where
  "err_bind x f = (case x of Inl e \<Rightarrow> Inl e | Inr v \<Rightarrow> f v)"

text \<open>The body of the \<open>try\<close>.\<close>

definition read_params :: "nixl_b_params_t option \<Rightarrow> config_error + proxyConfig" where
  "read_params params =
     err_bind (getBackendParamDefaulted_ptr convert_bool params kProxyEnabledParam False) (\<lambda>en.
     err_bind (getBackendParamOptional_ptr convert_u32 params kProxyChannelCountParam) (\<lambda>cc.
     err_bind (getBackendParamOptional_ptr convert_u32 params kProxyThreadCountParam) (\<lambda>tc.
     err_bind (getBackendParamOptional_ptr convert_u32 params kProxyMaxPeersParam) (\<lambda>mp.
     err_bind (getBackendParamOptional_ptr convert_u32 params kProxyRingDepthParam) (\<lambda>rd.
     err_bind (getBackendParamOptional_ptr convert_u32 params kProxyDrainTimeoutParam) (\<lambda>dt.
       let channels = value_or cc kDefaultProxyChannelCount
       in Inr \<lparr>enabled = en, channel_count = channels, thread_count = value_or tc channels,
              max_peers = value_or mp kDefaultProxyMaxPeers,
              ring_depth = value_or rd kDefaultProxyRingDepth,
              drain_timeout_ms = value_or dt kDefaultProxyDrainTimeoutMs\<rparr>))))))"

definition parseProxyConfig ::
  "nixl_b_params_t option \<Rightarrow> bool \<Rightarrow> proxyConfig \<Rightarrow> nixl_status_t \<times> proxyConfig" where
  "parseProxyConfig params enableProgTh config =
     (case (case params of None \<Rightarrow> Inr [] | Some p \<Rightarrow> scan_params p []) of
        Inl st \<Rightarrow> (st, config)
      | Inr tuning_key \<Rightarrow>
          (case read_params params of
             Inl _ \<Rightarrow> (NIXL_ERR_INVALID_PARAM, config)
           | Inr parsed \<Rightarrow>
               if \<not> enabled parsed then
                 (if tuning_key \<noteq> [] then (NIXL_ERR_INVALID_PARAM, config) else (NIXL_SUCCESS, parsed))
               else if channel_count parsed = 0 \<or> thread_count parsed = 0 \<or> max_peers parsed = 0 then
                 (NIXL_ERR_INVALID_PARAM, config)
               else if \<not> isPowerOfTwo (ring_depth parsed) then (NIXL_ERR_INVALID_PARAM, config)
               else if enableProgTh then (NIXL_ERR_NOT_ALLOWED, config)
               else if \<not> evenThreadSplit parsed then (NIXL_ERR_INVALID_PARAM, config)
               else (NIXL_SUCCESS, parsed)))"


text \<open>The loop over a slice of a channel's peers: \<open>for (peer = first; peer < count; peer += stride)\<close>.\<close>

function slice_from :: "nat \<Rightarrow> nat \<Rightarrow> nat \<Rightarrow> nat list" where
  "slice_from p stride size_n =
     (if p < size_n \<and> 0 < stride then p # slice_from (p + stride) stride size_n else [])"
  by pat_completeness auto
termination
  by (relation "measure (\<lambda>(p, stride, size_n). size_n - p)") auto

declare slice_from.simps [simp del]

definition slice_peers :: "proxyPeerSlice \<Rightarrow> nat \<Rightarrow> nat list" where
  "slice_peers sl size_n = slice_from (unat (ps_first sl)) (unat (ps_stride sl)) size_n"

subsection \<open>Every ring has one thread\<close>

text \<open>The rings of a thread: its channels, and of each the peers of its slice.\<close>

definition owned_rings :: "proxyConfig \<Rightarrow> u32 \<Rightarrow> (nat \<times> nat) set" where
  "owned_rings c thread =
     (let share = threadShare c thread
      in {unat (first_channel share)..<unat (first_channel share) + unat (share_channels share)} \<times>
         set (slice_peers (share_peers share) (unat (max_peers c))))"

lemma slice_key:
  assumes "0 < (d :: nat)"
  shows "p \<le> q \<and> (q - p) mod d = 0 \<longleftrightarrow> q = p \<or> p + d \<le> q \<and> (q - (p + d)) mod d = 0"
proof (cases "p + d \<le> q")
  case True
  then have "q - p = (q - (p + d)) + d" by simp
  then have "(q - p) mod d = (q - (p + d)) mod d" using mod_add_self2 [of "q - (p + d)" d] by simp
  moreover have "q \<noteq> p" "p \<le> q" using True assms by simp_all
  ultimately show ?thesis using True by simp
next
  case False
  have "p \<le> q \<and> (q - p) mod d = 0 \<longleftrightarrow> q = p"
  proof
    assume h: "p \<le> q \<and> (q - p) mod d = 0"
    then have "(q - p) mod d = q - p" using False by (intro mod_less) linarith
    then show "q = p" using h by linarith
  qed simp
  then show ?thesis using False by simp
qed

lemma insert_bounded: "p < (n :: nat) \<Longrightarrow> insert p {q. q < n \<and> R q} = {q. q < n \<and> (q = p \<or> R q)}"
  by auto

lemma set_slice_from:
  "0 < d \<Longrightarrow> set (slice_from p d n) = {q. q < n \<and> (p \<le> q \<and> (q - p) mod d = 0)}"
proof (induction p d n rule: slice_from.induct)
  case (1 p d n)
  show ?case
  proof (cases "p < n")
    case True
    have "slice_from p d n = p # slice_from (p + d) d n"
      using True "1.prems" by (subst slice_from.simps) simp
    then have "set (slice_from p d n) = insert p (set (slice_from (p + d) d n))" by simp
    also have "set (slice_from (p + d) d n) = {q. q < n \<and> (p + d \<le> q \<and> (q - (p + d)) mod d = 0)}"
      by (rule "1.IH") (use True "1.prems" in simp_all)
    finally show ?thesis unfolding slice_key [OF "1.prems", of p] by (simp only: insert_bounded [OF True])
  next
    case False
    then have "slice_from p d n = []" by (subst slice_from.simps) simp
    then show ?thesis using False by auto
  qed
qed

lemma slice_mod:
  assumes "f < k"
  shows "set (slice_from f k n) = {p. p < n \<and> p mod k = f}"
proof -
  have "f \<le> p \<and> (p - f) mod k = 0 \<longleftrightarrow> p mod k = f" for p
  proof
    assume h: "f \<le> p \<and> (p - f) mod k = 0"
    then have "p = f + k * ((p - f) div k)" using mult_div_mod_eq [of k "p - f"] by linarith
    then have "p mod k = f mod k" using mod_mult_self2 [of f k "(p - f) div k"] by (simp only:)
    then show "p mod k = f" using assms by (simp only: mod_less)
  next
    assume h: "p mod k = f"
    then have "p - f = k * (p div k)" by (simp only: minus_mod_eq_mult_div [symmetric])
    then have "(p - f) mod k = 0" by (simp only: mod_mult_self1_is_0)
    then show "f \<le> p \<and> (p - f) mod k = 0" using h mod_less_eq_dividend [of p k] by blast
  qed
  moreover have "0 < k" using assms by simp
  ultimately show ?thesis by (simp only: set_slice_from)
qed

lemma owned_whole_channels:
  assumes "thread_count c \<le> channel_count c" "channel_count c mod thread_count c = 0" "thread_count c \<noteq> 0"
    and t: "t < thread_count c"
  shows "owned_rings c t =
    {unat t * (unat (channel_count c) div unat (thread_count c))..<
      Suc (unat t) * (unat (channel_count c) div unat (thread_count c))} \<times> {..<unat (max_peers c)}"
proof -
  let ?q = "channel_count c div thread_count c"
  have d: "unat (channel_count c) mod unat (thread_count c) = 0"
    using assms(2) by (metis unat_0 unat_mod)
  have q: "unat ?q = unat (channel_count c) div unat (thread_count c)" by (simp add: unat_div)
  have "unat t * unat ?q \<le> unat (thread_count c) * unat ?q"
    using t by (simp add: word_less_nat_alt)
  also have "\<dots> = unat (channel_count c)" using d q by (metis mult_div_mod_eq add_0_right)
  finally have "unat t * unat ?q < 2 ^ 32"
    using unsigned_less [of "channel_count c", where ?'a = nat] by simp
  then have "unat (t * ?q) = unat t * unat ?q" by (simp add: unat_word_ariths)
  then show ?thesis
    using assms(1) by (simp add: owned_rings_def threadShare_def slice_peers_def set_slice_from q Let_def
        lessThan_def add.commute)
qed

lemma owned_peer_stride:
  assumes "\<not> thread_count c \<le> channel_count c" "thread_count c mod channel_count c = 0" "channel_count c \<noteq> 0"
  shows "owned_rings c t =
    {(ch, p). ch = unat t div (unat (thread_count c) div unat (channel_count c)) \<and> p < unat (max_peers c) \<and>
      p mod (unat (thread_count c) div unat (channel_count c)) =
        unat t mod (unat (thread_count c) div unat (channel_count c))}"
proof -
  let ?k = "unat (thread_count c) div unat (channel_count c)"
  have k: "0 < ?k"
    using assms(1,3) by (simp add: div_greater_zero_iff word_le_nat_alt unat_gt_0)
  then have "set (slice_from (unat t mod ?k) ?k n) = {p. p < n \<and> p mod ?k = unat t mod ?k}" for n
    by (intro slice_mod) simp
  then show ?thesis
    using assms(1) by (auto simp: owned_rings_def threadShare_def slice_peers_def unat_div unat_mod Let_def)
qed

lemma even_nat:
  "unat (a :: u32) mod unat b = 0 \<longleftrightarrow> a mod b = 0"
  by (metis unat_0 unat_mod unsigned_eq_0_iff)

lemma ring_thread_whole:
  assumes "0 < T" "C mod T = (0 :: nat)" "ch < C"
  shows "\<exists>!t. t < T \<and> t * (C div T) \<le> ch \<and> ch < Suc t * (C div T)"
proof (rule ex1I [of _ "ch div (C div T)"])
  let ?q = "C div T"
  have "T dvd C" using assms(2) by (simp add: mod_0_imp_dvd)
  then have q: "0 < ?q" "C = T * ?q" using assms dvd_imp_le [of T C] by (simp_all add: div_greater_zero_iff)
  show "ch div ?q < T \<and> ch div ?q * ?q \<le> ch \<and> ch < Suc (ch div ?q) * ?q"
    using assms(3) q by (metis div_less_iff_less_mult div_times_less_eq_dividend dividend_less_div_times mult.commute mult_Suc)
  show "t = ch div ?q" if "t < T \<and> t * ?q \<le> ch \<and> ch < Suc t * ?q" for t
    using that q(1) by (intro div_nat_eqI [symmetric]) (auto simp: mult.commute)
qed

lemma ring_thread_stride:
  assumes "0 < C" "C < T" "T mod C = (0 :: nat)" "ch < C"
  shows "\<exists>!t. t < T \<and> ch = t div (T div C) \<and> p mod (T div C) = t mod (T div C)"
proof (rule ex1I [of _ "ch * (T div C) + p mod (T div C)"])
  let ?k = "T div C"
  have k: "0 < ?k" "T = C * ?k" using assms by (auto simp: div_greater_zero_iff)
  have "ch * ?k + p mod ?k < Suc ch * ?k" using k(1) by simp
  also have "\<dots> \<le> C * ?k" using assms(4) by (intro mult_right_mono) auto
  finally show "ch * ?k + p mod ?k < T \<and> ch = (ch * ?k + p mod ?k) div ?k \<and>
      p mod ?k = (ch * ?k + p mod ?k) mod ?k"
    using k by simp
  show "t = ch * ?k + p mod ?k" if "t < T \<and> ch = t div ?k \<and> p mod ?k = t mod ?k" for t
    using that by (metis div_mult_mod_eq)
qed


lemma ex1_word:
  assumes "\<exists>!n. n < unat (T :: u32) \<and> P n"
  shows "\<exists>!t. t < T \<and> P (unat t)"
proof -
  obtain n where n: "n < unat T" "P n" and u: "\<And>m. m < unat T \<Longrightarrow> P m \<Longrightarrow> m = n"
    using assms by blast
  have "n < 2 ^ 32" using n(1) unsigned_less [of T, where ?'a = nat] by simp
  then have w: "unat (word_of_nat n :: u32) = n" by (simp add: unat_of_nat take_bit_nat_eq_self)
  show ?thesis
  proof (rule ex1I [of _ "word_of_nat n"])
    show "word_of_nat n < T \<and> P (unat (word_of_nat n :: u32))" using n w by (simp add: word_less_nat_alt)
    show "t = word_of_nat n" if "t < T \<and> P (unat t)" for t
      using u [of "unat t"] that by (auto simp: word_less_nat_alt)
  qed
qed

lemma split_gives_one_thread:
  assumes "evenThreadSplit c" "ch < unat (channel_count c)" "p < unat (max_peers c)"
  shows "\<exists>!t. t < thread_count c \<and> (ch, p) \<in> owned_rings c t"
proof -
  have pos: "thread_count c \<noteq> 0" "channel_count c \<noteq> 0"
    using assms(1) by (auto simp: evenThreadSplit_def split: if_splits)
  show ?thesis
  proof (cases "thread_count c \<le> channel_count c")
    case True
    then have d: "channel_count c mod thread_count c = 0" using assms(1) pos by (simp add: evenThreadSplit_def)
    have "0 < unat (thread_count c)" using pos(1) by (simp add: unat_gt_0)
    then have "\<exists>!t. t < unat (thread_count c) \<and>
        t * (unat (channel_count c) div unat (thread_count c)) \<le> ch \<and>
        ch < Suc t * (unat (channel_count c) div unat (thread_count c))"
      using d assms(2) by (intro ring_thread_whole) (simp_all add: even_nat)
    then have "\<exists>!t. t < thread_count c \<and>
        unat t * (unat (channel_count c) div unat (thread_count c)) \<le> ch \<and>
        ch < Suc (unat t) * (unat (channel_count c) div unat (thread_count c))"
      by (rule ex1_word)
    moreover have "(ch, p) \<in> owned_rings c t \<longleftrightarrow>
        unat t * (unat (channel_count c) div unat (thread_count c)) \<le> ch \<and>
        ch < Suc (unat t) * (unat (channel_count c) div unat (thread_count c))" if "t < thread_count c" for t
      using owned_whole_channels [OF True d pos(1) that] assms(3) by simp
    ultimately show ?thesis by (metis (no_types, lifting))
  next
    case False
    then have d: "thread_count c mod channel_count c = 0" using assms(1) pos by (simp add: evenThreadSplit_def)
    have "0 < unat (channel_count c)" "unat (channel_count c) < unat (thread_count c)"
      using pos(2) False by (simp_all add: unat_gt_0 word_le_nat_alt)
    then have "\<exists>!t. t < unat (thread_count c) \<and>
        ch = t div (unat (thread_count c) div unat (channel_count c)) \<and>
        p mod (unat (thread_count c) div unat (channel_count c)) =
          t mod (unat (thread_count c) div unat (channel_count c))"
      using d assms(2) by (intro ring_thread_stride) (simp_all add: even_nat)
    then show ?thesis
      using assms(3) unfolding owned_peer_stride [OF False d pos(2)]
      by (intro ex1_word) simp
  qed
qed

lemma owned_rings_exist:
  assumes "evenThreadSplit c" "t < thread_count c"
  shows "owned_rings c t \<subseteq> {..<unat (channel_count c)} \<times> {..<unat (max_peers c)}"
proof (cases "thread_count c \<le> channel_count c")
  case True
  then have pos: "thread_count c \<noteq> 0" and d: "channel_count c mod thread_count c = 0"
    using assms(1) by (auto simp: evenThreadSplit_def split: if_splits)
  let ?q = "unat (channel_count c) div unat (thread_count c)"
  have "Suc (unat t) * ?q \<le> unat (thread_count c) * ?q"
    using assms(2) by (intro mult_right_mono) (simp_all add: word_less_nat_alt Suc_leI)
  also have "\<dots> \<le> unat (channel_count c)" by simp
  finally show ?thesis unfolding owned_whole_channels [OF True d pos assms(2)] by auto
next
  case False
  then have pos: "channel_count c \<noteq> 0" and d: "thread_count c mod channel_count c = 0"
    using assms(1) by (auto simp: evenThreadSplit_def split: if_splits)
  let ?k = "unat (thread_count c) div unat (channel_count c)"
  have "unat (channel_count c) dvd unat (thread_count c)" using d by (simp add: even_nat dvd_eq_mod_eq_0)
  then have "unat t < unat (channel_count c) * ?k" using assms(2) by (simp add: word_less_nat_alt)
  then have "unat t div ?k < unat (channel_count c)" by (simp add: less_mult_imp_div_less)
  then show ?thesis unfolding owned_peer_stride [OF False d pos] by auto
qed


lemma power_of_two_nat: "0 < n \<Longrightarrow> n AND (n - 1) = 0 \<Longrightarrow> \<exists>k. n = 2 ^ k" for n :: nat
proof (induction n rule: less_induct)
  case (less n)
  show ?case
  proof (cases "even n")
    case True
    then obtain m where m: "n = 2 * m" by blast
    have "n - 1 = 2 * (m - 1) + 1" using m less.prems(1) by simp
    then have "2 * (m AND (m - 1)) = 0"
      using less.prems(2) m and_rec [of n "n - 1"] by simp
    then obtain k where "m = 2 ^ k" using less.IH [of m] m less.prems(1) by auto
    then show ?thesis using m by (intro exI [of _ "Suc k"]) simp
  next
    case False
    then obtain m where m: "n = 2 * m + 1" by (auto elim: oddE)
    then have "2 * m = 0" using less.prems(2) and_rec [of n "n - 1"] by simp
    then show ?thesis using m by (intro exI [of _ 0]) simp
  qed
qed

lemma isPowerOfTwo_exp:
  assumes "isPowerOfTwo v"
  shows "\<exists>k < 32. unat v = 2 ^ k"
proof -
  have nz: "0 < unat v" using assms by (simp add: isPowerOfTwo_def unat_gt_0)
  have "unat (v AND (v - 1)) = 0" using assms by (simp add: isPowerOfTwo_def)
  then have "unat v AND unat (v - 1) = 0" by (simp only: unsigned_and_eq)
  moreover have "unat (v - 1) = unat v - 1" using nz by (simp add: unat_minus_one unat_gt_0)
  ultimately obtain k where k: "unat v = 2 ^ k" using power_of_two_nat [OF nz] by auto
  have "(2 :: nat) ^ k < 2 ^ 32" using k unsigned_less [of v, where ?'a = nat] by simp
  then have "k < 32" by (simp only: power_strict_increasing_iff) 
  then show ?thesis using k by blast
qed

lemma parse_unchanged: "fst (parseProxyConfig params prog old) \<noteq> NIXL_SUCCESS \<Longrightarrow> snd (parseProxyConfig params prog old) = old"
  by (auto simp: parseProxyConfig_def split: sum.splits option.splits if_splits)

lemma scan_error: "scan_params ps key = Inl st \<Longrightarrow> st = NIXL_ERR_INVALID_PARAM"
  by (induction ps key rule: scan_params.induct) (auto split: if_splits)

lemma parse_accepted:
  "parseProxyConfig params prog old = (NIXL_SUCCESS, c) \<Longrightarrow> enabled c \<Longrightarrow>
     isPowerOfTwo (ring_depth c) \<and> \<not> prog \<and> evenThreadSplit c \<and> max_peers c \<noteq> 0"
  by (auto simp: parseProxyConfig_def dest: scan_error split: sum.splits option.splits if_splits)

text \<open>C20: A device proxy configuration that is accepted divides the work: every ring, that is every channel
  and peer, belongs to exactly one of the proxy threads, no thread is given a ring that does not
  exist, the depth of the rings is a power of two, and the backend's own progress thread is off.\<close>

theorem proxy_rings_partitioned:
  assumes "parseProxyConfig params prog old = (NIXL_SUCCESS, c)" "enabled c"
  shows "(\<forall>ch p. ch < unat (channel_count c) \<and> p < unat (max_peers c) \<longrightarrow>
      (\<exists>!t. t < thread_count c \<and> (ch, p) \<in> owned_rings c t)) \<and>
    (\<forall>t < thread_count c. owned_rings c t \<subseteq> {..<unat (channel_count c)} \<times> {..<unat (max_peers c)}) \<and>
    (\<exists>k < 32. unat (ring_depth c) = 2 ^ k) \<and> \<not> prog"
  using parse_accepted [OF assms] isPowerOfTwo_exp split_gives_one_thread owned_rings_exist by blast

definition sample_params :: nixl_b_params_t where
  "sample_params =
     [(''device_proxy'', ''on''), (''proxy_channel_count'', ''2''), (''proxy_thread_count'', ''4''),
      (''proxy_max_peers'', ''6''), (''other'', ''7'')]"

definition sample_config :: proxyConfig where
  "sample_config = \<lparr>enabled = True, channel_count = 2, thread_count = 4, max_peers = 6, ring_depth = 256,
     drain_timeout_ms = 60000\<rparr>"

lemma sample_parse: "parseProxyConfig (Some sample_params) False old = (NIXL_SUCCESS, sample_config)"
proof -
  have "scan_params sample_params [] = Inr ''proxy_channel_count''"
    by (simp add: sample_params_def isProxyParamKey_def kKnownProxyParams_def kProxyEnabledParam_def
        kProxyChannelCountParam_def kProxyThreadCountParam_def kProxyMaxPeersParam_def)
  moreover have "convert_u32 ''2'' = Inr 2" "convert_u32 ''4'' = Inr 4" "convert_u32 ''6'' = Inr 6"
    by (simp_all add: convert_u32_def convert_int_def from_chars_def int_base_def int_start_def isHex_def
        is_digit_def digit_value_def numeral_value_def in_range_def Let_def)
  moreover have "convert_bool ''on'' = Inr True"
    by (simp add: convert_bool_def match_def positive_words_def strcasecmp_eq_def c_str_def)
  ultimately show ?thesis
    by (simp add: parseProxyConfig_def read_params_def err_bind_def value_or_def sample_params_def
        getBackendParamDefaulted_ptr_def getBackendParamOptional_ptr_def getBackendParamOptional_def
        kProxyEnabledParam_def kProxyChannelCountParam_def kProxyThreadCountParam_def kProxyMaxPeersParam_def
        kProxyRingDepthParam_def kProxyDrainTimeoutParam_def kDefaultProxyRingDepth_def
        kDefaultProxyDrainTimeoutMs_def sample_config_def isPowerOfTwo_def evenThreadSplit_def Let_def)
qed

theorem proxy_rings_partitioned_witness:
  "\<exists>!t. t < thread_count sample_config \<and> (1, 5) \<in> owned_rings sample_config t"
proof -
  have "enabled sample_config" "(1 :: nat) < unat (channel_count sample_config)" "(5 :: nat) < unat (max_peers sample_config)"
    by (simp_all add: sample_config_def)
  then show ?thesis using proxy_rings_partitioned [OF sample_parse] by blast
qed

end
