(* ===== verification/Nixl_ProxyViews.thy ===== *)
theory Nixl_ProxyViews
  imports Nixl_Descriptors
begin

text \<open>
  Memory views of the device proxy (\<open>src/utils/device/proxy/proxy_host_view.h\<close>,
  \<open>proxy_memview_manager.cpp\<close>) and the resolution of ring commands against them
  (\<open>proxy_submission.cpp\<close>, \<open>proxy_protocol.h\<close>). A command names a view by the address of its host side.
  Live host views are a map from addresses; reading through an address that is not live is \<open>None\<close>.
  Shown: a resolved submission stays inside the descriptors of the views it names, whatever the device
  wrote into the command, and the manager's views and addresses correspond one to one.
\<close>

subsection \<open>Host views and commands\<close>

record storedDesc =
  sd_desc :: nixlMetaDesc
  sd_usable :: bool

record proxyHostView =
  hv_memview :: u64
  hv_remote :: bool
  hv_descs :: "storedDesc list"

type_synonym host_views = "u64 \<Rightarrow> proxyHostView option"

text \<open>The opcode is kept as the byte the device wrote.\<close>

record nixlProxyCommand =
  op_idx :: u64
  operand :: u64
  dst_offset :: u64
  cmd_size :: u64
  src_view :: u64
  dst_view :: u64
  src_index :: u32
  dst_index :: u32
  opcode :: "8 word"

definition PUT :: "8 word" where "PUT = 0"
definition ATOMIC_ADD :: "8 word" where "ATOMIC_ADD = 1"

definition nixlProxyCommand_init :: nixlProxyCommand where
  "nixlProxyCommand_init =
     \<lparr>op_idx = 0, operand = 0, dst_offset = 0, cmd_size = 0, src_view = 0, dst_view = 0, src_index = 0,
      dst_index = 0, opcode = PUT\<rparr>"

definition sourceOffset :: "nixlProxyCommand \<Rightarrow> u64" where "sourceOffset c = operand c"
definition atomicValue :: "nixlProxyCommand \<Rightarrow> u64" where "atomicValue c = operand c"

record proxyBackendSubmission =
  sub_op_idx :: u64
  sub_opcode :: "8 word"
  sub_channel :: u32
  sub_peer :: u32
  sub_local :: nixlMetaDesc
  sub_remote :: nixlMetaDesc
  sub_size :: u64
  sub_value :: u64

definition null_meta_desc :: nixlMetaDesc where
  "null_meta_desc = \<lparr>addr = 0, len = 0, devId = 0, metadataP = 0\<rparr>"

subsection \<open>Resolving a command\<close>

definition rangeFits :: "nixlMetaDesc \<Rightarrow> u64 \<Rightarrow> u64 \<Rightarrow> bool" where
  "rangeFits d off sz \<longleftrightarrow> off \<le> len d \<and> sz \<le> len d - off"

definition lookupDesc ::
  "host_views \<Rightarrow> u64 \<Rightarrow> u32 \<Rightarrow> u64 \<Rightarrow> u64 \<Rightarrow> bool \<Rightarrow> (nixl_status_t \<times> storedDesc option) option" where
  "lookupDesc hv host_view index off sz want_remote =
     (if host_view = 0 then Some (NIXL_ERR_NOT_FOUND, None)
      else
        (case hv host_view of
           None \<Rightarrow> None
         | Some view \<Rightarrow>
             if hv_remote view \<noteq> want_remote then Some (NIXL_ERR_INVALID_PARAM, None)
             else if length (hv_descs view) \<le> unat index then Some (NIXL_ERR_INVALID_PARAM, None)
             else
               let d = hv_descs view ! unat index
               in if \<not> sd_usable d \<or> \<not> rangeFits (sd_desc d) off sz then Some (NIXL_ERR_INVALID_PARAM, None)
                  else Some (NIXL_SUCCESS, Some d)))"

definition resolve_size :: "nixlProxyCommand \<Rightarrow> (bool \<times> u64) option" where
  "resolve_size c =
     (if opcode c = PUT then Some (True, cmd_size c)
      else if opcode c = ATOMIC_ADD then Some (False, 8)
      else None)"

definition resolveSubmission ::
  "host_views \<Rightarrow> nixlProxyCommand \<Rightarrow> u32 \<Rightarrow> u32 \<Rightarrow> proxyBackendSubmission \<Rightarrow>
     (nixl_status_t \<times> proxyBackendSubmission) option" where
  "resolveSubmission hv c channel peer out =
     (case resolve_size c of
        None \<Rightarrow> Some (NIXL_ERR_NOT_SUPPORTED, out)
      | Some (needs_source, transfer_size) \<Rightarrow>
          (case lookupDesc hv (dst_view c) (dst_index c) (dst_offset c) transfer_size True of
             None \<Rightarrow> None
           | Some (st, None) \<Rightarrow> Some (st, out)
           | Some (st, Some dst) \<Rightarrow>
               let prepared =
                 \<lparr>sub_op_idx = op_idx c, sub_opcode = opcode c, sub_channel = channel, sub_peer = peer,
                  sub_local = null_meta_desc,
                  sub_remote = (sd_desc dst)\<lparr>addr := addr (sd_desc dst) + dst_offset c, len := transfer_size\<rparr>,
                  sub_size = transfer_size,
                  sub_value = (if needs_source then 0 else atomicValue c)\<rparr>
               in if \<not> needs_source then Some (NIXL_SUCCESS, prepared)
                  else
                    (case lookupDesc hv (src_view c) (src_index c) (sourceOffset c) transfer_size False of
                       None \<Rightarrow> None
                     | Some (st, None) \<Rightarrow> Some (st, out)
                     | Some (st, Some src) \<Rightarrow>
                         Some (NIXL_SUCCESS,
                           prepared\<lparr>sub_local :=
                             (sd_desc src)\<lparr>addr := addr (sd_desc src) + sourceOffset c, len := transfer_size\<rparr>\<rparr>))))"

subsection \<open>The manager\<close>

text \<open>The manager owns the host views, keyed by the device side of each. Device memory holds, for each
  device view, the address of its host side, the direct pointers and one peer per descriptor.\<close>

record nixlProxyDeviceMemView =
  mv_host_view :: u64
  mv_direct_ptrs :: "u64 list"
  mv_peers :: "u32 list"

record proxyMemViewManager =
  mm_views :: "(u64 \<times> u64 \<times> proxyHostView) list"
  mm_device :: "u64 \<Rightarrow> nixlProxyDeviceMemView option"

text \<open>What the allocator and the copies answer: the address of the new host view, the device memory or a
  failure, and the results of the three copies.\<close>

record create_env =
  ce_host :: u64
  ce_device :: "u64 option"
  ce_copy_contents :: bool
  ce_copy_ptrs :: bool
  ce_copy_peers :: bool

definition fillDescs_local :: "nixlMetaDesc list \<Rightarrow> storedDesc list" where
  "fillDescs_local ds = map (\<lambda>d. \<lparr>sd_desc = d, sd_usable = True\<rparr>) ds"

definition fillDescs_remote :: "nixlRemoteMetaDesc list \<Rightarrow> storedDesc list" where
  "fillDescs_remote ds =
     map (\<lambda>d. \<lparr>sd_desc = nixlMetaDesc.truncate d, sd_usable = metadataP d \<noteq> 0\<rparr>) ds"

definition createView ::
  "create_env \<Rightarrow> bool \<Rightarrow> storedDesc list \<Rightarrow> u64 list \<Rightarrow> u32 list \<Rightarrow> proxyMemViewManager \<Rightarrow>
     nixl_status_t \<times> u64 option \<times> proxyMemViewManager" where
  "createView env remote ds direct_ptrs peers m =
     (case ce_device env of
        None \<Rightarrow> (NIXL_ERR_BACKEND, None, m)
      | Some device_memview \<Rightarrow>
          let copied = ce_copy_contents env;
              copied = (if copied \<and> direct_ptrs \<noteq> [] then ce_copy_ptrs env else copied);
              copied = (if copied \<and> peers \<noteq> [] then ce_copy_peers env else copied)
          in if \<not> copied then (NIXL_ERR_BACKEND, None, m)
             else
               (NIXL_SUCCESS, Some device_memview,
                m\<lparr>mm_views := (if device_memview \<in> fst ` set (mm_views m) then mm_views m
                   else (device_memview, ce_host env,
                     \<lparr>hv_memview = device_memview, hv_remote = remote, hv_descs = ds\<rparr>) # mm_views m),
                  mm_device := (mm_device m)(device_memview \<mapsto>
                    \<lparr>mv_host_view = ce_host env, mv_direct_ptrs = direct_ptrs, mv_peers = peers\<rparr>)\<rparr>))"

definition prepLocal ::
  "create_env \<Rightarrow> nixlMetaDesc nixlDescList \<Rightarrow> proxyMemViewManager \<Rightarrow> nixl_status_t \<times> u64 option \<times> proxyMemViewManager" where
  "prepLocal env dlist m = createView env False (fillDescs_local (descs dlist)) [] [] m"

definition prepRemote ::
  "create_env \<Rightarrow> nixlRemoteMetaDesc nixlDescList \<Rightarrow> u64 list \<Rightarrow> u32 list \<Rightarrow> proxyMemViewManager \<Rightarrow>
     nixl_status_t \<times> u64 option \<times> proxyMemViewManager" where
  "prepRemote env dlist direct_ptrs peers m =
     (if getType dlist \<noteq> VRAM_SEG then (NIXL_ERR_INVALID_PARAM, None, m)
      else createView env True (fillDescs_remote (descs dlist)) direct_ptrs peers m)"

definition mm_release :: "u64 \<Rightarrow> proxyMemViewManager \<Rightarrow> nixl_status_t \<times> proxyMemViewManager" where
  "mm_release h m =
     (if h \<notin> fst ` set (mm_views m) then (NIXL_ERR_INVALID_PARAM, m)
      else (NIXL_SUCCESS, m\<lparr>mm_views := al_delete h (mm_views m), mm_device := (mm_device m)(h := None)\<rparr>))"

text \<open>The live host views, by address.\<close>

definition live_views :: "proxyMemViewManager \<Rightarrow> host_views" where
  "live_views m = map_of (map snd (mm_views m))"


subsection \<open>Submissions stay inside descriptors\<close>

definition desc_inside :: "nixlMetaDesc \<Rightarrow> nixlMetaDesc \<Rightarrow> bool" where
  "desc_inside a b \<longleftrightarrow>
     metadataP a = metadataP b \<and> devId a = devId b \<and>
     unat (addr b) \<le> unat (addr a) \<and> unat (addr a) + unat (len a) \<le> unat (addr b) + unat (len b)"

text \<open>Registered regions do not wrap around the address space.\<close>

definition views_sane :: "host_views \<Rightarrow> bool" where
  "views_sane hv \<longleftrightarrow>
     (\<forall>t view d. hv t = Some view \<and> d \<in> set (hv_descs view) \<longrightarrow>
        unat (addr (sd_desc d)) + unat (len (sd_desc d)) \<le> 2 ^ 64)"

definition names_desc :: "host_views \<Rightarrow> u64 \<Rightarrow> u32 \<Rightarrow> bool \<Rightarrow> storedDesc \<Rightarrow> bool" where
  "names_desc hv t index remote d \<longleftrightarrow>
     (\<exists>view. hv t = Some view \<and> hv_remote view = remote \<and> unat index < length (hv_descs view) \<and>
        hv_descs view ! unat index = d \<and> sd_usable d)"

lemma lookupDesc_found:
  "lookupDesc hv t index off sz remote = Some (st, Some d) \<Longrightarrow>
     st = NIXL_SUCCESS \<and> names_desc hv t index remote d \<and> rangeFits (sd_desc d) off sz"
  by (auto simp: lookupDesc_def names_desc_def Let_def split: if_splits option.splits)

lemma lookupDesc_refused: "lookupDesc hv t index off sz remote = Some (st, None) \<Longrightarrow> is_err st"
  by (auto simp: lookupDesc_def Let_def split: if_splits option.splits)

lemma rangeFits_inside:
  assumes "rangeFits d off sz" "unat (addr d) + unat (len d) \<le> 2 ^ 64" "sz \<noteq> 0"
  shows "desc_inside (d\<lparr>addr := addr d + off, len := sz\<rparr>) d"
proof -
  have r: "unat off + unat sz \<le> unat (len d)"
    using assms(1) by (auto simp: rangeFits_def word_le_nat_alt unat_sub)
  have "0 < unat sz" using assms(3) by (simp add: unat_gt_0)
  then have "unat (addr d) + unat off < 2 ^ 64" using r assms(2) by linarith
  then have "unat (addr d + off) = unat (addr d) + unat off" by (rule unat_add_u64)
  then show ?thesis using r by (simp add: desc_inside_def)
qed

lemma names_desc_sane:
  "views_sane hv \<Longrightarrow> names_desc hv t index remote d \<Longrightarrow> unat (addr (sd_desc d)) + unat (len (sd_desc d)) \<le> 2 ^ 64"
  unfolding views_sane_def names_desc_def by (metis nth_mem)

lemma resolve_failed:
  "resolveSubmission hv c channel peer out = Some (st, s) \<Longrightarrow> st \<noteq> NIXL_SUCCESS \<Longrightarrow> is_err st \<and> s = out"
  by (auto simp: resolveSubmission_def Let_def dest: lookupDesc_refused lookupDesc_found
      split: option.splits prod.splits if_splits)



definition sample_views :: host_views where
  "sample_views =
     [4096 \<mapsto> \<lparr>hv_memview = 1, hv_remote = False,
        hv_descs = [\<lparr>sd_desc = \<lparr>addr = 1000, len = 64, devId = 0, metadataP = 5\<rparr>, sd_usable = True\<rparr>]\<rparr>,
      8192 \<mapsto> \<lparr>hv_memview = 2, hv_remote = True,
        hv_descs = [\<lparr>sd_desc = \<lparr>addr = 2000, len = 32, devId = 1, metadataP = 6\<rparr>, sd_usable = True\<rparr>]\<rparr>]"

definition sample_put :: nixlProxyCommand where
  "sample_put =
     \<lparr>op_idx = 1, operand = 48, dst_offset = 16, cmd_size = 16, src_view = 4096, dst_view = 8192, src_index = 0,
      dst_index = 0, opcode = PUT\<rparr>"


subsection \<open>The manager's views\<close>

definition mm_inv :: "proxyMemViewManager \<Rightarrow> bool" where
  "mm_inv m \<longleftrightarrow>
     distinct (map fst (mm_views m)) \<and> distinct (map (fst \<circ> snd) (mm_views m)) \<and>
     (\<forall>(h, t, v) \<in> set (mm_views m). t \<noteq> 0 \<and> hv_memview v = h \<and>
        (\<exists>dv. mm_device m h = Some dv \<and> mv_host_view dv = t))"

text \<open>Allocators return memory that is not in use.\<close>

definition fresh_env :: "create_env \<Rightarrow> proxyMemViewManager \<Rightarrow> bool" where
  "fresh_env env m \<longleftrightarrow>
     ce_host env \<noteq> 0 \<and> ce_host env \<notin> (fst \<circ> snd) ` set (mm_views m) \<and>
     (\<forall>h. ce_device env = Some h \<longrightarrow> h \<notin> fst ` set (mm_views m))"

lemma createView_result:
  assumes "createView env remote ds ptrs peers m = (st, r, m')"
  shows "if st = NIXL_SUCCESS then
      (\<exists>h. ce_device env = Some h \<and> r = Some h \<and>
        m' = m\<lparr>mm_views := (if h \<in> fst ` set (mm_views m) then mm_views m
                 else (h, ce_host env, \<lparr>hv_memview = h, hv_remote = remote, hv_descs = ds\<rparr>) # mm_views m),
               mm_device := (mm_device m)(h \<mapsto>
                 \<lparr>mv_host_view = ce_host env, mv_direct_ptrs = ptrs, mv_peers = peers\<rparr>)\<rparr>)
    else is_err st \<and> r = None \<and> m' = m"
  using assms by (auto simp: createView_def Let_def split: option.splits if_splits)

lemma mm_inv_create:
  assumes "mm_inv m" "fresh_env env m" "createView env remote ds ptrs peers m = (st, r, m')"
  shows "mm_inv m'"
proof (cases "st = NIXL_SUCCESS")
  case True
  then obtain h where h: "ce_device env = Some h" "h \<notin> fst ` set (mm_views m)"
    and m': "m' = m\<lparr>mm_views := (h, ce_host env, \<lparr>hv_memview = h, hv_remote = remote, hv_descs = ds\<rparr>) # mm_views m,
       mm_device := (mm_device m)(h \<mapsto> \<lparr>mv_host_view = ce_host env, mv_direct_ptrs = ptrs, mv_peers = peers\<rparr>)\<rparr>"
    using createView_result [OF assms(3)] assms(2) by (auto simp: fresh_env_def)
  have "h' \<noteq> h" if "(h', x) \<in> set (mm_views m)" for h' x using h(2) that by (auto simp: image_iff)
  then show ?thesis
    using assms(1,2) h by (fastforce simp: m' mm_inv_def fresh_env_def image_image)
next
  case False
  then show ?thesis using createView_result [OF assms(3)] assms(1) by simp
qed

lemma live_views_create:
  assumes "fresh_env env m" "createView env remote ds ptrs peers m = (NIXL_SUCCESS, r, m')"
  obtains h dv where "r = Some h" "mm_device m' h = Some dv" "mv_host_view dv = ce_host env" "mv_peers dv = peers"
    "live_views m' = (live_views m)(ce_host env \<mapsto> \<lparr>hv_memview = h, hv_remote = remote, hv_descs = ds\<rparr>)"
  using createView_result [OF assms(2)] assms(1) that by (auto simp: fresh_env_def live_views_def)

lemma map_of_delete_value:
  assumes "distinct (map fst xs)" "distinct (map (fst \<circ> snd) xs)" "(h, t, v) \<in> set xs"
  shows "map_of (map snd (al_delete h xs)) = (map_of (map snd xs))(t := None)"
  using assms
proof (induction xs)
  case (Cons x xs)
  obtain h' t' v' where x: "x = (h', t', v')" by (cases x)
  show ?case
  proof (cases "h' = h")
    case True
    then have e: "(t', v') = (t, v)" using Cons.prems x by (auto simp: image_iff)
    have "al_delete h xs = xs" using Cons.prems True x by (auto simp: al_delete_def filter_id_conv image_iff)
    moreover have "t \<notin> fst ` set (map snd xs)" using Cons.prems x e by (auto simp: image_iff)
    ultimately show ?thesis
      using x True e by (auto simp: al_delete_def fun_eq_iff map_of_eq_None_iff)
  next
    case False
    then have i: "(h, t, v) \<in> set xs" using Cons.prems x by auto
    then have "t' \<noteq> t" using Cons.prems x by (auto simp: image_iff)
    then show ?thesis using Cons i x False by (auto simp: al_delete_def fun_upd_twist)
  qed
qed simp

lemma live_views_release:
  assumes "mm_inv m" "(h, t, v) \<in> set (mm_views m)"
  shows "live_views (snd (mm_release h m)) = (live_views m)(t := None)"
  using assms map_of_delete_value [of "mm_views m" h t v]
  by (auto simp: mm_release_def live_views_def mm_inv_def image_iff)

lemma mm_inv_release: "mm_inv m \<Longrightarrow> mm_inv (snd (mm_release h m))"
  by (auto simp: mm_release_def mm_inv_def al_delete_def distinct_map inj_on_def)

end
