(* ===== verification/Nixl_ProxyRing.thy ===== *)
theory Nixl_ProxyRing
  imports Nixl_ProxyViews
begin

text \<open>
  One work ring of the device proxy, from both sides: the host's
  (\<open>src/utils/device/proxy/proxy_ring.h\<close>, \<open>proxy_ring.cpp\<close>, \<open>proxy_control_buffer.cpp\<close>) and the
  device's (\<open>src/api/device/gpu/impl/proxy/device_proxy_ring.cuh\<close>). Indices are 64-bit words. Results of
  device memory operations are arguments, and \<open>None\<close> is the process aborted by \<open>NIXL_FATAL\<close>. Any number
  of device threads enqueue while the host thread takes commands, retires them and polls; every
  access to shared memory is a step of its own. Shown: commands are taken once each, in the order of
  their tickets, no slot is overwritten before it is read, at most a ring's depth of them is in
  flight, a poll reports exactly what has been retired, and a ring is reset only when no
  command is left anywhere.
\<close>

subsection \<open>The host side\<close>

record proxyRequestState =
  rq_op_idx :: u64
  rq_token :: u64
  rq_status :: nixl_status_t

definition proxyRequestState_init :: proxyRequestState where
  "proxyRequestState_init = \<lparr>rq_op_idx = 0, rq_token = 0, rq_status = NIXL_IN_PROG\<rparr>"

record nixlProxyCompletionSlot =
  completed_idx :: u64
  failed_idx :: u64
  completion_status :: nixl_status_t

text \<open>The ring and the memory it shares with the device: \<open>r_commands\<close> and \<open>r_slot\<close> are mapped host memory,
  \<open>r_producer\<close> and \<open>r_cache\<close> device memory, \<open>r_consumer\<close> the word published through the control buffer.\<close>

record proxyRing =
  r_submit :: u64
  r_shadow :: u64
  r_inflight :: "proxyRequestState list"
  r_depth :: u32
  r_control :: bool
  r_allocated :: bool
  r_index :: nat
  r_commands :: "nixlProxyCommand list"
  r_producer :: u64
  r_consumer :: u64
  r_cache :: u64
  r_slot :: nixlProxyCompletionSlot

definition depth64 :: "proxyRing \<Rightarrow> u64" where
  "depth64 r = ucast (r_depth r)"

definition slot_of :: "proxyRing \<Rightarrow> u64 \<Rightarrow> nat" where
  "slot_of r i = unat (i mod depth64 r)"

definition tryDequeue :: "proxyRing \<Rightarrow> (nat \<times> nixlProxyCommand) option \<times> proxyRing" where
  "tryDequeue r =
     (if depth64 r \<le> r_submit r - r_shadow r then (None, r)
      else
        let slot = slot_of r (r_submit r);
            submission = r_commands r ! slot
        in if op_idx submission = 0 then (None, r)
           else (Some (slot, submission),
                 r\<lparr>r_commands := (r_commands r)[slot := submission\<lparr>op_idx := 0\<rparr>], r_submit := r_submit r + 1\<rparr>))"

definition recordInflight :: "nat \<Rightarrow> proxyRequestState \<Rightarrow> proxyRing \<Rightarrow> proxyRing" where
  "recordInflight slot st r = r\<lparr>r_inflight := (r_inflight r)[slot := st]\<rparr>"

definition oldestInflight :: "proxyRing \<Rightarrow> proxyRequestState option" where
  "oldestInflight r =
     (if r_shadow r = r_submit r then None else Some (r_inflight r ! slot_of r (r_shadow r)))"

definition ring_published :: "proxyRing \<Rightarrow> u64 \<Rightarrow> bool" where
  "ring_published r ticket \<longleftrightarrow> op_idx (r_commands r ! slot_of r ticket) \<noteq> 0"

definition publishConsumerIdx :: "bool \<Rightarrow> u64 \<Rightarrow> proxyRing \<Rightarrow> nixl_status_t \<times> proxyRing" where
  "publishConsumerIdx ok v r =
     (if \<not> r_control r then (NIXL_ERR_NOT_SUPPORTED, r)
      else if ok then (NIXL_SUCCESS, r\<lparr>r_consumer := v, r_shadow := v\<rparr>)
      else (NIXL_ERR_BACKEND, r))"

definition retire_slot :: "u64 \<Rightarrow> nixl_status_t \<Rightarrow> nixlProxyCompletionSlot \<Rightarrow> nixlProxyCompletionSlot" where
  "retire_slot op st slot =
     (if failed_idx slot = 0 then
        let slot = slot\<lparr>completion_status := st\<rparr>;
            slot = (if is_err st then slot\<lparr>failed_idx := op\<rparr> else slot)
        in slot\<lparr>completed_idx := op\<rparr>
      else slot)"

definition retireOldest :: "bool \<Rightarrow> nixl_status_t \<Rightarrow> proxyRing \<Rightarrow> proxyRing option" where
  "retireOldest ok st r =
     (let i = slot_of r (r_shadow r);
          front = r_inflight r ! i;
          r' = r\<lparr>r_slot := retire_slot (rq_op_idx front) st (r_slot r)\<rparr>
      in case publishConsumerIdx ok (r_shadow r + 1) r' of
           (NIXL_SUCCESS, r') \<Rightarrow> Some (r'\<lparr>r_inflight := (r_inflight r')[i := proxyRequestState_init]\<rparr>)
         | _ \<Rightarrow> None)"

definition ring_drained :: "proxyRing \<Rightarrow> bool" where
  "ring_drained r \<longleftrightarrow>
     (if r_depth r = 0 then True
      else if r_shadow r \<noteq> r_submit r then False
      else \<not> ring_published r (r_submit r))"

definition assertDrained :: "bool \<Rightarrow> proxyRing \<Rightarrow> bool" where
  "assertDrained copy_ok r \<longleftrightarrow>
     (if \<not> r_allocated r then True
      else ring_drained r \<and> copy_ok \<and> r_producer r = r_submit r)"

function skip_from :: "proxyRing \<Rightarrow> u64 \<Rightarrow> u64" where
  "skip_from r i = (if i < r_producer r \<and> \<not> ring_published r i then skip_from r (i + 1) else i)"
  by pat_completeness auto
termination
proof (relation "measure (\<lambda>(r, i). unat (r_producer r) - unat i)")
  fix r :: proxyRing and i
  assume h: "i < r_producer r \<and> \<not> ring_published r i"
  then have "unat i + unat (1 :: u64) < 2 ^ 64"
    using unat_lt_u64 [of "r_producer r"] by (simp add: word_less_nat_alt)
  then have "unat (i + 1) = unat i + 1" using unat_add_u64 by simp
  then show "((r, i + 1), (r, i)) \<in> measure (\<lambda>(r, i). unat (r_producer r) - unat i)"
    using h by (auto simp: word_less_nat_alt intro: diff_less_mono2)
qed simp

declare skip_from.simps [simp del]

definition skipAbandonedTickets_ring :: "bool \<Rightarrow> bool \<Rightarrow> proxyRing \<Rightarrow> (bool \<times> proxyRing) option" where
  "skipAbandonedTickets_ring copy_ok publish_ok r =
     (if \<not> r_allocated r \<or> \<not> ring_drained r then Some (False, r)
      else if \<not> copy_ok then None
      else
        let first = r_submit r;
            r' = r\<lparr>r_submit := skip_from r first\<rparr>
        in if r_submit r' = first then Some (False, r')
           else (case publishConsumerIdx publish_ok (r_submit r') r' of
                   (NIXL_SUCCESS, r') \<Rightarrow> Some (True, r')
                 | _ \<Rightarrow> None))"

text \<open>The device memory operations of a reset, in order.\<close>

record rearm_env =
  re_memset_producer :: bool
  re_memset_cache :: bool
  re_synchronize :: bool
  re_publish :: bool

definition slot_init :: nixlProxyCompletionSlot where
  "slot_init = \<lparr>completed_idx = 0, failed_idx = 0, completion_status = NIXL_IN_PROG\<rparr>"

definition rearm :: "rearm_env \<Rightarrow> proxyRing \<Rightarrow> nixl_status_t \<times> proxyRing" where
  "rearm env r =
     (if \<not> r_allocated r \<or> r_depth r = 0 then (NIXL_ERR_NOT_SUPPORTED, r)
      else
        let r = r\<lparr>r_commands := replicate (unat (r_depth r)) nixlProxyCommand_init\<rparr>
        in if \<not> re_memset_producer env then (NIXL_ERR_BACKEND, r)
           else if \<not> re_memset_cache env then (NIXL_ERR_BACKEND, r\<lparr>r_producer := 0\<rparr>)
           else
             let r = r\<lparr>r_producer := 0, r_cache := 0\<rparr>
             in if \<not> re_synchronize env then (NIXL_ERR_BACKEND, r)
                else (case publishConsumerIdx (re_publish env) 0 r of
                        (NIXL_SUCCESS, r) \<Rightarrow>
                          (NIXL_SUCCESS,
                           r\<lparr>r_submit := 0, r_inflight := replicate (unat (r_depth r)) proxyRequestState_init,
                             r_slot := slot_init\<rparr>)
                      | (_, r) \<Rightarrow> (NIXL_ERR_BACKEND, r)))"


definition ring_deallocate :: "proxyRing \<Rightarrow> proxyRing" where
  "ring_deallocate r =
     r\<lparr>r_allocated := False, r_control := False, r_index := 0, r_shadow := 0, r_inflight := [],
       r_submit := 0, r_depth := 0\<rparr>"

text \<open>Allocation: whether the control buffer has a word for this ring, the results of the calls it makes in
  order, and the memory the allocator returns, whose contents are arbitrary.\<close>

record alloc_env =
  ae_control_word :: bool
  ae_active_device :: bool
  ae_allocs :: bool
  ae_rearm :: rearm_env
  ae_copy :: bool

definition ring_allocate :: "alloc_env \<Rightarrow> u32 \<Rightarrow> nat \<Rightarrow> proxyRing \<Rightarrow> nixl_status_t \<times> proxyRing" where
  "ring_allocate env depth ring_index r =
     (if depth = 0 \<or> \<not> ae_control_word env then (NIXL_ERR_INVALID_PARAM, r)
      else
        let r = r\<lparr>r_depth := depth, r_control := True\<rparr>
        in if \<not> ae_active_device env then (NIXL_ERR_BACKEND, ring_deallocate r)
           else
             let r = r\<lparr>r_index := ring_index, r_shadow := 0\<rparr>
             in if \<not> ae_allocs env then (NIXL_ERR_BACKEND, ring_deallocate r)
                else
                  (case rearm (ae_rearm env) (r\<lparr>r_allocated := True\<rparr>) of
                     (st, r) \<Rightarrow>
                       if st \<noteq> NIXL_SUCCESS then (NIXL_ERR_BACKEND, ring_deallocate r)
                       else if \<not> ae_copy env then (NIXL_ERR_BACKEND, ring_deallocate r)
                       else (NIXL_SUCCESS, r)))"

subsection \<open>The device side\<close>

text \<open>Where a device thread stands in \<open>enqueue\<close>: it has a ticket, it holds the consumer index it last
  read, it has refreshed the cache, it is past the wait, it has written the command and not yet its
  index.\<close>

datatype producer =
  PIdle
| PTicket u64 nixlProxyCommand
| PGate u64 nixlProxyCommand u64
| PRefresh u64 nixlProxyCommand u64
| PShut u64 nixlProxyCommand u64
| PBody u64 nixlProxyCommand
| PStore u64 nixlProxyCommand

definition gate_open :: "proxyRing \<Rightarrow> u64 \<Rightarrow> u64 \<Rightarrow> bool" where
  "gate_open r ticket cached \<longleftrightarrow> \<not> depth64 r \<le> ticket - cached"

definition write_body :: "u64 \<Rightarrow> nixlProxyCommand \<Rightarrow> proxyRing \<Rightarrow> proxyRing" where
  "write_body ticket c r = r\<lparr>r_commands := (r_commands r)[slot_of r ticket := c\<lparr>op_idx := 0\<rparr>]\<rparr>"

definition store_op_idx :: "u64 \<Rightarrow> proxyRing \<Rightarrow> proxyRing" where
  "store_op_idx ticket r =
     (let i = slot_of r ticket
      in r\<lparr>r_commands := (r_commands r)[i := (r_commands r ! i)\<lparr>op_idx := ticket + 1\<rparr>]\<rparr>)"

definition pollXferStatus :: "u64 \<Rightarrow> nixlProxyCompletionSlot \<Rightarrow> nixl_status_t" where
  "pollXferStatus op slot =
     (if failed_idx slot \<noteq> 0 \<and> failed_idx slot \<le> op then completion_status slot
      else if op \<le> completed_idx slot then NIXL_SUCCESS
      else NIXL_IN_PROG)"

text \<open>The device indexes the rings channel by channel.\<close>

definition ringIndex :: "u32 \<Rightarrow> u32 \<Rightarrow> u32 \<Rightarrow> u64" where
  "ringIndex max_peers peer channel = ucast channel * ucast max_peers + ucast peer"

subsection \<open>Both sides together\<close>

text \<open>The state adds the shutdown word, the device threads, and for the statements the commands by ticket,
  the tickets that were given up, the commands taken and the statuses retired, in order.\<close>

record ring_sys =
  rs_ring :: proxyRing
  rs_shutdown :: bool
  rs_threads :: "nat \<Rightarrow> producer"
  rs_tickets :: "nixlProxyCommand list"
  rs_given_up :: "nat set"
  rs_taken :: "(nat \<times> nixlProxyCommand) list"
  rs_retired :: "(nat \<times> nixl_status_t) list"

definition set_thread :: "nat \<Rightarrow> producer \<Rightarrow> ring_sys \<Rightarrow> ring_sys" where
  "set_thread i p s = s\<lparr>rs_threads := (rs_threads s)(i := p)\<rparr>"

fun holds_ticket :: "producer \<Rightarrow> u64 option" where
  "holds_ticket PIdle = None"
| "holds_ticket (PTicket t c) = Some t"
| "holds_ticket (PGate t c k) = Some t"
| "holds_ticket (PRefresh t c k) = Some t"
| "holds_ticket (PShut t c k) = Some t"
| "holds_ticket (PBody t c) = Some t"
| "holds_ticket (PStore t c) = Some t"

inductive device_step :: "ring_sys \<Rightarrow> ring_sys \<Rightarrow> bool" where
  dev_claim: "rs_threads s i = PIdle \<Longrightarrow> \<not> rs_shutdown s \<Longrightarrow> r_producer (rs_ring s) < SIZE_MAX - 1 \<Longrightarrow>
    device_step s (set_thread i (PTicket (r_producer (rs_ring s)) c)
      (s\<lparr>rs_ring := (rs_ring s)\<lparr>r_producer := r_producer (rs_ring s) + 1\<rparr>, rs_tickets := rs_tickets s @ [c]\<rparr>))"
| dev_cached: "rs_threads s i = PTicket t c \<Longrightarrow>
    device_step s (set_thread i (PGate t c (r_cache (rs_ring s))) s)"
| dev_pass: "rs_threads s i = PGate t c k \<Longrightarrow> gate_open (rs_ring s) t k \<Longrightarrow>
    device_step s (set_thread i (PBody t c) s)"
| dev_full: "rs_threads s i = PGate t c k \<Longrightarrow> \<not> gate_open (rs_ring s) t k \<Longrightarrow>
    device_step s (set_thread i (PRefresh t c (r_consumer (rs_ring s))) s)"
| dev_refresh: "rs_threads s i = PRefresh t c k \<Longrightarrow>
    device_step s (set_thread i (PShut t c k) (s\<lparr>rs_ring := (rs_ring s)\<lparr>r_cache := k\<rparr>\<rparr>))"
| dev_retry: "rs_threads s i = PShut t c k \<Longrightarrow> \<not> rs_shutdown s \<Longrightarrow>
    device_step s (set_thread i (PGate t c k) s)"
| dev_give_up: "rs_threads s i = PShut t c k \<Longrightarrow> rs_shutdown s \<Longrightarrow>
    device_step s (set_thread i PIdle (s\<lparr>rs_given_up := insert (unat t) (rs_given_up s)\<rparr>))"
| dev_body: "rs_threads s i = PBody t c \<Longrightarrow>
    device_step s (set_thread i (PStore t c) (s\<lparr>rs_ring := write_body t c (rs_ring s)\<rparr>))"
| dev_store: "rs_threads s i = PStore t c \<Longrightarrow>
    device_step s (set_thread i PIdle (s\<lparr>rs_ring := store_op_idx t (rs_ring s)\<rparr>))"

text \<open>The host: it takes a command, records the request with the status and token the transport gave it,
  retires the oldest request with its terminal status, publishes the shutdown, skips tickets once no
  thread holds them, and resets a drained ring.\<close>

inductive host_step :: "ring_sys \<Rightarrow> ring_sys \<Rightarrow> bool" where
  host_take: "tryDequeue (rs_ring s) = (Some (slot, c), r) \<Longrightarrow> rq_op_idx rq = op_idx c \<Longrightarrow>
    host_step s (s\<lparr>rs_ring := recordInflight slot rq r,
      rs_taken := rs_taken s @ [(unat (r_submit (rs_ring s)), c)]\<rparr>)"
| host_retire: "oldestInflight (rs_ring s) = Some front \<Longrightarrow> st \<noteq> NIXL_IN_PROG \<Longrightarrow>
    retireOldest True st (rs_ring s) = Some r \<Longrightarrow>
    host_step s (s\<lparr>rs_ring := r, rs_retired := rs_retired s @ [(unat (r_shadow (rs_ring s)), st)]\<rparr>)"
| host_shutdown: "host_step s (s\<lparr>rs_shutdown := True\<rparr>)"
| host_skip: "rs_shutdown s \<Longrightarrow> skipAbandonedTickets_ring True True (rs_ring s) = Some (b, r) \<Longrightarrow>
    (\<forall>i t. holds_ticket (rs_threads s i) = Some t \<longrightarrow> \<not> t < r_submit r) \<Longrightarrow>
    host_step s (s\<lparr>rs_ring := r\<rparr>)"
| host_rearm: "assertDrained True (rs_ring s) \<Longrightarrow> r_allocated (rs_ring s) \<Longrightarrow>
    rearm env (rs_ring s) = (NIXL_SUCCESS, r) \<Longrightarrow>
    host_step s (s\<lparr>rs_ring := r, rs_tickets := [], rs_given_up := {}, rs_taken := [], rs_retired := []\<rparr>)"

definition ring_step :: "ring_sys \<Rightarrow> ring_sys \<Rightarrow> bool" where
  "ring_step s t \<longleftrightarrow> device_step s t \<or> host_step s t"

definition ring_start :: "ring_sys \<Rightarrow> bool" where
  "ring_start s \<longleftrightarrow>
     (\<exists>env depth ring_index r0. ring_allocate env depth ring_index r0 = (NIXL_SUCCESS, rs_ring s)) \<and>
     rs_shutdown s = False \<and> rs_threads s = (\<lambda>_. PIdle) \<and> rs_tickets s = [] \<and> rs_given_up s = {} \<and>
     rs_taken s = [] \<and> rs_retired s = []"


subsection \<open>The invariant\<close>

abbreviation Dn :: "ring_sys \<Rightarrow> nat" where "Dn s \<equiv> unat (r_depth (rs_ring s))"
abbreviation Nn :: "ring_sys \<Rightarrow> nat" where "Nn s \<equiv> length (rs_tickets s)"
abbreviation Sn :: "ring_sys \<Rightarrow> nat" where "Sn s \<equiv> unat (r_submit (rs_ring s))"
abbreviation Cn :: "ring_sys \<Rightarrow> nat" where "Cn s \<equiv> unat (r_shadow (rs_ring s))"

fun thread_cmd :: "producer \<Rightarrow> nixlProxyCommand" where
  "thread_cmd PIdle = nixlProxyCommand_init"
| "thread_cmd (PTicket t c) = c"
| "thread_cmd (PGate t c k) = c"
| "thread_cmd (PRefresh t c k) = c"
| "thread_cmd (PShut t c k) = c"
| "thread_cmd (PBody t c) = c"
| "thread_cmd (PStore t c) = c"

fun thread_cached :: "producer \<Rightarrow> u64 option" where
  "thread_cached (PGate t c k) = Some k"
| "thread_cached (PRefresh t c k) = Some k"
| "thread_cached (PShut t c k) = Some k"
| "thread_cached _ = None"

fun past_gate :: "producer \<Rightarrow> bool" where
  "past_gate (PBody t c) = True"
| "past_gate (PStore t c) = True"
| "past_gate _ = False"

definition held :: "ring_sys \<Rightarrow> nat \<Rightarrow> bool" where
  "held s t \<longleftrightarrow> (\<exists>i w. holds_ticket (rs_threads s i) = Some w \<and> unat w = t)"

definition in_slot :: "ring_sys \<Rightarrow> nat \<Rightarrow> nixlProxyCommand" where
  "in_slot s t = (rs_tickets s ! t)\<lparr>op_idx := word_of_nat (t + 1)\<rparr>"

definition visible :: "ring_sys \<Rightarrow> nat \<Rightarrow> bool" where
  "visible s t \<longleftrightarrow> Sn s \<le> t \<and> t < Nn s \<and> \<not> held s t \<and> t \<notin> rs_given_up s"

definition shape_ok :: "ring_sys \<Rightarrow> bool" where
  "shape_ok s \<longleftrightarrow>
     r_control (rs_ring s) \<and> r_allocated (rs_ring s) \<and> 0 < Dn s \<and>
     length (r_commands (rs_ring s)) = Dn s \<and> length (r_inflight (rs_ring s)) = Dn s \<and>
     r_consumer (rs_ring s) = r_shadow (rs_ring s) \<and> unat (r_producer (rs_ring s)) = Nn s \<and>
     Nn s < 2 ^ 64 - 1 \<and> Cn s \<le> Sn s \<and> Sn s \<le> Nn s \<and> Sn s \<le> Cn s + Dn s \<and>
     unat (r_cache (rs_ring s)) \<le> Cn s"

definition threads_ok :: "ring_sys \<Rightarrow> bool" where
  "threads_ok s \<longleftrightarrow>
     (\<forall>i t. holds_ticket (rs_threads s i) = Some t \<longrightarrow>
        Sn s \<le> unat t \<and> unat t < Nn s \<and> unat t \<notin> rs_given_up s \<and>
        thread_cmd (rs_threads s i) = rs_tickets s ! unat t \<and>
        (past_gate (rs_threads s i) \<longrightarrow> unat t < Cn s + Dn s)) \<and>
     (\<forall>i k. thread_cached (rs_threads s i) = Some k \<longrightarrow> unat k \<le> Cn s) \<and>
     (\<forall>i j t. holds_ticket (rs_threads s i) = Some t \<and> holds_ticket (rs_threads s j) = Some t \<longrightarrow> i = j)"

definition slots_ok :: "ring_sys \<Rightarrow> bool" where
  "slots_ok s \<longleftrightarrow>
     (\<forall>t. visible s t \<longrightarrow> t < Cn s + Dn s \<and> r_commands (rs_ring s) ! (t mod Dn s) = in_slot s t) \<and>
     (\<forall>i < Dn s. op_idx (r_commands (rs_ring s) ! i) \<noteq> 0 \<longrightarrow> (\<exists>t. visible s t \<and> t mod Dn s = i)) \<and>
     (\<forall>i t c. rs_threads s i = PStore t c \<longrightarrow>
        r_commands (rs_ring s) ! (unat t mod Dn s) = c\<lparr>op_idx := 0\<rparr>)"

definition slot_after :: "(nat \<times> nixl_status_t) list \<Rightarrow> nixlProxyCompletionSlot" where
  "slot_after rs = foldl (\<lambda>slot (t, st). retire_slot (word_of_nat (t + 1)) st slot) slot_init rs"

definition history_ok :: "ring_sys \<Rightarrow> bool" where
  "history_ok s \<longleftrightarrow>
     rs_taken s = map (\<lambda>t. (t, in_slot s t)) (filter (\<lambda>t. t \<notin> rs_given_up s) [0..<Sn s]) \<and>
     map fst (rs_retired s) = filter (\<lambda>t. t \<notin> rs_given_up s) [0..<Cn s] \<and>
     (\<forall>(t, st) \<in> set (rs_retired s). st \<noteq> NIXL_IN_PROG) \<and>
     (\<forall>t. Cn s \<le> t \<and> t < Sn s \<longrightarrow>
        t \<notin> rs_given_up s \<and> rq_op_idx (r_inflight (rs_ring s) ! (t mod Dn s)) = word_of_nat (t + 1)) \<and>
     rs_given_up s \<subseteq> {..<Nn s} \<and>
     r_slot (rs_ring s) = slot_after (rs_retired s)"

definition ring_inv :: "ring_sys \<Rightarrow> bool" where
  "ring_inv s \<longleftrightarrow> shape_ok s \<and> threads_ok s \<and> slots_ok s \<and> history_ok s"

lemma unat_depth64: "unat (depth64 r) = unat (r_depth r)"
proof -
  have "unat (r_depth r) < 2 ^ 64"
    using unsigned_less [of "r_depth r", where ?'a = nat] by simp
  then show ?thesis by (simp add: depth64_def unsigned_ucast_eq take_bit_nat_eq_self)
qed

lemma slot_of_nat: "slot_of r i = unat i mod unat (r_depth r)"
  by (simp add: slot_of_def unat_mod unat_depth64)

lemma window_less: "(c :: nat) \<le> a \<Longrightarrow> b < c + d \<Longrightarrow> a < b \<Longrightarrow> a mod d \<noteq> b mod d"
proof
  assume h: "c \<le> a" "b < c + d" "a < b" "a mod d = b mod d"
  then have "d dvd b - a" by (metis mod_eq_dvd_iff_nat less_imp_le)
  moreover have "0 < b - a" "b - a < d" using h by linarith+
  ultimately show False using nat_dvd_not_less by blast
qed

lemma window_slots:
  "(c :: nat) \<le> a \<Longrightarrow> a < c + d \<Longrightarrow> c \<le> b \<Longrightarrow> b < c + d \<Longrightarrow> a mod d = b mod d \<Longrightarrow> a = b"
  using window_less [of c a b d] window_less [of c b a d] by (cases a b rule: linorder_cases) auto

lemma set_thread_sel [simp]:
  "rs_ring (set_thread i p s) = rs_ring s" "rs_shutdown (set_thread i p s) = rs_shutdown s"
  "rs_tickets (set_thread i p s) = rs_tickets s" "rs_given_up (set_thread i p s) = rs_given_up s"
  "rs_taken (set_thread i p s) = rs_taken s" "rs_retired (set_thread i p s) = rs_retired s"
  "rs_threads (set_thread i p s) = (rs_threads s)(i := p)"
  by (simp_all add: set_thread_def)


text \<open>Steps that only move one thread, which keeps its ticket and command.\<close>

lemma held_same:
  assumes "holds_ticket p = holds_ticket (rs_threads s i)"
  shows "held (set_thread i p s) t = held s t"
  using assms by (auto simp: held_def)

lemma threads_ok_set:
  assumes "threads_ok s"
    and "holds_ticket p = holds_ticket (rs_threads s i)" "holds_ticket p \<noteq> None"
    and "thread_cmd p = thread_cmd (rs_threads s i)"
    and "\<And>k. thread_cached p = Some k \<Longrightarrow> unat k \<le> Cn s"
    and "\<And>t. past_gate p \<Longrightarrow> holds_ticket p = Some t \<Longrightarrow> unat t < Cn s + Dn s"
  shows "threads_ok (set_thread i p s)"
  using assms by (auto simp: threads_ok_def)

lemma inv_move:
  assumes "ring_inv s"
    and "holds_ticket p = holds_ticket (rs_threads s i)" "holds_ticket p \<noteq> None"
    and "thread_cmd p = thread_cmd (rs_threads s i)"
    and "\<And>k. thread_cached p = Some k \<Longrightarrow> unat k \<le> Cn s"
    and "\<And>t. past_gate p \<Longrightarrow> holds_ticket p = Some t \<Longrightarrow> unat t < Cn s + Dn s"
    and "\<And>t c. p \<noteq> PStore t c"
  shows "ring_inv (set_thread i p s)"
proof -
  have v: "visible (set_thread i p s) = visible s"
    using held_same [OF assms(2)] by (simp add: visible_def fun_eq_iff)
  have "shape_ok (set_thread i p s)" using assms(1) by (simp add: ring_inv_def shape_ok_def)
  moreover have "threads_ok (set_thread i p s)"
    using assms by (intro threads_ok_set) (auto simp: ring_inv_def)
  moreover have "slots_ok (set_thread i p s)"
    using assms(1,7) by (simp add: ring_inv_def slots_ok_def v in_slot_def)
  moreover have "history_ok (set_thread i p s)"
    using assms(1) by (simp add: ring_inv_def history_ok_def in_slot_def)
  ultimately show ?thesis by (simp add: ring_inv_def)
qed

lemma gate_bound:
  assumes "gate_open r t k" "unat k \<le> unat t"
  shows "unat t < unat k + unat (r_depth r)"
proof -
  have "unat (t - k) = unat t - unat k" using assms(2) by (simp add: unat_sub word_le_nat_alt)
  moreover have "unat (t - k) < unat (r_depth r)"
    using assms(1) by (simp add: gate_open_def word_le_nat_alt unat_depth64)
  ultimately show ?thesis by simp
qed

lemma inv_dev_cached:
  assumes "ring_inv s" "rs_threads s i = PTicket t c"
  shows "ring_inv (set_thread i (PGate t c (r_cache (rs_ring s))) s)"
  using assms by (intro inv_move) (auto simp: ring_inv_def shape_ok_def)

lemma inv_dev_full:
  assumes "ring_inv s" "rs_threads s i = PGate t c k"
  shows "ring_inv (set_thread i (PRefresh t c (r_consumer (rs_ring s))) s)"
  using assms by (intro inv_move) (auto simp: ring_inv_def shape_ok_def)

lemma inv_dev_retry:
  assumes "ring_inv s" "rs_threads s i = PShut t c k"
  shows "ring_inv (set_thread i (PGate t c k) s)"
proof -
  have "unat k \<le> Cn s" using assms by (auto simp: ring_inv_def threads_ok_def dest!: spec [of _ i])
  then show ?thesis using assms by (intro inv_move) auto
qed

lemma inv_dev_pass:
  assumes "ring_inv s" "rs_threads s i = PGate t c k" "gate_open (rs_ring s) t k"
  shows "ring_inv (set_thread i (PBody t c) s)"
proof -
  have "unat k \<le> Cn s" "Sn s \<le> unat t" "Cn s \<le> Sn s"
    using assms(1,2) by (auto simp: ring_inv_def threads_ok_def shape_ok_def dest!: spec [of _ i])
  then have "unat t < Cn s + Dn s" using gate_bound [OF assms(3)] by simp
  then show ?thesis using assms by (intro inv_move) auto
qed

lemma inv_dev_refresh:
  assumes "ring_inv s" "rs_threads s i = PRefresh t c k"
  shows "ring_inv (set_thread i (PShut t c k) (s\<lparr>rs_ring := (rs_ring s)\<lparr>r_cache := k\<rparr>\<rparr>))"
proof -
  have k: "unat k \<le> Cn s" using assms by (auto simp: ring_inv_def threads_ok_def dest!: spec [of _ i])
  have "ring_inv (s\<lparr>rs_ring := (rs_ring s)\<lparr>r_cache := k\<rparr>\<rparr>)"
    using assms(1) k
    by (simp add: ring_inv_def shape_ok_def threads_ok_def slots_ok_def history_ok_def visible_def held_def in_slot_def)
  then show ?thesis using assms k by (intro inv_move) auto
qed


lemma threads_okD:
  assumes "threads_ok s" "holds_ticket (rs_threads s i) = Some t"
  shows "Sn s \<le> unat t" "unat t < Nn s" "unat t \<notin> rs_given_up s"
    "thread_cmd (rs_threads s i) = rs_tickets s ! unat t"
    "past_gate (rs_threads s i) \<Longrightarrow> unat t < Cn s + Dn s"
  using assms unfolding threads_ok_def by blast+

lemma held_set:
  "held (set_thread i p s) t \<longleftrightarrow>
     (\<exists>w. holds_ticket p = Some w \<and> unat w = t) \<or>
     (\<exists>j w. j \<noteq> i \<and> holds_ticket (rs_threads s j) = Some w \<and> unat w = t)"
proof
  assume "held (set_thread i p s) t"
  then obtain j w where "holds_ticket (((rs_threads s)(i := p)) j) = Some w" "unat w = t"
    by (auto simp: held_def)
  then show "(\<exists>w. holds_ticket p = Some w \<and> unat w = t) \<or>
      (\<exists>j w. j \<noteq> i \<and> holds_ticket (rs_threads s j) = Some w \<and> unat w = t)"
    by (cases "j = i") auto
next
  assume "(\<exists>w. holds_ticket p = Some w \<and> unat w = t) \<or>
      (\<exists>j w. j \<noteq> i \<and> holds_ticket (rs_threads s j) = Some w \<and> unat w = t)"
  then show "held (set_thread i p s) t"
  proof
    assume "\<exists>w. holds_ticket p = Some w \<and> unat w = t"
    then show ?thesis unfolding held_def by (intro exI [of _ i]) simp
  next
    assume "\<exists>j w. j \<noteq> i \<and> holds_ticket (rs_threads s j) = Some w \<and> unat w = t"
    then obtain j where "j \<noteq> i" "\<exists>w. holds_ticket (rs_threads s j) = Some w \<and> unat w = t" by blast
    then show ?thesis unfolding held_def by (intro exI [of _ j]) simp
  qed
qed

lemma held_idle:
  "rs_threads s i = PIdle \<Longrightarrow>
     (\<exists>j w. j \<noteq> i \<and> holds_ticket (rs_threads s j) = Some w \<and> unat w = t) \<longleftrightarrow> held s t"
  unfolding held_def by (metis holds_ticket.simps(1) option.distinct(1))

lemma held_other:
  assumes "threads_ok s" "holds_ticket (rs_threads s i) = Some w"
  shows "(\<exists>j w. j \<noteq> i \<and> holds_ticket (rs_threads s j) = Some w \<and> unat w = t) \<longleftrightarrow> held s t \<and> t \<noteq> unat w"
proof -
  have "j = i" if "holds_ticket (rs_threads s j) = Some w'" "unat w' = unat w" for j w'
    using assms that unfolding threads_ok_def by (metis word_unat_eq_iff)
  then show ?thesis unfolding held_def using assms(2) by (metis option.inject)
qed

lemma held_ring [simp]: "held (s\<lparr>rs_ring := r\<rparr>) = held s" "held (s\<lparr>rs_tickets := tk\<rparr>) = held s"
  "held (s\<lparr>rs_given_up := g\<rparr>) = held s"
  by (simp_all add: held_def fun_eq_iff)

lemma in_slot_append: "t < Nn s \<Longrightarrow> in_slot (s\<lparr>rs_tickets := rs_tickets s @ cs\<rparr>) t = in_slot s t"
  by (simp add: in_slot_def nth_append)

lemma inv_dev_claim:
  fixes c :: nixlProxyCommand
  assumes inv: "ring_inv s" and th: "rs_threads s i = PIdle"
    and lt: "r_producer (rs_ring s) < SIZE_MAX - 1"
  defines "s' \<equiv> set_thread i (PTicket (r_producer (rs_ring s)) c)
      (s\<lparr>rs_ring := (rs_ring s)\<lparr>r_producer := r_producer (rs_ring s) + 1\<rparr>, rs_tickets := rs_tickets s @ [c]\<rparr>)"
  shows "ring_inv s'"
proof -
  let ?p = "r_producer (rs_ring s)"
  have sh: "shape_ok s" and tho: "threads_ok s" and sl: "slots_ok s" and hi: "history_ok s"
    using inv by (auto simp: ring_inv_def)
  have N: "unat ?p = Nn s" using sh by (simp add: shape_ok_def)
  have "unat ?p < 2 ^ 64 - 2" using lt by (simp add: word_less_nat_alt)
  then have p1: "unat (?p + 1) = Suc (Nn s)" "Suc (Nn s) < 2 ^ 64 - 1"
    using N unat_add_u64 [of ?p 1] by simp_all
  have h: "held s' t \<longleftrightarrow> held s t \<or> t = Nn s" for t
    using held_idle [OF th] N by (auto simp: s'_def held_set)
  have g: "Nn s \<notin> rs_given_up s" using hi by (auto simp: history_ok_def)
  have v: "visible s' t \<longleftrightarrow> visible s t" for t
    using h by (auto simp: visible_def s'_def less_Suc_eq)
  have ins: "in_slot s' t = in_slot s t" if "t < Nn s" for t
    using that by (simp add: s'_def in_slot_def nth_append)
  have np: "holds_ticket (rs_threads s j) \<noteq> Some ?p" for j
    using threads_okD(2) [OF tho] N by (metis nat_less_le)
  have "shape_ok s'" using sh p1 by (simp add: shape_ok_def s'_def)
  moreover have "threads_ok s'"
    using tho sh N th g np unfolding threads_ok_def shape_ok_def s'_def
    by (auto simp: nth_append less_SucI split: if_splits)
  moreover have "slots_ok s'"
  proof -
    have "in_slot s' t = in_slot s t" if "visible s t" for t using ins that by (auto simp: visible_def)
    then show ?thesis using sl by (simp add: slots_ok_def v) (simp add: s'_def)
  qed
  moreover have "history_ok s'"
  proof -
    have "map (\<lambda>t. (t, in_slot s' t)) (filter (\<lambda>t. t \<notin> rs_given_up s) [0..<Sn s]) =
        map (\<lambda>t. (t, in_slot s t)) (filter (\<lambda>t. t \<notin> rs_given_up s) [0..<Sn s])"
      using ins sh by (auto simp: shape_ok_def)
    then show ?thesis using hi by (auto simp: history_ok_def s'_def)
  qed
  ultimately show ?thesis by (simp add: ring_inv_def)
qed

lemma inv_dev_give_up:
  assumes inv: "ring_inv s" and th: "rs_threads s i = PShut w c k"
  defines "s' \<equiv> set_thread i PIdle (s\<lparr>rs_given_up := insert (unat w) (rs_given_up s)\<rparr>)"
  shows "ring_inv s'"
proof -
  have sh: "shape_ok s" and tho: "threads_ok s" and sl: "slots_ok s" and hi: "history_ok s"
    using inv by (auto simp: ring_inv_def)
  have w: "Sn s \<le> unat w" "unat w < Nn s" using tho th by (auto simp: threads_ok_def dest!: spec [of _ i])
  have uniq: "j = i" if "holds_ticket (rs_threads s j) = Some v" "unat v = unat w" for j v
    using tho th that by (auto simp: threads_ok_def simp flip: word_unat_eq_iff)
  have h: "held s' t \<longleftrightarrow> held s t \<and> t \<noteq> unat w" for t
    using held_other [OF tho, of i w] th by (simp add: s'_def held_set)
  have "held s (unat w)" using th unfolding held_def by (intro exI [of _ i]) simp
  then have v: "visible s' t \<longleftrightarrow> visible s t" for t using h by (auto simp: visible_def s'_def)
  have f: "filter (\<lambda>t. t \<notin> insert (unat w) (rs_given_up s)) [0..<n] = filter (\<lambda>t. t \<notin> rs_given_up s) [0..<n]"
    if "n \<le> Sn s" for n
    using that w(1) by (intro filter_cong) auto
  have "shape_ok s'" using sh by (simp add: shape_ok_def s'_def)
  moreover have "threads_ok s'"
    using tho uniq unfolding threads_ok_def s'_def by (auto split: if_splits)
  moreover have "slots_ok s'"
    using sl by (simp add: slots_ok_def v in_slot_def) (auto simp: s'_def in_slot_def)
  moreover have "history_ok s'"
    using hi w sh f [of "Sn s"] f [of "Cn s"] by (auto simp: history_ok_def shape_ok_def s'_def in_slot_def)
  ultimately show ?thesis by (simp add: ring_inv_def)
qed


lemma held_ticketI: "holds_ticket (rs_threads s i) = Some w \<Longrightarrow> held s (unat w)"
  unfolding held_def by blast

text \<open>A ticket past the wait has its slot for itself.\<close>

lemma own_slot:
  assumes "ring_inv s" "holds_ticket (rs_threads s i) = Some w" "past_gate (rs_threads s i)"
  shows "visible s t \<Longrightarrow> t mod Dn s \<noteq> unat w mod Dn s"
    and "rs_threads s j = PStore v c \<Longrightarrow> j \<noteq> i \<Longrightarrow> unat v mod Dn s \<noteq> unat w mod Dn s"
    and "unat w mod Dn s < length (r_commands (rs_ring s))"
proof -
  have sh: "shape_ok s" and tho: "threads_ok s" and sl: "slots_ok s" using assms(1) by (auto simp: ring_inv_def)
  have w: "Cn s \<le> unat w" "unat w < Cn s + Dn s"
    using threads_okD [OF tho assms(2)] assms(3) sh by (auto simp: shape_ok_def)
  show "unat w mod Dn s < length (r_commands (rs_ring s))" using sh by (simp add: shape_ok_def)
  show "t mod Dn s \<noteq> unat w mod Dn s" if v: "visible s t" for t
  proof
    assume m: "t mod Dn s = unat w mod Dn s"
    have "Cn s \<le> t" "t < Cn s + Dn s" using v sl sh by (auto simp: slots_ok_def shape_ok_def visible_def)
    then have "t = unat w" using window_slots [OF _ _ w m] by blast
    then show False using v held_ticketI [OF assms(2)] by (simp add: visible_def)
  qed
  show "unat v mod Dn s \<noteq> unat w mod Dn s" if v: "rs_threads s j = PStore v c" "j \<noteq> i" for j v c
  proof
    assume m: "unat v mod Dn s = unat w mod Dn s"
    have h: "holds_ticket (rs_threads s j) = Some v" using v by simp
    have "Cn s \<le> unat v" "unat v < Cn s + Dn s"
      using threads_okD [OF tho h] v(1) sh by (auto simp: shape_ok_def)
    then have "unat v = unat w" using window_slots [OF _ _ w m] by blast
    then show False using tho assms(2) h v(2) by (auto simp: threads_ok_def simp flip: word_unat_eq_iff)
  qed
qed

lemma inv_dev_body:
  assumes inv: "ring_inv s" and th: "rs_threads s i = PBody w c"
  defines "s' \<equiv> set_thread i (PStore w c) (s\<lparr>rs_ring := write_body w c (rs_ring s)\<rparr>)"
  shows "ring_inv s'"
proof -
  have sh: "shape_ok s" and tho: "threads_ok s" and sl: "slots_ok s" and hi: "history_ok s"
    using inv by (auto simp: ring_inv_def)
  have hw: "holds_ticket (rs_threads s i) = Some w" "past_gate (rs_threads s i)" using th by simp_all
  note own = own_slot [OF inv hw]
  have r: "rs_ring s' = (rs_ring s)\<lparr>r_commands := (r_commands (rs_ring s))[unat w mod Dn s := c\<lparr>op_idx := 0\<rparr>]\<rparr>"
    by (simp add: s'_def write_body_def slot_of_nat)
  have v: "visible s' t \<longleftrightarrow> visible s t" for t
    using held_same [of "PStore w c" "s\<lparr>rs_ring := write_body w c (rs_ring s)\<rparr>" i] th
    by (simp add: s'_def visible_def write_body_def)
  have is1: "in_slot s' = in_slot s" by (simp add: in_slot_def s'_def fun_eq_iff)
  have th': "rs_threads s' = (rs_threads s)(i := PStore w c)" by (simp add: s'_def)
  have "shape_ok s'" using sh by (simp add: shape_ok_def r) (simp add: s'_def)
  moreover have "threads_ok s'"
    unfolding s'_def
  proof (rule threads_ok_set)
    show "threads_ok (s\<lparr>rs_ring := write_body w c (rs_ring s)\<rparr>)"
      using tho by (simp add: threads_ok_def write_body_def)
  qed (use th threads_okD(5) [OF tho hw] in \<open>auto simp: write_body_def\<close>)
  moreover have "slots_ok s'"
    unfolding slots_ok_def v is1
    using sl own(3) by (auto simp: r th' slots_ok_def nth_list_update dest: own(1) own(2) split: if_splits)
  moreover have "history_ok s'" using hi by (simp add: history_ok_def is1 r) (simp add: s'_def)
  ultimately show ?thesis by (simp add: ring_inv_def)
qed


lemma op_idx_twice [simp]: "c\<lparr>op_idx := a\<rparr>\<lparr>op_idx := b\<rparr> = c\<lparr>op_idx := b\<rparr>"
  by (cases c) simp

lemma inv_dev_store:
  assumes inv: "ring_inv s" and th: "rs_threads s i = PStore w c"
  defines "s' \<equiv> set_thread i PIdle (s\<lparr>rs_ring := store_op_idx w (rs_ring s)\<rparr>)"
  shows "ring_inv s'"
proof -
  have sh: "shape_ok s" and tho: "threads_ok s" and sl: "slots_ok s" and hi: "history_ok s"
    using inv by (auto simp: ring_inv_def)
  have hw: "holds_ticket (rs_threads s i) = Some w" "past_gate (rs_threads s i)" using th by simp_all
  note own = own_slot [OF inv hw] and tk = threads_okD [OF tho hw(1)]
  have wN: "word_of_nat (unat w + 1) = w + 1" by simp
  have "r_commands (rs_ring s) ! (unat w mod Dn s) = c\<lparr>op_idx := 0\<rparr>" using sl th by (auto simp: slots_ok_def)
  moreover have "c = rs_tickets s ! unat w" using tk(4) th by simp
  ultimately have new: "(r_commands (rs_ring s) ! (unat w mod Dn s))\<lparr>op_idx := w + 1\<rparr> = in_slot s (unat w)"
    by (simp add: in_slot_def)
  then have r: "rs_ring s' = (rs_ring s)\<lparr>r_commands := (r_commands (rs_ring s))[unat w mod Dn s := in_slot s (unat w)]\<rparr>"
    by (simp add: s'_def store_op_idx_def slot_of_nat Let_def)
  have h: "held s' t \<longleftrightarrow> held s t \<and> t \<noteq> unat w" for t
    using held_other [OF tho hw(1)] by (simp add: s'_def held_set)
  have sel: "Sn s' = Sn s" "Cn s' = Cn s" "Dn s' = Dn s" "rs_tickets s' = rs_tickets s" "rs_given_up s' = rs_given_up s"
    by (simp_all add: r) (simp_all add: s'_def)
  have v: "visible s' t \<longleftrightarrow> visible s t \<or> t = unat w" for t
    unfolding visible_def sel h using tk(1,2,3) held_ticketI [OF hw(1)] by blast
  have is1: "in_slot s' = in_slot s" by (simp add: in_slot_def s'_def fun_eq_iff)
  have th': "rs_threads s' = (rs_threads s)(i := PIdle)" by (simp add: s'_def)
  have "shape_ok s'" using sh by (simp add: shape_ok_def r) (simp add: s'_def)
  moreover have "threads_ok s'"
    using tho unfolding threads_ok_def th' sel by auto
  moreover have "slots_ok s'"
  proof -
    let ?cs = "(r_commands (rs_ring s))[unat w mod Dn s := in_slot s (unat w)]"
    have "t < Cn s + Dn s \<and> ?cs ! (t mod Dn s) = in_slot s t" if "visible s t \<or> t = unat w" for t
      using that sl own(1) [of t] own(3) tk(5) hw(2) by (cases "t = unat w") (auto simp: slots_ok_def)
    moreover have "\<exists>t. (visible s t \<or> t = unat w) \<and> t mod Dn s = j" if "j < Dn s" "op_idx (?cs ! j) \<noteq> 0" for j
      using that sl by (cases "j = unat w mod Dn s") (auto simp: slots_ok_def)
    moreover have "?cs ! (unat t mod Dn s) = d\<lparr>op_idx := 0\<rparr>" if "rs_threads s j = PStore t d" "j \<noteq> i" for j t d
      using that sl own(2) [OF that] by (auto simp: slots_ok_def)
    ultimately show ?thesis unfolding slots_ok_def v is1 by (auto simp: r th' split: if_splits)
  qed
  moreover have "history_ok s'" using hi by (simp add: history_ok_def is1 r) (simp add: s'_def)
  ultimately show ?thesis by (simp add: ring_inv_def)
qed


subsection \<open>The host keeps the invariant\<close>

lemma unat_succ_ticket:
  assumes "shape_ok s" "unat i < Nn s"
  shows "unat (i + 1 :: u64) = Suc (unat i)"
  using assms unat_add_u64 [of i 1] by (simp add: shape_ok_def)

text \<open>What the host takes is the command of the ticket it stands at.\<close>

lemma tryDequeue_ticket:
  assumes inv: "ring_inv s" and t: "tryDequeue (rs_ring s) = (Some (slot, c), r)"
  shows "visible s (Sn s)" "Sn s < Cn s + Dn s" "slot = Sn s mod Dn s" "c = in_slot s (Sn s)"
    "r = (rs_ring s)\<lparr>r_commands := (r_commands (rs_ring s))[Sn s mod Dn s := c\<lparr>op_idx := 0\<rparr>], r_submit := r_submit (rs_ring s) + 1\<rparr>"
proof -
  have sh: "shape_ok s" and sl: "slots_ok s" using inv by (auto simp: ring_inv_def)
  have g: "\<not> depth64 (rs_ring s) \<le> r_submit (rs_ring s) - r_shadow (rs_ring s)"
    and e: "slot = Sn s mod Dn s" "c = r_commands (rs_ring s) ! slot" "op_idx c \<noteq> 0"
      "r = (rs_ring s)\<lparr>r_commands := (r_commands (rs_ring s))[Sn s mod Dn s := c\<lparr>op_idx := 0\<rparr>], r_submit := r_submit (rs_ring s) + 1\<rparr>"
    using t by (auto simp: tryDequeue_def slot_of_nat Let_def split: if_splits)
  have le: "Cn s \<le> Sn s" using sh by (simp add: shape_ok_def)
  then have "unat (r_submit (rs_ring s) - r_shadow (rs_ring s)) = Sn s - Cn s"
    by (simp add: unat_sub word_le_nat_alt)
  then show lt: "Sn s < Cn s + Dn s" using g by (simp add: word_le_nat_alt unat_depth64)
  have "Sn s mod Dn s < Dn s" using sh by (simp add: shape_ok_def)
  then obtain t where v: "visible s t" "t mod Dn s = Sn s mod Dn s"
    using sl e(1,2,3) by (auto simp: slots_ok_def)
  have "Cn s \<le> t" "t < Cn s + Dn s" using v(1) sl le by (auto simp: slots_ok_def visible_def)
  then have "t = Sn s" using window_slots [OF _ _ le lt v(2)] by blast
  then show "visible s (Sn s)" using v by simp
  then show "c = in_slot s (Sn s)" using sl e by (simp add: slots_ok_def)
  show "slot = Sn s mod Dn s" by (rule e)
  show "r = (rs_ring s)\<lparr>r_commands := (r_commands (rs_ring s))[Sn s mod Dn s := c\<lparr>op_idx := 0\<rparr>], r_submit := r_submit (rs_ring s) + 1\<rparr>"
    by (rule e)
qed

lemma inv_host_take:
  assumes inv: "ring_inv s" and t: "tryDequeue (rs_ring s) = (Some (slot, c), r)" and rq: "rq_op_idx rq = op_idx c"
  defines "s' \<equiv> s\<lparr>rs_ring := recordInflight slot rq r,
      rs_taken := rs_taken s @ [(unat (r_submit (rs_ring s)), c)]\<rparr>"
  shows "ring_inv s'"
proof -
  have sh: "shape_ok s" and tho: "threads_ok s" and sl: "slots_ok s" and hi: "history_ok s"
    using inv by (auto simp: ring_inv_def)
  note d = tryDequeue_ticket [OF inv t]
  have vis: "Sn s < Nn s" "\<not> held s (Sn s)" "Sn s \<notin> rs_given_up s" using d(1) by (auto simp: visible_def)
  have S': "unat (r_submit (rs_ring s) + 1) = Suc (Sn s)" using unat_succ_ticket [OF sh vis(1)] .
  have r': "rs_ring s' = (rs_ring s)\<lparr>r_commands := (r_commands (rs_ring s))[Sn s mod Dn s := c\<lparr>op_idx := 0\<rparr>],
      r_submit := r_submit (rs_ring s) + 1, r_inflight := (r_inflight (rs_ring s))[Sn s mod Dn s := rq]\<rparr>"
    by (simp add: s'_def recordInflight_def d(5) d(3))
  have sel: "Sn s' = Suc (Sn s)" "Cn s' = Cn s" "Dn s' = Dn s" "rs_tickets s' = rs_tickets s"
    "rs_given_up s' = rs_given_up s" "rs_threads s' = rs_threads s" "rs_retired s' = rs_retired s"
    "rs_taken s' = rs_taken s @ [(Sn s, c)]"
    using S' by (simp_all add: r') (simp_all add: s'_def)
  have h: "held s' = held s" by (simp add: held_def sel fun_eq_iff)
  have v: "visible s' t \<longleftrightarrow> visible s t \<and> t \<noteq> Sn s" for t unfolding visible_def sel h by auto
  have is1: "in_slot s' = in_slot s" by (simp add: in_slot_def sel fun_eq_iff)
  have le: "Cn s \<le> Sn s" using sh by (simp add: shape_ok_def)
  have other: "t mod Dn s \<noteq> Sn s mod Dn s" if "Cn s \<le> t" "t < Cn s + Dn s" "t \<noteq> Sn s" for t
    using window_slots [OF that(1,2) le d(2)] that(3) by blast
  have len: "Sn s mod Dn s < length (r_commands (rs_ring s))" "Sn s mod Dn s < length (r_inflight (rs_ring s))"
    using sh by (simp_all add: shape_ok_def)
  have hold: "Sn s \<noteq> unat w" if "holds_ticket (rs_threads s i) = Some w" for i w
    using vis(2) held_ticketI [OF that] by metis
  have "shape_ok s'"
    using sh vis(1) d(2) unfolding shape_ok_def sel by (simp add: r')
  moreover have "threads_ok s'"
    using tho hold unfolding threads_ok_def sel by (simp add: Suc_le_eq order_less_le)
  moreover have "slots_ok s'"
  proof -
    let ?cs = "(r_commands (rs_ring s))[Sn s mod Dn s := c\<lparr>op_idx := 0\<rparr>]"
    have "t < Cn s + Dn s \<and> ?cs ! (t mod Dn s) = in_slot s t" if "visible s t \<and> t \<noteq> Sn s" for t
      using that sl le other [of t] by (auto simp: slots_ok_def visible_def)
    moreover have "\<exists>t. (visible s t \<and> t \<noteq> Sn s) \<and> t mod Dn s = j" if j: "j < Dn s" "op_idx (?cs ! j) \<noteq> 0" for j
    proof -
      have "j \<noteq> Sn s mod Dn s" using j(2) len(1) by auto
      then show ?thesis using j sl unfolding slots_ok_def by (metis nth_list_update_neq)
    qed
    moreover have "?cs ! (unat w mod Dn s) = a\<lparr>op_idx := 0\<rparr>" if p: "rs_threads s i = PStore w a" for i w a
    proof -
      have hw: "holds_ticket (rs_threads s i) = Some w" "past_gate (rs_threads s i)" using p by simp_all
      have "Cn s \<le> unat w" "unat w < Cn s + Dn s" using threads_okD [OF tho hw(1)] hw(2) le by auto
      then show ?thesis using p sl other [of "unat w"] hold [OF hw(1)] by (auto simp: slots_ok_def)
    qed
    ultimately show ?thesis unfolding slots_ok_def v is1 sel by (simp add: r')
  qed
  moreover have "history_ok s'"
  proof -
    have "c = in_slot s (Sn s)" by (rule d(4))
    moreover have "op_idx c = word_of_nat (Sn s + 1)" by (simp add: d(4) in_slot_def)
    moreover have "rq_op_idx ((r_inflight (rs_ring s))[Sn s mod Dn s := rq] ! (t mod Dn s)) = word_of_nat (t + 1)"
      if "Cn s \<le> t" "t < Suc (Sn s)" for t
      using that hi len(2) rq other [of t] d(2) \<open>op_idx c = _\<close> by (cases "t = Sn s") (auto simp: history_ok_def)
    ultimately show ?thesis
      using hi vis(3) unfolding history_ok_def sel is1 by (auto simp: r' less_Suc_eq)
  qed
  ultimately show ?thesis by (simp add: ring_inv_def)
qed


lemma retireOldest_ring:
  "r_control r \<Longrightarrow> retireOldest True st r = Some r' \<Longrightarrow>
     r' = r\<lparr>r_slot := retire_slot (rq_op_idx (r_inflight r ! slot_of r (r_shadow r))) st (r_slot r),
            r_consumer := r_shadow r + 1, r_shadow := r_shadow r + 1,
            r_inflight := (r_inflight r)[slot_of r (r_shadow r) := proxyRequestState_init]\<rparr>"
  by (simp add: retireOldest_def publishConsumerIdx_def Let_def)

lemma inv_host_retire:
  assumes inv: "ring_inv s" and o: "oldestInflight (rs_ring s) = Some front" and st: "st \<noteq> NIXL_IN_PROG"
    and rt: "retireOldest True st (rs_ring s) = Some r"
  defines "s' \<equiv> s\<lparr>rs_ring := r, rs_retired := rs_retired s @ [(unat (r_shadow (rs_ring s)), st)]\<rparr>"
  shows "ring_inv s'"
proof -
  have sh: "shape_ok s" and tho: "threads_ok s" and sl: "slots_ok s" and hi: "history_ok s"
    using inv by (auto simp: ring_inv_def)
  have "r_shadow (rs_ring s) \<noteq> r_submit (rs_ring s)" using o by (auto simp: oldestInflight_def split: if_splits)
  then have "Cn s \<noteq> Sn s" by (simp flip: word_unat_eq_iff)
  then have lt: "Cn s < Sn s" "Cn s < Nn s" using sh by (auto simp: shape_ok_def)
  have C': "unat (r_shadow (rs_ring s) + 1) = Suc (Cn s)" using unat_succ_ticket [OF sh lt(2)] .
  let ?op = "rq_op_idx (r_inflight (rs_ring s) ! (Cn s mod Dn s))"
  have op: "?op = word_of_nat (Cn s + 1)" "Cn s \<notin> rs_given_up s"
    using hi lt(1) by (auto simp: history_ok_def)
  have r': "rs_ring s' = (rs_ring s)\<lparr>r_slot := retire_slot ?op st (r_slot (rs_ring s)),
      r_consumer := r_shadow (rs_ring s) + 1, r_shadow := r_shadow (rs_ring s) + 1,
      r_inflight := (r_inflight (rs_ring s))[Cn s mod Dn s := proxyRequestState_init]\<rparr>"
    using retireOldest_ring [OF _ rt] sh by (simp add: s'_def shape_ok_def slot_of_nat)
  have sel: "Sn s' = Sn s" "Cn s' = Suc (Cn s)" "Dn s' = Dn s" "rs_tickets s' = rs_tickets s"
    "rs_given_up s' = rs_given_up s" "rs_threads s' = rs_threads s" "rs_taken s' = rs_taken s"
    "rs_retired s' = rs_retired s @ [(Cn s, st)]"
    using C' by (simp_all add: r') (simp_all add: s'_def)
  have h: "held s' = held s" by (simp add: held_def sel fun_eq_iff)
  have v: "visible s' = visible s" by (simp add: visible_def sel h fun_eq_iff)
  have is1: "in_slot s' = in_slot s" by (simp add: in_slot_def sel fun_eq_iff)
  have "shape_ok s'" using sh lt unfolding shape_ok_def sel by (simp add: r')
  moreover have "threads_ok s'"
    using tho unfolding threads_ok_def sel by (auto simp: le_Suc_eq less_Suc_eq)
  moreover have "slots_ok s'"
    using sl unfolding slots_ok_def sel v is1 by (auto simp: r' less_Suc_eq)
  moreover have "history_ok s'"
  proof -
    have "rq_op_idx ((r_inflight (rs_ring s))[Cn s mod Dn s := proxyRequestState_init] ! (t mod Dn s)) = word_of_nat (t + 1)"
      if "Suc (Cn s) \<le> t" "t < Sn s" for t
    proof -
      have "t < Cn s + Dn s" using that sh by (simp add: shape_ok_def)
      then have "t mod Dn s \<noteq> Cn s mod Dn s" using window_less [of "Cn s" "Cn s" t "Dn s"] that by force
      then show ?thesis using hi that by (auto simp: history_ok_def)
    qed
    moreover have "retire_slot ?op st (r_slot (rs_ring s)) = slot_after (rs_retired s @ [(Cn s, st)])"
      using hi op(1) by (simp add: slot_after_def history_ok_def)
    ultimately show ?thesis
      using hi st op(2) unfolding history_ok_def sel is1 by (auto simp: r')
  qed
  ultimately show ?thesis by (simp add: ring_inv_def)
qed

lemma skip_from_bounds:
  assumes "i \<le> r_producer r"
  shows "i \<le> skip_from r i" "skip_from r i \<le> r_producer r"
    "\<And>t. unat i \<le> t \<Longrightarrow> t < unat (skip_from r i) \<Longrightarrow> \<not> ring_published r (word_of_nat t)"
proof -
  have "i \<le> skip_from r i \<and> skip_from r i \<le> r_producer r \<and>
      (\<forall>t. unat i \<le> t \<and> t < unat (skip_from r i) \<longrightarrow> \<not> ring_published r (word_of_nat t))"
    using assms
  proof (induction r i rule: skip_from.induct)
    case (1 r i)
    show ?case
    proof (cases "i < r_producer r \<and> \<not> ring_published r i")
      case True
      have "unat i + unat (1 :: u64) < 2 ^ 64"
        using True unat_lt_u64 [of "r_producer r"] by (simp add: word_less_nat_alt)
      then have i1: "unat (i + 1) = Suc (unat i)" using unat_add_u64 by simp
      then have "i + 1 \<le> r_producer r" using True by (simp add: word_le_nat_alt word_less_nat_alt)
      then have IH: "i + 1 \<le> skip_from r (i + 1)" "skip_from r (i + 1) \<le> r_producer r"
        "\<forall>t. unat (i + 1) \<le> t \<and> t < unat (skip_from r (i + 1)) \<longrightarrow> \<not> ring_published r (word_of_nat t)"
        using "1.IH" [OF True] by auto
      have e: "skip_from r i = skip_from r (i + 1)" using True by (subst skip_from.simps) simp
      have "\<not> ring_published r (word_of_nat t)" if "unat i \<le> t" "t < unat (skip_from r (i + 1))" for t
        using that IH(3) i1 True by (cases "t = unat i") auto
      moreover have "i \<le> skip_from r (i + 1)" using IH(1) i1 by (simp add: word_le_nat_alt)
      ultimately show ?thesis using IH(2) e by simp
    next
      case False
      then have "skip_from r i = i" by (subst skip_from.simps) auto
      then show ?thesis using "1.prems" by auto
    qed
  qed
  then show "i \<le> skip_from r i" "skip_from r i \<le> r_producer r"
    "\<And>t. unat i \<le> t \<Longrightarrow> t < unat (skip_from r i) \<Longrightarrow> \<not> ring_published r (word_of_nat t)" by blast+
qed


lemma skip_ring:
  assumes "skipAbandonedTickets_ring True True r = Some (b, r')" "r_control r" "r_consumer r = r_shadow r"
  shows "r' = r \<or>
    (ring_drained r \<and> r_allocated r \<and> r' = r\<lparr>r_submit := skip_from r (r_submit r), r_consumer := skip_from r (r_submit r),
        r_shadow := skip_from r (r_submit r)\<rparr>)"
  using assms by (auto simp: skipAbandonedTickets_ring_def publishConsumerIdx_def Let_def split: if_splits)

lemma unpublished_given_up:
  assumes inv: "ring_inv s" and t: "Sn s \<le> t" "t < Nn s" "\<not> held s t" "\<not> ring_published (rs_ring s) (word_of_nat t)"
  shows "t \<in> rs_given_up s"
proof (rule ccontr)
  assume "t \<notin> rs_given_up s"
  then have v: "visible s t" using t by (simp add: visible_def)
  have sh: "Nn s < 2 ^ 64 - 1" and sl: "slots_ok s" using inv by (auto simp: ring_inv_def shape_ok_def)
  then have u: "unat (word_of_nat t :: u64) = t" "unat (word_of_nat (t + 1) :: u64) = t + 1"
    using t(2) by (intro unat_word_of_nat_64; simp)+
  then have "(word_of_nat (t + 1) :: u64) \<noteq> 0" by (metis add_is_0 one_neq_zero unat_0)
  then show False
    using v sl u(1) t(4) by (simp add: ring_published_def slots_ok_def slot_of_nat in_slot_def)
qed

lemma inv_host_skip:
  assumes inv: "ring_inv s" and sk: "skipAbandonedTickets_ring True True (rs_ring s) = Some (b, r)"
    and free: "\<forall>i t. holds_ticket (rs_threads s i) = Some t \<longrightarrow> \<not> t < r_submit r"
  shows "ring_inv (s\<lparr>rs_ring := r\<rparr>)"
proof -
  have sh: "shape_ok s" and tho: "threads_ok s" and sl: "slots_ok s" and hi: "history_ok s"
    using inv by (auto simp: ring_inv_def)
  define n where "n = skip_from (rs_ring s) (r_submit (rs_ring s))"
  consider "r = rs_ring s" | "ring_drained (rs_ring s)" "r = (rs_ring s)\<lparr>r_submit := n, r_consumer := n, r_shadow := n\<rparr>"
    using skip_ring [OF sk] sh by (auto simp: shape_ok_def n_def)
  then show ?thesis
  proof cases
    case 1
    then show ?thesis using inv by simp
  next
    case 2
    let ?s' = "s\<lparr>rs_ring := r\<rparr>"
    have CS: "Cn s = Sn s" using 2(1) sh by (auto simp: ring_drained_def shape_ok_def split: if_splits)
    have le: "r_submit (rs_ring s) \<le> r_producer (rs_ring s)" using sh by (simp add: shape_ok_def word_le_nat_alt)
    note b = skip_from_bounds [OF le, folded n_def]
    have n: "Sn s \<le> unat n" "unat n \<le> Nn s" using b(1,2) sh by (auto simp: shape_ok_def word_le_nat_alt)
    have nh: "\<not> held s t" if "t < unat n" for t
      using free that 2(2) by (auto simp: held_def word_less_nat_alt)
    have gu: "t \<in> rs_given_up s" if "Sn s \<le> t" "t < unat n" for t
      using unpublished_given_up [OF inv that(1)] that(2) n(2) nh b(3) that by simp
    have sel: "Sn ?s' = unat n" "Cn ?s' = unat n" "Dn ?s' = Dn s" "rs_tickets ?s' = rs_tickets s"
      "rs_given_up ?s' = rs_given_up s" "rs_threads ?s' = rs_threads s" "rs_taken ?s' = rs_taken s"
      "rs_retired ?s' = rs_retired s" by (simp_all add: 2(2))
    have v: "visible ?s' t \<longleftrightarrow> visible s t" for t
      unfolding visible_def sel held_ring using gu n(1) by (metis le_trans not_le_imp_less)
    have is1: "in_slot ?s' = in_slot s" by (simp add: in_slot_def fun_eq_iff)
    have f: "filter (\<lambda>t. t \<notin> rs_given_up s) [0..<unat n] = filter (\<lambda>t. t \<notin> rs_given_up s) [0..<Sn s]"
    proof -
      have "[0..<unat n] = [0..<Sn s] @ [Sn s..<unat n]" using n(1) upt_add_eq_append [of 0 "Sn s" "unat n - Sn s"] by simp
      then show ?thesis using gu by (simp add: filter_empty_conv)
    qed
    have "shape_ok ?s'" using sh n CS unfolding shape_ok_def sel by (simp add: 2(2))
    moreover have "threads_ok ?s'"
    proof -
      have "unat n \<le> unat t" if "holds_ticket (rs_threads s i) = Some t" for i t
        using free that 2(2) by (auto simp: word_less_nat_alt not_less)
      then show ?thesis using tho n(1) CS unfolding threads_ok_def sel by fastforce
    qed
    moreover have "slots_ok ?s'" using sl n(1) CS unfolding slots_ok_def sel v is1 by (fastforce simp: 2(2))
    moreover have "history_ok ?s'" using hi f CS unfolding history_ok_def sel is1 by (simp add: 2(2))
    ultimately show ?thesis by (simp add: ring_inv_def)
  qed
qed

lemma inv_fresh:
  assumes "r_control r" "r_allocated r" "0 < unat (r_depth r)"
    and "r_commands r = replicate (unat (r_depth r)) nixlProxyCommand_init"
    and "r_inflight r = replicate (unat (r_depth r)) proxyRequestState_init"
    and "r_submit r = 0" "r_shadow r = 0" "r_consumer r = 0" "r_producer r = 0" "r_cache r = 0" "r_slot r = slot_init"
    and "rs_ring s = r" "\<And>i. rs_threads s i = PIdle" "rs_tickets s = []" "rs_given_up s = {}" "rs_taken s = []" "rs_retired s = []"
  shows "ring_inv s"
proof -
  have "\<not> visible s t" for t using assms by (simp add: visible_def)
  then show ?thesis
    using assms by (simp add: ring_inv_def shape_ok_def threads_ok_def slots_ok_def history_ok_def
        slot_after_def nixlProxyCommand_init_def)
qed

lemma rearm_ring:
  "rearm env r = (NIXL_SUCCESS, r') \<Longrightarrow>
     r_allocated r \<and> r_control r \<and> r_depth r \<noteq> 0 \<and>
     r' = r\<lparr>r_commands := replicate (unat (r_depth r)) nixlProxyCommand_init, r_producer := 0, r_cache := 0,
            r_consumer := 0, r_shadow := 0, r_submit := 0,
            r_inflight := replicate (unat (r_depth r)) proxyRequestState_init, r_slot := slot_init\<rparr>"
  by (auto simp: rearm_def publishConsumerIdx_def Let_def split: if_splits)

lemma drained_no_tickets:
  assumes "ring_inv s" "assertDrained True (rs_ring s)"
  shows "rs_threads s i = PIdle"
proof -
  have "Sn s = Nn s" using assms by (auto simp: ring_inv_def shape_ok_def assertDrained_def)
  then have "holds_ticket (rs_threads s i) = None"
    using assms(1) threads_okD(1,2) [of s i] by (cases "holds_ticket (rs_threads s i)") (auto simp: ring_inv_def)
  then show ?thesis by (cases "rs_threads s i") auto
qed

lemma inv_host_rearm:
  assumes "ring_inv s" "assertDrained True (rs_ring s)" "rearm env (rs_ring s) = (NIXL_SUCCESS, r)"
  shows "ring_inv (s\<lparr>rs_ring := r, rs_tickets := [], rs_given_up := {}, rs_taken := [], rs_retired := []\<rparr>)"
  using rearm_ring [OF assms(3)] drained_no_tickets [OF assms(1,2)]
  by (intro inv_fresh [of r]) (auto simp: unat_gt_0)

lemma inv_start:
  assumes "ring_start s"
  shows "ring_inv s"
proof -
  obtain env depth k r0 where a: "ring_allocate env depth k r0 = (NIXL_SUCCESS, rs_ring s)"
    using assms by (auto simp: ring_start_def)
  obtain r1 where "rearm (ae_rearm env) r1 = (NIXL_SUCCESS, rs_ring s)"
    using a by (auto simp: ring_allocate_def Let_def split: if_splits prod.splits)
  from rearm_ring [OF this] show ?thesis
    using assms by (intro inv_fresh [of "rs_ring s"]) (auto simp: ring_start_def unat_gt_0)
qed


interpretation proxy_ring: invariant_system ring_start ring_step ring_inv
proof
  show "ring_inv s" if "ring_start s" for s using that by (rule inv_start)
  show "ring_inv t" if "ring_inv s" "ring_step s t" for s t
    using that(2) unfolding ring_step_def
  proof
    assume "device_step s t"
    then show ?thesis
      using that(1)
      by (cases rule: device_step.cases)
        (auto intro: inv_dev_claim inv_dev_cached inv_dev_pass inv_dev_full inv_dev_refresh inv_dev_retry
          inv_dev_give_up inv_dev_body inv_dev_store)
  next
    assume "host_step s t"
    then show ?thesis
    proof (cases rule: host_step.cases)
      case (host_take slot c r rq)
      then show ?thesis using inv_host_take [OF that(1)] by simp
    next
      case (host_retire front st r)
      then show ?thesis using inv_host_retire [OF that(1)] by simp
    next
      case host_shutdown
      then show ?thesis
        using that(1) by (simp add: ring_inv_def shape_ok_def threads_ok_def slots_ok_def history_ok_def
            visible_def held_def in_slot_def)
    next
      case (host_skip b r)
      then show ?thesis using inv_host_skip [OF that(1)] by simp
    next
      case (host_rearm env r)
      then show ?thesis using inv_host_rearm [OF that(1)] by simp
    qed
  qed
qed

subsection \<open>What the ring guarantees\<close>


lemma drained_ring_idle:
  assumes "reach ring_start ring_step s" "assertDrained True (rs_ring s)"
  shows "rs_threads s i = PIdle" "\<And>t. t < length (rs_tickets s) \<Longrightarrow> t \<in> fst ` set (rs_retired s) \<or> t \<in> rs_given_up s"
proof -
  note inv = proxy_ring.reach_inv [OF assms(1)]
  show "rs_threads s i = PIdle" using drained_no_tickets [OF inv assms(2)] .
  have "Cn s = Nn s" using inv assms(2)
    by (auto simp: ring_inv_def shape_ok_def assertDrained_def ring_drained_def split: if_splits)
  moreover have "fst ` set (rs_retired s) = set (filter (\<lambda>t. t \<notin> rs_given_up s) [0..<Cn s])"
    using inv unfolding ring_inv_def history_ok_def by (metis list.set_map)
  ultimately show "\<And>t. t < length (rs_tickets s) \<Longrightarrow> t \<in> fst ` set (rs_retired s) \<or> t \<in> rs_given_up s" by auto
qed

lemma head_is_takeable:
  assumes "ring_inv s" "visible s (Sn s)"
  shows "\<exists>r. tryDequeue (rs_ring s) = (Some (Sn s mod Dn s, in_slot s (Sn s)), r)"
proof -
  have sh: "shape_ok s" and sl: "slots_ok s" using assms(1) by (auto simp: ring_inv_def)
  have "unat (r_submit (rs_ring s) - r_shadow (rs_ring s)) = Sn s - Cn s"
    using sh by (simp add: shape_ok_def unat_sub word_le_nat_alt)
  then have "\<not> depth64 (rs_ring s) \<le> r_submit (rs_ring s) - r_shadow (rs_ring s)"
    using assms(2) sl sh by (auto simp: slots_ok_def shape_ok_def word_le_nat_alt unat_depth64)
  moreover have "unat (word_of_nat (Sn s + 1) :: u64) = Sn s + 1"
    using sh assms(2) by (intro unat_word_of_nat_64) (simp add: shape_ok_def visible_def)
  then have "(word_of_nat (Sn s + 1) :: u64) \<noteq> 0" by (metis add_is_0 one_neq_zero unat_0)
  ultimately show ?thesis
    using assms(2) sl by (simp add: tryDequeue_def slots_ok_def slot_of_nat Let_def in_slot_def)
qed


text \<open>A ring of depth two, and a thread that enqueues one command.\<close>

definition sample_ring :: proxyRing where
  "sample_ring =
     \<lparr>r_submit = 0, r_shadow = 0, r_inflight = [proxyRequestState_init, proxyRequestState_init], r_depth = 2,
      r_control = True, r_allocated = True, r_index = 0,
      r_commands = [nixlProxyCommand_init, nixlProxyCommand_init], r_producer = 0, r_consumer = 0, r_cache = 0,
      r_slot = slot_init\<rparr>"

definition sample_sys :: "proxyRing \<Rightarrow> producer \<Rightarrow> nixlProxyCommand list \<Rightarrow> (nat \<times> nixlProxyCommand) list \<Rightarrow> bool \<Rightarrow> ring_sys" where
  "sample_sys r p tks tkn down =
     \<lparr>rs_ring = r, rs_shutdown = down, rs_threads = (\<lambda>_. PIdle)(0 := p), rs_tickets = tks, rs_given_up = {},
      rs_taken = tkn, rs_retired = []\<rparr>"

lemma sample_start: "ring_start (sample_sys sample_ring PIdle [] [] False)"
proof -
  let ?re = "\<lparr>re_memset_producer = True, re_memset_cache = True, re_synchronize = True, re_publish = True\<rparr>"
  let ?env = "\<lparr>ae_control_word = True, ae_active_device = True, ae_allocs = True, ae_rearm = ?re, ae_copy = True\<rparr>"
  have "ring_allocate ?env 2 0 sample_ring = (NIXL_SUCCESS, sample_ring)"
    by (simp add: ring_allocate_def rearm_def publishConsumerIdx_def sample_ring_def Let_def replicate_two)
  then show ?thesis unfolding ring_start_def sample_sys_def by (auto simp: fun_eq_iff)
qed

lemma sample_past_gate:
  "reach ring_start ring_step (sample_sys (sample_ring\<lparr>r_producer := 1\<rparr>) (PBody 0 c) [c] [] False)"
proof -
  let ?r = "sample_ring\<lparr>r_producer := 1\<rparr>"
  have "(0 :: u64) < SIZE_MAX - 1" by (simp add: word_less_nat_alt)
  then have "device_step (sample_sys sample_ring PIdle [] [] False) (sample_sys ?r (PTicket 0 c) [c] [] False)"
    using dev_claim [of "sample_sys sample_ring PIdle [] [] False" 0 c]
    by (simp add: sample_sys_def sample_ring_def set_thread_def)
  then have 1: "reach ring_start ring_step (sample_sys ?r (PTicket 0 c) [c] [] False)"
    using sample_start by (blast intro: reach_start reach_step ring_step_def [THEN iffD2])
  have "device_step (sample_sys ?r (PTicket 0 c) [c] [] False) (sample_sys ?r (PGate 0 c 0) [c] [] False)"
    using dev_cached [of "sample_sys ?r (PTicket 0 c) [c] [] False" 0 0 c]
    by (simp add: sample_sys_def sample_ring_def set_thread_def)
  then have 2: "reach ring_start ring_step (sample_sys ?r (PGate 0 c 0) [c] [] False)"
    using 1 by (blast intro: reach_step ring_step_def [THEN iffD2])
  have "gate_open ?r 0 0" by (simp add: gate_open_def depth64_def sample_ring_def)
  then have "device_step (sample_sys ?r (PGate 0 c 0) [c] [] False) (sample_sys ?r (PBody 0 c) [c] [] False)"
    using dev_pass [of "sample_sys ?r (PGate 0 c 0) [c] [] False" 0 0 c 0]
    by (simp add: sample_sys_def sample_ring_def set_thread_def)
  then show ?thesis using 2 by (blast intro: reach_step ring_step_def [THEN iffD2])
qed

lemma sample_published:
  "reach ring_start ring_step
     (sample_sys (sample_ring\<lparr>r_producer := 1, r_commands := [c\<lparr>op_idx := 1\<rparr>, nixlProxyCommand_init]\<rparr>) PIdle [c] [] False)"
proof -
  let ?r = "sample_ring\<lparr>r_producer := 1\<rparr>"
  let ?b = "?r\<lparr>r_commands := [c\<lparr>op_idx := 0\<rparr>, nixlProxyCommand_init]\<rparr>"
  have "device_step (sample_sys ?r (PBody 0 c) [c] [] False) (sample_sys ?b (PStore 0 c) [c] [] False)"
    using dev_body [of "sample_sys ?r (PBody 0 c) [c] [] False" 0 0 c]
    by (simp add: sample_sys_def sample_ring_def set_thread_def write_body_def slot_of_nat)
  then have 1: "reach ring_start ring_step (sample_sys ?b (PStore 0 c) [c] [] False)"
    using sample_past_gate by (blast intro: reach_step ring_step_def [THEN iffD2])
  have "device_step (sample_sys ?b (PStore 0 c) [c] [] False)
      (sample_sys (sample_ring\<lparr>r_producer := 1, r_commands := [c\<lparr>op_idx := 1\<rparr>, nixlProxyCommand_init]\<rparr>) PIdle [c] [] False)"
    using dev_store [of "sample_sys ?b (PStore 0 c) [c] [] False" 0 0 c]
    by (simp add: sample_sys_def sample_ring_def set_thread_def store_op_idx_def slot_of_nat)
  then show ?thesis using 1 by (blast intro: reach_step ring_step_def [THEN iffD2])
qed



subsection \<open>Completions\<close>

text \<open>What a poll should report, from the statuses retired: the first failure, for it and everything after
  it; else success for what is retired.\<close>

definition poll_spec :: "(nat \<times> nixl_status_t) list \<Rightarrow> nat \<Rightarrow> nixl_status_t" where
  "poll_spec rs t =
     (case find (\<lambda>(u, st). is_err st) rs of
        Some (u, st) \<Rightarrow> if u \<le> t then st else NIXL_SUCCESS
      | None \<Rightarrow> if t \<in> fst ` set rs then NIXL_SUCCESS else NIXL_IN_PROG)"

lemma slot_after_snoc: "slot_after (rs @ [(t, st)]) = retire_slot (word_of_nat (t + 1)) st (slot_after rs)"
  by (simp add: slot_after_def)

lemma op_word_nonzero: "t < 2 ^ 64 - 1 \<Longrightarrow> (word_of_nat (t + 1) :: u64) \<noteq> 0"
  using unat_word_of_nat_64 [of "t + 1"] by (metis add_is_0 less_diff_conv one_neq_zero unat_0)

lemma slot_after_ok:
  assumes "find (\<lambda>(u, st). is_err st) rs = None"
  shows "failed_idx (slot_after rs) = 0 \<and>
    completed_idx (slot_after rs) = (if rs = [] then 0 else word_of_nat (fst (last rs) + 1))"
  using assms
proof (induction rs rule: rev_induct)
  case (snoc x rs)
  then have "find (\<lambda>(u, st). is_err st) rs = None" "\<not> is_err (snd x)"
    by (cases x; auto simp: find_None_iff)+
  then show ?case using snoc.IH by (cases x) (simp add: slot_after_snoc retire_slot_def)
qed (simp add: slot_after_def slot_init_def)

lemma find_snoc: "find P (xs @ [x]) = (case find P xs of Some y \<Rightarrow> Some y | None \<Rightarrow> if P x then Some x else None)"
  by (induction xs) auto

lemma slot_after_failed:
  assumes "find (\<lambda>(u, st). is_err st) rs = Some (u, st)" "\<forall>t \<in> fst ` set rs. t < 2 ^ 64 - 1"
  shows "slot_after rs = \<lparr>completed_idx = word_of_nat (u + 1), failed_idx = word_of_nat (u + 1), completion_status = st\<rparr>"
  using assms
proof (induction rs rule: rev_induct)
  case (snoc x rs)
  obtain t s where x: "x = (t, s)" by (cases x)
  show ?case
  proof (cases "find (\<lambda>(u, st). is_err st) rs")
    case None
    then have "is_err s" "u = t" "st = s" using snoc.prems(1) x by (auto simp: find_snoc split: if_splits)
    then show ?thesis
      using slot_after_ok [OF None] x by (cases "slot_after rs") (simp add: slot_after_snoc retire_slot_def)
  next
    case (Some y)
    then have "find (\<lambda>(u, st). is_err st) rs = Some (u, st)" using snoc.prems(1) by (simp add: find_snoc)
    then have IH: "slot_after rs = \<lparr>completed_idx = word_of_nat (u + 1), failed_idx = word_of_nat (u + 1), completion_status = st\<rparr>"
      and "u \<in> fst ` set rs"
      using snoc by (auto simp: find_Some_iff image_iff) (metis fst_conv nth_mem)
    then have "(word_of_nat (u + 1) :: u64) \<noteq> 0" using snoc.prems(2) by (intro op_word_nonzero) auto
    then show ?thesis using IH x by (simp add: slot_after_snoc retire_slot_def)
  qed
qed simp

lemma word_of_nat_le: "a < 2 ^ 64 \<Longrightarrow> b < 2 ^ 64 \<Longrightarrow> (word_of_nat a :: u64) \<le> word_of_nat b \<longleftrightarrow> a \<le> b"
  by (simp add: word_le_nat_alt unat_word_of_nat_64)

lemma sorted_last: "sorted (map fst rs) \<Longrightarrow> u \<in> fst ` set rs \<Longrightarrow> u \<le> fst (last rs)"
  by (induction rs rule: rev_induct) (auto simp: sorted_append)

lemma poll_slot_after:
  assumes b: "t < 2 ^ 64 - 1" "\<forall>u \<in> fst ` set rs. u < 2 ^ 64 - 1"
    and s: "sorted (map fst rs)" and t: "\<And>u. u \<in> fst ` set rs \<Longrightarrow> t \<le> u \<Longrightarrow> t \<in> fst ` set rs"
  shows "pollXferStatus (word_of_nat (t + 1)) (slot_after rs) = poll_spec rs t"
proof (cases "find (\<lambda>(u, st). is_err st) rs")
  case None
  show ?thesis
  proof (cases "rs = []")
    case True
    then show ?thesis
      using op_word_nonzero [OF b(1)] by (simp add: pollXferStatus_def slot_after_def slot_init_def poll_spec_def)
  next
    case False
    let ?l = "fst (last rs)"
    have l: "?l \<in> fst ` set rs" using False by simp
    have "u \<le> ?l" if "u \<in> fst ` set rs" for u
      using sorted_last [OF s that] .
    then have "t \<in> fst ` set rs \<longleftrightarrow> t \<le> ?l" using t [OF l] by blast
    moreover have "(word_of_nat (t + 1) :: u64) \<le> word_of_nat (?l + 1) \<longleftrightarrow> t \<le> ?l"
      using b l word_of_nat_le [of "t + 1" "?l + 1"] by auto
    ultimately show ?thesis
      using slot_after_ok [OF None] False None by (simp add: pollXferStatus_def poll_spec_def)
  qed
next
  case (Some y)
  obtain u st where y: "y = (u, st)" by (cases y)
  have u: "u \<in> fst ` set rs" using Some y by (auto simp: find_Some_iff image_iff) (metis fst_conv nth_mem)
  have "(word_of_nat (u + 1) :: u64) \<noteq> 0" using b(2) u by (intro op_word_nonzero) auto
  moreover have "(word_of_nat (u + 1) :: u64) \<le> word_of_nat (t + 1) \<longleftrightarrow> u \<le> t"
    "(word_of_nat (t + 1) :: u64) \<le> word_of_nat (u + 1) \<longleftrightarrow> t \<le> u"
    using b u word_of_nat_le [of "u + 1" "t + 1"] word_of_nat_le [of "t + 1" "u + 1"] by auto
  ultimately show ?thesis
    using slot_after_failed [OF _ b(2)] Some y by (auto simp: pollXferStatus_def poll_spec_def)
qed




text \<open>The three stores of a retirement are separate, and so are the two loads of a poll. A poll that
  loads the completed index before and the rest after any of the stores sees the slot as it was
  before the retirement or as it is after it.\<close>

definition poll_torn :: "u64 \<Rightarrow> nixlProxyCompletionSlot \<Rightarrow> nixlProxyCompletionSlot \<Rightarrow> nixl_status_t" where
  "poll_torn op early late =
     (if failed_idx late \<noteq> 0 \<and> failed_idx late \<le> op then completion_status late
      else if op \<le> completed_idx early then NIXL_SUCCESS
      else NIXL_IN_PROG)"

definition retire_stages :: "u64 \<Rightarrow> nixl_status_t \<Rightarrow> nixlProxyCompletionSlot \<Rightarrow> nixlProxyCompletionSlot list" where
  "retire_stages op st slot =
     (let a = slot\<lparr>completion_status := st\<rparr>;
          b = (if is_err st then a\<lparr>failed_idx := op\<rparr> else a)
      in [slot, a, b, b\<lparr>completed_idx := op\<rparr>])"

lemma torn_poll_consistent:
  assumes "failed_idx slot = 0" "completed_idx slot < op'" "i \<le> j" "j < 4"
  shows "poll_torn op (retire_stages op' st slot ! i) (retire_stages op' st slot ! j) \<in>
    {pollXferStatus op slot, pollXferStatus op (retire_slot op' st slot)}"
proof -
  let ?s = "retire_stages op' st slot"
  have early: "completed_idx (?s ! i) = completed_idx slot" if "i < 3"
    using that by (auto simp: retire_stages_def Let_def less_Suc_eq numeral_3_eq_3)
  have late: "failed_idx (?s ! j) = 0 \<or> is_err st \<and> failed_idx (?s ! j) = op' \<and> completion_status (?s ! j) = st"
    using assms(1,4) by (auto simp: retire_stages_def Let_def less_Suc_eq numeral_eq_Suc)
  have last: "?s ! 3 = retire_slot op' st slot"
    using assms(1) by (simp add: retire_stages_def retire_slot_def Let_def)
  show ?thesis
  proof (cases "i < 3")
    case True
    show ?thesis
      using late
    proof
      assume "failed_idx (?s ! j) = 0"
      then show ?thesis using early [OF True] assms(1) by (simp add: poll_torn_def pollXferStatus_def)
    next
      assume l: "is_err st \<and> failed_idx (?s ! j) = op' \<and> completion_status (?s ! j) = st"
      then have "pollXferStatus op (retire_slot op' st slot) = st" if "op' \<le> op" "op' \<noteq> 0"
        using that assms(1) by (simp add: pollXferStatus_def retire_slot_def Let_def)
      then show ?thesis using l early [OF True] assms(1) by (simp add: poll_torn_def) (simp add: pollXferStatus_def)
    qed
  next
    case False
    then have "i = 3" "j = 3" using assms(3,4) by simp_all
    then show ?thesis using last by (simp add: poll_torn_def pollXferStatus_def)
  qed
qed

text \<open>A thread that has found room and not yet published its command looks like one that gave up. If the
  host skips its ticket at shutdown, the command lands behind the submission index and is never taken,
  although its thread was told that it is in progress.\<close>

lemma skip_overtakes_publisher:
  "\<exists>s r. reach ring_start ring_step s \<and> rs_shutdown s \<and> rs_threads s 0 = PBody 0 c \<and>
     skipAbandonedTickets_ring True True (rs_ring s) = Some (True, r) \<and> r_submit r = 1 \<and>
     op_idx (r_commands (store_op_idx 0 (write_body 0 c r)) ! slot_of r 0) = 1 \<and>
     fst (tryDequeue (store_op_idx 0 (write_body 0 c r))) = None"
proof -
  let ?p = "sample_sys (sample_ring\<lparr>r_producer := 1\<rparr>) (PBody 0 c) [c] [] False"
  let ?s = "sample_sys (sample_ring\<lparr>r_producer := 1\<rparr>) (PBody 0 c) [c] [] True"
  let ?r = "sample_ring\<lparr>r_producer := 1, r_submit := 1, r_consumer := 1, r_shadow := 1\<rparr>"
  have "host_step ?p ?s" using host_shutdown [of ?p] by (simp add: sample_sys_def)
  then have s: "reach ring_start ring_step ?s"
    using sample_past_gate by (blast intro: reach_step ring_step_def [THEN iffD2])
  have "skip_from (sample_ring\<lparr>r_producer := 1\<rparr>) 0 = 1"
    by (simp add: skip_from.simps [of _ 0] skip_from.simps [of _ 1] ring_published_def slot_of_nat
        sample_ring_def nixlProxyCommand_init_def)
  then have k: "skipAbandonedTickets_ring True True (rs_ring ?s) = Some (True, ?r)"
    by (simp add: skipAbandonedTickets_ring_def publishConsumerIdx_def ring_drained_def ring_published_def slot_of_nat
        sample_sys_def sample_ring_def nixlProxyCommand_init_def Let_def)
  have "op_idx (r_commands (store_op_idx 0 (write_body 0 c ?r)) ! slot_of ?r 0) = 1"
    "fst (tryDequeue (store_op_idx 0 (write_body 0 c ?r))) = None"
    by (simp_all add: store_op_idx_def write_body_def tryDequeue_def slot_of_nat depth64_def sample_ring_def
        nixlProxyCommand_init_def Let_def)
  then show ?thesis using s k by (intro exI [of _ ?s] exI [of _ ?r]) (simp add: sample_sys_def)
qed

end
