(* ===== verification/Nixl_ProxyChannel.thy ===== *)
theory Nixl_ProxyChannel
  imports Nixl_ProxyConfig Nixl_ProxyRing
begin

text \<open>
  A channel of the device proxy (\<open>src/utils/device/proxy/proxy_channel.cpp\<close>): the passes a host thread makes
  over the rings of its peers. The transport and the device memory operations are answers that may
  depend on all earlier calls; every call is recorded. Before a pass touches a ring, the device may have
  changed what it can write, so device threads run between any two visits. Shown: the transport sees
  what its contract promises (\<open>proxy_transport.h\<close>, \<open>README.md\<close>), and every pass over a ring consists of
  host steps of the ring protocol.
\<close>

subsection \<open>Calls and answers\<close>

datatype proxy_call =
  Submit proxyBackendSubmission nixl_status_t u64
| Check u32 u32 u64 nixl_status_t
| Progress u32 u32
| Quiesce u32 u32 nixl_status_t
| PublishIdx u32 u32 bool
| Look u32 u32

text \<open>The answers of the transport (status and request token of a submission, status of a poll, of a
  quiescence), of the device memory operations (selecting the device, copying the producer index,
  publishing an index, resetting), and what the device has made of a ring when the host next looks.\<close>

record proxy_env =
  pe_submit :: "proxy_call list \<Rightarrow> proxyBackendSubmission \<Rightarrow> nixl_status_t \<times> u64"
  pe_check :: "proxy_call list \<Rightarrow> u32 \<Rightarrow> u32 \<Rightarrow> u64 \<Rightarrow> nixl_status_t"
  pe_quiesce :: "proxy_call list \<Rightarrow> u32 \<Rightarrow> u32 \<Rightarrow> nixl_status_t"
  pe_select :: "proxy_call list \<Rightarrow> bool"
  pe_copy :: "proxy_call list \<Rightarrow> bool"
  pe_publish :: "proxy_call list \<Rightarrow> bool"
  pe_rearm :: "proxy_call list \<Rightarrow> rearm_env"
  pe_device :: "proxy_call list \<Rightarrow> u32 \<Rightarrow> u32 \<Rightarrow> proxyRing \<Rightarrow> proxyRing"

subsection \<open>One ring\<close>

definition proxyBackendSubmission_init :: proxyBackendSubmission where
  "proxyBackendSubmission_init =
     \<lparr>sub_op_idx = 0, sub_opcode = PUT, sub_channel = 0, sub_peer = 0, sub_local = null_meta_desc,
      sub_remote = null_meta_desc, sub_size = 0, sub_value = 0\<rparr>"

definition submitRecord ::
  "proxy_env \<Rightarrow> host_views \<Rightarrow> u32 \<Rightarrow> u32 \<Rightarrow> nat \<Rightarrow> nixlProxyCommand \<Rightarrow> proxyRing \<Rightarrow> proxy_call list \<Rightarrow>
     (proxyRing \<times> proxy_call list) option" where
  "submitRecord env hv ch peer slot submission r h =
     (let inflight = proxyRequestState_init\<lparr>rq_op_idx := op_idx submission\<rparr>
      in case resolveSubmission hv submission ch peer proxyBackendSubmission_init of
           None \<Rightarrow> None
         | Some (st, prepared) \<Rightarrow>
             if st \<noteq> NIXL_SUCCESS then Some (recordInflight slot (inflight\<lparr>rq_status := st\<rparr>) r, h)
             else (case pe_submit env h prepared of (st, token) \<Rightarrow>
               Some (recordInflight slot (inflight\<lparr>rq_token := token, rq_status := st\<rparr>) r,
                     h @ [Submit prepared st token])))"

definition submit_ring ::
  "proxy_env \<Rightarrow> host_views \<Rightarrow> u32 \<Rightarrow> u32 \<Rightarrow> proxyRing \<Rightarrow> proxy_call list \<Rightarrow> (proxyRing \<times> proxy_call list) option" where
  "submit_ring env hv ch peer r h =
     (case tryDequeue r of
        (None, r) \<Rightarrow> Some (r, h)
      | (Some (slot, submission), r) \<Rightarrow> submitRecord env hv ch peer slot submission r h)"

definition progress_ring ::
  "u32 \<Rightarrow> u32 \<Rightarrow> proxyRing \<Rightarrow> proxy_call list \<Rightarrow> (proxyRing \<times> proxy_call list) option" where
  "progress_ring ch peer r h = Some (r, h @ [Progress ch peer])"

text \<open>One turn of the loop over the oldest requests: nothing in flight, the oldest still running, or the
  oldest retired, after which the loop goes on.\<close>

definition publish_one ::
  "proxy_env \<Rightarrow> u32 \<Rightarrow> u32 \<Rightarrow> proxyRing \<Rightarrow> proxy_call list \<Rightarrow> (bool \<times> proxyRing \<times> proxy_call list) option" where
  "publish_one env ch peer r h =
     (case oldestInflight r of
        None \<Rightarrow> Some (False, r, h)
      | Some front \<Rightarrow>
          let (st, r, h) =
            (if rq_status front \<noteq> NIXL_IN_PROG then (rq_status front, r, h)
             else
               let st = pe_check env h ch peer (rq_token front)
               in (st,
                   if st = NIXL_IN_PROG then r
                   else recordInflight (slot_of r (r_shadow r)) (front\<lparr>rq_status := st\<rparr>) r,
                   h @ [Check ch peer (rq_token front) st]))
          in if st = NIXL_IN_PROG then Some (False, r, h)
             else map_option (\<lambda>r'. (True, r', h @ [PublishIdx ch peer True]))
               (retireOldest (pe_publish env h) st r))"

lemma retireOldest_indices:
  "retireOldest ok st r = Some r' \<Longrightarrow>
     r_submit r' = r_submit r \<and> r_shadow r' = r_shadow r + 1 \<and> r_depth r' = r_depth r"
  by (auto simp: retireOldest_def publishConsumerIdx_def Let_def split: if_splits)

lemma recordInflight_sel [simp]:
  "r_submit (recordInflight i q r) = r_submit r" "r_shadow (recordInflight i q r) = r_shadow r"
  "r_depth (recordInflight i q r) = r_depth r" "r_allocated (recordInflight i q r) = r_allocated r"
  "r_commands (recordInflight i q r) = r_commands r" "r_control (recordInflight i q r) = r_control r"
  "r_producer (recordInflight i q r) = r_producer r" "r_cache (recordInflight i q r) = r_cache r"
  "r_inflight (recordInflight i q r) = (r_inflight r)[i := q]"
  by (simp_all add: recordInflight_def)

lemma publish_one_indices:
  assumes "publish_one env ch peer r h = Some (True, r', h')"
  shows "r_submit r' = r_submit r \<and> r_shadow r' = r_shadow r + 1 \<and> r_shadow r \<noteq> r_submit r \<and> r_depth r' = r_depth r"
  using assms
  by (auto simp: publish_one_def oldestInflight_def Let_def dest!: retireOldest_indices
      split: option.splits if_splits)

lemma word_gap_shrinks: "(a :: u64) \<noteq> b \<Longrightarrow> unat (b - (a + 1)) < unat (b - a)"
proof -
  assume "a \<noteq> b"
  then have "b - a \<noteq> 0" by simp
  then have "unat (b - a - 1) < unat (b - a)" by (simp add: unat_minus_one unat_gt_0)
  then show ?thesis by (simp add: algebra_simps)
qed

function publish_ring ::
  "proxy_env \<Rightarrow> u32 \<Rightarrow> u32 \<Rightarrow> proxyRing \<Rightarrow> proxy_call list \<Rightarrow> (proxyRing \<times> proxy_call list) option" where
  "publish_ring env ch peer r h =
     (case publish_one env ch peer r h of
        None \<Rightarrow> None
      | Some (False, r', h') \<Rightarrow> Some (r', h')
      | Some (True, r', h') \<Rightarrow> publish_ring env ch peer r' h')"
  by pat_completeness auto
termination
  by (relation "measure (\<lambda>(env, ch, peer, r, h). unat (r_submit r - r_shadow r))")
    (auto dest!: publish_one_indices intro: word_gap_shrinks)

declare publish_ring.simps [simp del]

definition rearm_ring ::
  "proxy_env \<Rightarrow> u32 \<Rightarrow> u32 \<Rightarrow> proxyRing \<Rightarrow> proxy_call list \<Rightarrow> (proxyRing \<times> proxy_call list) option" where
  "rearm_ring env ch peer r h =
     (if \<not> r_allocated r then Some (r, h)
      else if \<not> pe_select env h then None
      else if \<not> assertDrained (pe_copy env h) r then None
      else
        let st = pe_quiesce env h ch peer;
            h = h @ [Quiesce ch peer st]
        in if st \<noteq> NIXL_SUCCESS then None
           else (case rearm (pe_rearm env h) r of
                   (NIXL_SUCCESS, r) \<Rightarrow> Some (r, h)
                 | _ \<Rightarrow> None))"

definition skip_ring ::
  "proxy_env \<Rightarrow> u32 \<Rightarrow> u32 \<Rightarrow> proxyRing \<Rightarrow> proxy_call list \<Rightarrow> (bool \<times> proxyRing \<times> proxy_call list) option" where
  "skip_ring env ch peer r h =
     map_option (\<lambda>(skipped, r'). (skipped, r', h @ [PublishIdx ch peer skipped]))
       (skipAbandonedTickets_ring (pe_copy env h) (pe_publish env h) r)"

subsection \<open>Passes over the peers\<close>

record proxyChannel =
  pc_id :: u32
  pc_rings :: "proxyRing list"

definition proxyRing_default :: proxyRing where
  "proxyRing_default =
     \<lparr>r_submit = 0, r_shadow = 0, r_inflight = [], r_depth = 0, r_control = False, r_allocated = False, r_index = 0,
      r_commands = [], r_producer = 0, r_consumer = 0, r_cache = 0, r_slot = slot_init\<rparr>"

definition proxyChannel_new :: "u32 \<Rightarrow> u32 \<Rightarrow> proxyChannel" where
  "proxyChannel_new channel_id n_peers =
     \<lparr>pc_id = channel_id, pc_rings = replicate (unat n_peers) proxyRing_default\<rparr>"

text \<open>Allocation stops at the first ring that fails; the answers for each ring are given.\<close>

fun allocate_from :: "(nat \<Rightarrow> alloc_env) \<Rightarrow> u32 \<Rightarrow> nat \<Rightarrow> nat list \<Rightarrow> proxyRing list \<Rightarrow> nixl_status_t \<times> proxyRing list" where
  "allocate_from env depth base [] rings = (NIXL_SUCCESS, rings)"
| "allocate_from env depth base (p # ps) rings =
     (case ring_allocate (env (base + p)) depth (base + p) (rings ! p) of
        (rc, r) \<Rightarrow>
          if rc \<noteq> NIXL_SUCCESS then (rc, rings[p := r])
          else allocate_from env depth base ps (rings[p := r]))"

definition channel_allocate :: "(nat \<Rightarrow> alloc_env) \<Rightarrow> u32 \<Rightarrow> proxyChannel \<Rightarrow> nixl_status_t \<times> proxyChannel" where
  "channel_allocate env depth c =
     (case allocate_from env depth (unat (pc_id c) * length (pc_rings c)) [0..<length (pc_rings c)] (pc_rings c) of
        (rc, rings) \<Rightarrow> (rc, c\<lparr>pc_rings := rings\<rparr>))"

text \<open>A visit first sees what the device has done to the ring.\<close>

fun for_peers ::
  "proxy_env \<Rightarrow> u32 \<Rightarrow> (u32 \<Rightarrow> proxyRing \<Rightarrow> proxy_call list \<Rightarrow> (proxyRing \<times> proxy_call list) option) \<Rightarrow>
     nat list \<Rightarrow> proxyRing list \<Rightarrow> proxy_call list \<Rightarrow> (proxyRing list \<times> proxy_call list) option" where
  "for_peers env ch f [] rings h = Some (rings, h)"
| "for_peers env ch f (p # ps) rings h =
     (let peer = word_of_nat p
      in case f peer (pe_device env h ch peer (rings ! p)) (h @ [Look ch peer]) of
           None \<Rightarrow> None
         | Some (r, h) \<Rightarrow> for_peers env ch f ps (rings[p := r]) h)"

definition on_peers ::
  "proxy_env \<Rightarrow> (u32 \<Rightarrow> u32 \<Rightarrow> proxyRing \<Rightarrow> proxy_call list \<Rightarrow> (proxyRing \<times> proxy_call list) option) \<Rightarrow>
     proxyPeerSlice \<Rightarrow> proxyChannel \<Rightarrow> proxy_call list \<Rightarrow> (proxyChannel \<times> proxy_call list) option" where
  "on_peers env f peers c h =
     map_option (\<lambda>(rings, h). (c\<lparr>pc_rings := rings\<rparr>, h))
       (for_peers env (pc_id c) (f (pc_id c)) (slice_peers peers (length (pc_rings c))) (pc_rings c) h)"

definition submitReady ::
  "proxy_env \<Rightarrow> host_views \<Rightarrow> proxyPeerSlice \<Rightarrow> proxyChannel \<Rightarrow> proxy_call list \<Rightarrow> (proxyChannel \<times> proxy_call list) option" where
  "submitReady env hv = on_peers env (submit_ring env hv)"

definition channel_progress ::
  "proxy_env \<Rightarrow> proxyPeerSlice \<Rightarrow> proxyChannel \<Rightarrow> proxy_call list \<Rightarrow> (proxyChannel \<times> proxy_call list) option" where
  "channel_progress env = on_peers env progress_ring"

definition publishCompletions ::
  "proxy_env \<Rightarrow> proxyPeerSlice \<Rightarrow> proxyChannel \<Rightarrow> proxy_call list \<Rightarrow> (proxyChannel \<times> proxy_call list) option" where
  "publishCompletions env = on_peers env (publish_ring env)"

definition drainAndRearm ::
  "proxy_env \<Rightarrow> proxyPeerSlice \<Rightarrow> proxyChannel \<Rightarrow> proxy_call list \<Rightarrow> (proxyChannel \<times> proxy_call list) option" where
  "drainAndRearm env = on_peers env (rearm_ring env)"

fun drained_peers ::
  "proxy_env \<Rightarrow> u32 \<Rightarrow> nat list \<Rightarrow> proxyRing list \<Rightarrow> proxy_call list \<Rightarrow> bool \<times> proxyRing list \<times> proxy_call list" where
  "drained_peers env ch [] rings h = (True, rings, h)"
| "drained_peers env ch (p # ps) rings h =
     (let peer = word_of_nat p;
          r = pe_device env h ch peer (rings ! p);
          h = h @ [Look ch peer]
      in if \<not> ring_drained r then (False, rings[p := r], h)
         else drained_peers env ch ps (rings[p := r]) h)"

definition channel_drained ::
  "proxy_env \<Rightarrow> proxyPeerSlice \<Rightarrow> proxyChannel \<Rightarrow> proxy_call list \<Rightarrow> bool \<times> proxyChannel \<times> proxy_call list" where
  "channel_drained env peers c h =
     (case drained_peers env (pc_id c) (slice_peers peers (length (pc_rings c))) (pc_rings c) h of
        (b, rings, h) \<Rightarrow> (b, c\<lparr>pc_rings := rings\<rparr>, h))"

fun skip_peers ::
  "proxy_env \<Rightarrow> u32 \<Rightarrow> nat list \<Rightarrow> bool \<Rightarrow> proxyRing list \<Rightarrow> proxy_call list \<Rightarrow>
     (bool \<times> proxyRing list \<times> proxy_call list) option" where
  "skip_peers env ch [] skipped rings h = Some (skipped, rings, h)"
| "skip_peers env ch (p # ps) skipped rings h =
     (let peer = word_of_nat p
      in case skip_ring env ch peer (pe_device env h ch peer (rings ! p)) (h @ [Look ch peer]) of
           None \<Rightarrow> None
         | Some (b, r, h) \<Rightarrow> skip_peers env ch ps (b \<or> skipped) (rings[p := r]) h)"

definition skipAbandonedTickets ::
  "proxy_env \<Rightarrow> proxyPeerSlice \<Rightarrow> proxyChannel \<Rightarrow> proxy_call list \<Rightarrow> (bool \<times> proxyChannel \<times> proxy_call list) option" where
  "skipAbandonedTickets env peers c h =
     map_option (\<lambda>(b, rings, h). (b, c\<lparr>pc_rings := rings\<rparr>, h))
       (skip_peers env (pc_id c) (slice_peers peers (length (pc_rings c))) False (pc_rings c) h)"

subsection \<open>The transport's contract\<close>

text \<open>The requests of one ring that a transport has in progress, oldest first, as its calls change them. The
  contract of \<open>proxy_transport.h\<close>: at most as many as the ring is deep, only the oldest is polled, a request
  is gone after a terminal status, and a ring is quiesced only when it has none.\<close>

fun call_ring :: "proxy_call \<Rightarrow> u32 \<times> u32" where
  "call_ring (Submit sub st token) = (sub_channel sub, sub_peer sub)"
| "call_ring (Check ch peer token st) = (ch, peer)"
| "call_ring (Progress ch peer) = (ch, peer)"
| "call_ring (Quiesce ch peer st) = (ch, peer)"
| "call_ring (PublishIdx ch peer ok) = (ch, peer)"
| "call_ring (Look ch peer) = (ch, peer)"

fun contract_step :: "nat \<Rightarrow> u64 list \<Rightarrow> proxy_call \<Rightarrow> u64 list option" where
  "contract_step depth q (Submit sub st token) =
     (if st \<noteq> NIXL_IN_PROG then Some q else if length q < depth then Some (q @ [token]) else None)"
| "contract_step depth q (Check ch peer token st) =
     (if q = [] \<or> hd q \<noteq> token then None else Some (if st = NIXL_IN_PROG then q else tl q))"
| "contract_step depth q (Quiesce ch peer st) = (if q = [] then Some q else None)"
| "contract_step depth q _ = Some q"

definition outstanding_from :: "u32 \<times> u32 \<Rightarrow> nat \<Rightarrow> proxy_call list \<Rightarrow> u64 list option \<Rightarrow> u64 list option" where
  "outstanding_from ring depth h q =
     foldl (\<lambda>q c. if call_ring c = ring then Option.bind q (\<lambda>q. contract_step depth q c) else q) q h"

definition outstanding :: "u32 \<times> u32 \<Rightarrow> nat \<Rightarrow> proxy_call list \<Rightarrow> u64 list option" where
  "outstanding ring depth h = outstanding_from ring depth h (Some [])"

lemma outstanding_append:
  "outstanding ring depth (h @ cs) = outstanding_from ring depth cs (outstanding ring depth h)"
  by (simp add: outstanding_def outstanding_from_def)

lemma outstanding_snoc [simp]:
  "outstanding ring depth (h @ [c]) =
     (if call_ring c = ring then Option.bind (outstanding ring depth h) (\<lambda>q. contract_step depth q c)
      else outstanding ring depth h)"
  by (simp add: outstanding_append outstanding_from_def)

lemma outstanding_other:
  "(\<And>c. c \<in> set cs \<Longrightarrow> call_ring c \<noteq> ring) \<Longrightarrow> outstanding ring depth (h @ cs) = outstanding ring depth h"
  by (induction cs rule: rev_induct) (simp_all del: append_assoc add: append_assoc [symmetric])

text \<open>The requests a ring has in flight, oldest first. The depth divides the range of the indices, so slots
  stay in step when an index wraps around.\<close>

definition inflight_count :: "proxyRing \<Rightarrow> nat" where
  "inflight_count r = unat (r_submit r - r_shadow r)"

definition inflight_list :: "proxyRing \<Rightarrow> proxyRequestState list" where
  "inflight_list r =
     map (\<lambda>i. r_inflight r ! ((unat (r_shadow r) + i) mod unat (r_depth r))) [0..<inflight_count r]"

definition pending_tokens :: "proxyRequestState list \<Rightarrow> u64 list" where
  "pending_tokens rqs = map rq_token (filter (\<lambda>rq. rq_status rq = NIXL_IN_PROG) rqs)"

definition ring_wf :: "proxyRing \<Rightarrow> bool" where
  "ring_wf r \<longleftrightarrow>
     length (r_inflight r) = unat (r_depth r) \<and> unat (r_depth r) dvd 2 ^ 64 \<and> inflight_count r \<le> unat (r_depth r)"

definition ring_link :: "u32 \<Rightarrow> u32 \<Rightarrow> nat \<Rightarrow> proxyRing \<Rightarrow> proxy_call list \<Rightarrow> bool" where
  "ring_link ch peer depth r h \<longleftrightarrow>
     ring_wf r \<and> unat (r_depth r) = depth \<and>
     outstanding (ch, peer) depth h = Some (pending_tokens (inflight_list r))"

lemma pending_tokens_simps [simp]:
  "pending_tokens [] = []"
  "pending_tokens (a @ b) = pending_tokens a @ pending_tokens b"
  "pending_tokens (q # b) = (if rq_status q = NIXL_IN_PROG then rq_token q # pending_tokens b else pending_tokens b)"
  by (simp_all add: pending_tokens_def)

lemma length_pending: "length (pending_tokens q) \<le> length q"
  by (simp add: pending_tokens_def)

lemma slot_of_offset:
  assumes "unat (r_depth r) dvd 2 ^ 64"
  shows "slot_of r (x + word_of_nat i) = (unat x + i) mod unat (r_depth r)"
proof -
  have "unat (x + word_of_nat i) = (unat x + i) mod 2 ^ 64"
    by (simp add: unat_word_ariths unat_of_nat mod_add_right_eq)
  then show ?thesis by (simp only: slot_of_nat mod_mod_cancel [OF assms])
qed

lemma ring_wf_depth: "ring_wf r \<Longrightarrow> 0 < unat (r_depth r)"
  using dvd_pos_nat [of "2 ^ 64" "unat (r_depth r)"] by (simp add: ring_wf_def)

lemma depth_bound: "unat (r_depth (r :: proxyRing)) < 2 ^ 32"
  using unsigned_less [of "r_depth r", where ?'a = nat] by simp

lemma inflight_list_record:
  assumes "ring_wf r" "inflight_count r < unat (r_depth r)"
    and "r_submit r' = r_submit r + 1" "r_shadow r' = r_shadow r" "r_depth r' = r_depth r"
    and "r_inflight r' = (r_inflight r)[slot_of r (r_submit r) := q]"
  shows "inflight_list r' = inflight_list r @ [q]" "inflight_count r' = inflight_count r + 1"
proof -
  let ?n = "inflight_count r" let ?D = "unat (r_depth r)"
  have s: "r_submit r = r_shadow r + word_of_nat ?n" by (simp add: inflight_count_def)
  have slot: "slot_of r (r_submit r) = (unat (r_shadow r) + ?n) mod ?D"
    unfolding s using assms(1) by (simp add: slot_of_offset ring_wf_def)
  have "r_submit r' - r_shadow r' = (r_submit r - r_shadow r) + 1" using assms(3,4) by simp
  moreover have "?n + 1 < 2 ^ 64" using assms(2) depth_bound [of r] by simp
  ultimately show c: "inflight_count r' = ?n + 1"
    using unat_add_u64 [of "r_submit r - r_shadow r" 1] by (simp add: inflight_count_def)
  have d: "(unat (r_shadow r) + ?n) mod ?D \<noteq> (unat (r_shadow r) + i) mod ?D" if "i < ?n" for i
    using window_less [of "unat (r_shadow r)" "unat (r_shadow r) + i" "unat (r_shadow r) + ?n" ?D] that assms(2)
    by simp
  have "(unat (r_shadow r) + ?n) mod ?D < length (r_inflight r)"
    using assms(1) ring_wf_depth [OF assms(1)] by (simp add: ring_wf_def)
  then show "inflight_list r' = inflight_list r @ [q]"
    unfolding inflight_list_def c using assms(4-6) slot d by simp
qed

lemma inflight_list_retire:
  assumes "ring_wf r" "r_shadow r \<noteq> r_submit r"
    and "r_submit r' = r_submit r" "r_shadow r' = r_shadow r + 1" "r_depth r' = r_depth r"
    and "\<And>i. i \<noteq> slot_of r (r_shadow r) \<Longrightarrow> r_inflight r' ! i = r_inflight r ! i"
  shows "inflight_list r = r_inflight r ! slot_of r (r_shadow r) # inflight_list r'"
    "inflight_count r = inflight_count r' + 1"
proof -
  let ?n = "inflight_count r" let ?D = "unat (r_depth r)" let ?m = "inflight_count r'"
  have nz: "r_submit r - r_shadow r \<noteq> 0" using assms(2) by simp
  have "r_submit r' - r_shadow r' = (r_submit r - r_shadow r) - 1" using assms(3,4) by (simp add: algebra_simps)
  then have "?m = ?n - 1" using unat_minus_one [OF nz] by (simp add: inflight_count_def)
  then show c: "?n = ?m + 1" using nz by (simp add: inflight_count_def unat_gt_0)
  have dv: "?D dvd 2 ^ 64" and le: "?n \<le> ?D" using assms(1) by (auto simp: ring_wf_def)
  have step: "(unat (r_shadow r') + i) mod ?D = (unat (r_shadow r) + Suc i) mod ?D" for i
    using slot_of_offset [OF dv, of "r_shadow r" "Suc i"] slot_of_offset [OF dv, of "r_shadow r'" i] assms(4)
    by (simp add: algebra_simps)
  have "(unat (r_shadow r) + Suc i) mod ?D \<noteq> slot_of r (r_shadow r)" if "i < ?m" for i
    using window_less [of "unat (r_shadow r)" "unat (r_shadow r)" "unat (r_shadow r) + Suc i" ?D] that le c
    by (auto simp: slot_of_nat)
  then have "map (\<lambda>i. r_inflight r ! ((unat (r_shadow r) + Suc i) mod ?D)) [0..<?m] = inflight_list r'"
    using assms(6) by (auto simp: inflight_list_def assms(5) step)
  then show "inflight_list r = r_inflight r ! slot_of r (r_shadow r) # inflight_list r'"
    unfolding inflight_list_def [of r] c
    by (simp add: upt_rec [of 0] map_Suc_upt [symmetric] slot_of_nat comp_def del: upt_Suc)
qed

text \<open>The device writes commands, its producer index and its cache, nothing the host keeps.\<close>

definition device_only :: "proxyRing \<Rightarrow> proxyRing \<Rightarrow> bool" where
  "device_only r r' \<longleftrightarrow>
     (\<exists>cs p k. r' = r\<lparr>r_commands := cs, r_producer := p, r_cache := k\<rparr>)"

lemma device_only_sel:
  assumes "device_only r r'"
  shows "r_submit r' = r_submit r" "r_shadow r' = r_shadow r" "r_depth r' = r_depth r" "r_inflight r' = r_inflight r"
    "r_allocated r' = r_allocated r" "r_control r' = r_control r"
  using assms by (auto simp: device_only_def)

lemma link_same:
  assumes "ring_link ch peer depth r h" "r_submit r' = r_submit r" "r_shadow r' = r_shadow r"
    "r_depth r' = r_depth r" "r_inflight r' = r_inflight r" "outstanding (ch, peer) depth h' = outstanding (ch, peer) depth h"
  shows "ring_link ch peer depth r' h'"
  using assms by (auto simp: ring_link_def ring_wf_def inflight_list_def inflight_count_def)

lemma link_empty:
  assumes "ring_wf r" "unat (r_depth r) = depth" "r_submit r = r_shadow r" "outstanding (ch, peer) depth h = Some []"
  shows "ring_link ch peer depth r h"
  using assms by (simp add: ring_link_def inflight_list_def inflight_count_def)

lemma link_idle:
  "ring_link ch peer depth r h \<Longrightarrow> r_submit r = r_shadow r \<Longrightarrow> outstanding (ch, peer) depth h = Some []"
  by (simp add: ring_link_def inflight_list_def inflight_count_def)

lemma resolve_status: "resolveSubmission hv c ch peer out = Some (st, s) \<Longrightarrow> st \<noteq> NIXL_IN_PROG"
  using resolve_failed [of hv c ch peer out st s] by (cases "st = NIXL_SUCCESS") (auto simp: is_err_iff)

lemma resolve_ring:
  "resolveSubmission hv c ch peer out = Some (NIXL_SUCCESS, s) \<Longrightarrow> sub_channel s = ch \<and> sub_peer s = peer"
  by (auto simp: resolveSubmission_def Let_def dest: lookupDesc_refused split: option.splits prod.splits if_splits)

lemma tryDequeue_taken:
  assumes "tryDequeue r = (Some (slot, c), r')"
  shows "slot = slot_of r (r_submit r)" "r_submit r' = r_submit r + 1" "r_shadow r' = r_shadow r"
    "r_depth r' = r_depth r" "r_inflight r' = r_inflight r" "inflight_count r < unat (r_depth r)"
    "r_allocated r' = r_allocated r" "r_control r' = r_control r"
  using assms by (auto simp: tryDequeue_def Let_def inflight_count_def word_le_nat_alt unat_depth64 split: if_splits)

lemma tryDequeue_none: "tryDequeue r = (None, r') \<Longrightarrow> r' = r"
  by (auto simp: tryDequeue_def Let_def split: if_splits)

lemma link_record:
  assumes "ring_link ch peer depth r h" "tryDequeue r = (Some (slot, c), r')"
    and "outstanding (ch, peer) depth h' =
      (if rq_status q = NIXL_IN_PROG then Some (pending_tokens (inflight_list r) @ [rq_token q])
       else outstanding (ch, peer) depth h)"
  shows "ring_link ch peer depth (recordInflight slot q r') h'"
proof -
  note t = tryDequeue_taken [OF assms(2)]
  have wf: "ring_wf r" using assms(1) by (simp add: ring_link_def)
  have l: "inflight_list (recordInflight slot q r') = inflight_list r @ [q]"
    "inflight_count (recordInflight slot q r') = inflight_count r + 1"
    using inflight_list_record [OF wf t(6), of "recordInflight slot q r'" q] t by simp_all
  then show ?thesis using assms(1,3) wf t by (auto simp: ring_link_def ring_wf_def)
qed

lemma submit_ring_link:
  assumes "ring_link ch peer depth r h" "submit_ring env hv ch peer r h = Some (r', h')"
  shows "ring_link ch peer depth r' h'"
proof (cases "tryDequeue r")
  case (Pair got r0)
  show ?thesis
  proof (cases got)
    case None
    then show ?thesis using assms Pair tryDequeue_none by (auto simp: submit_ring_def)
  next
    case (Some sc)
    then obtain slot c where t: "tryDequeue r = (Some (slot, c), r0)" using Pair by (cases sc) auto
    then have e: "submitRecord env hv ch peer slot c r0 h = Some (r', h')" using assms(2) by (simp add: submit_ring_def)
    have n: "length (pending_tokens (inflight_list r)) < depth"
      using length_pending [of "inflight_list r"] tryDequeue_taken(6) [OF t] assms(1)
      by (simp add: inflight_list_def ring_link_def)
    obtain st s where rs: "resolveSubmission hv c ch peer proxyBackendSubmission_init = Some (st, s)"
      using e by (auto simp: submitRecord_def Let_def split: option.splits)
    show ?thesis
    proof (cases "st = NIXL_SUCCESS")
      case False
      then show ?thesis using e rs link_record [OF assms(1) t, of h] resolve_status [OF rs]
        by (auto simp: submitRecord_def)
    next
      case True
      obtain sst tok where p: "pe_submit env h s = (sst, tok)" by (cases "pe_submit env h s")
      have o: "outstanding (ch, peer) depth h = Some (pending_tokens (inflight_list r))"
        using assms(1) by (simp add: ring_link_def)
      have "call_ring (Submit s sst tok) = (ch, peer)" using resolve_ring rs True by simp
      then have "ring_link ch peer depth
          (recordInflight slot (proxyRequestState_init\<lparr>rq_op_idx := op_idx c, rq_token := tok, rq_status := sst\<rparr>) r0)
          (h @ [Submit s sst tok])"
        by (intro link_record [OF assms(1) t]) (use n o in simp)
      then show ?thesis using e rs True p by (simp add: submitRecord_def)
    qed
  qed
qed

lemma retireOldest_keeps:
  assumes "retireOldest ok st r = Some r'"
  shows "length (r_inflight r') = length (r_inflight r)"
    "i \<noteq> slot_of r (r_shadow r) \<Longrightarrow> r_inflight r' ! i = r_inflight r ! i"
  using assms by (auto simp: retireOldest_def publishConsumerIdx_def Let_def split: if_splits)

lemma link_retire:
  assumes "ring_link ch peer depth r h" "r_shadow r \<noteq> r_submit r"
    and "front = r_inflight r ! slot_of r (r_shadow r)"
    and "r0 = r \<or> (\<exists>q. r0 = recordInflight (slot_of r (r_shadow r)) q r)" "retireOldest ok st r0 = Some r'"
    and "outstanding (ch, peer) depth h' =
      (if rq_status front = NIXL_IN_PROG then Some (tl (pending_tokens (inflight_list r)))
       else outstanding (ch, peer) depth h)"
  shows "ring_link ch peer depth r' h'"
proof -
  have wf: "ring_wf r" using assms(1) by (simp add: ring_link_def)
  have r0: "r_submit r0 = r_submit r" "r_shadow r0 = r_shadow r" "r_depth r0 = r_depth r"
    "length (r_inflight r0) = length (r_inflight r)" "slot_of r0 (r_shadow r0) = slot_of r (r_shadow r)"
    "i \<noteq> slot_of r (r_shadow r) \<Longrightarrow> r_inflight r0 ! i = r_inflight r ! i" for i
    using assms(4) by (auto simp: slot_of_nat)
  note k = retireOldest_keeps [OF assms(5)] and ix = retireOldest_indices [OF assms(5)]
  have "inflight_list r = front # inflight_list r'" "inflight_count r = inflight_count r' + 1"
    unfolding assms(3) using inflight_list_retire [OF wf assms(2), of r'] ix r0 k by simp_all
  then show ?thesis using assms(1,6) wf ix r0 k by (auto simp: ring_link_def ring_wf_def)
qed

lemma publish_one_link:
  assumes "ring_link ch peer depth r h" "publish_one env ch peer r h = Some (b, r', h')"
  shows "ring_link ch peer depth r' h'"
proof (cases "r_shadow r = r_submit r")
  case True
  then show ?thesis using assms by (simp add: publish_one_def oldestInflight_def)
next
  case False
  define front where "front = r_inflight r ! slot_of r (r_shadow r)"
  have old: "oldestInflight r = Some front" using False by (simp add: oldestInflight_def front_def)
  note wf = assms(1) [unfolded ring_link_def, THEN conjunct1]
  have o: "outstanding (ch, peer) depth h = Some (pending_tokens (inflight_list r))"
    using assms(1) by (simp add: ring_link_def)
  have "0 < inflight_count r" using False by (simp add: inflight_count_def unat_gt_0)
  then obtain rest where l: "inflight_list r = front # rest"
    by (simp add: inflight_list_def front_def slot_of_nat upt_rec [of 0])
  show ?thesis
  proof (cases "rq_status front = NIXL_IN_PROG")
    case False
    then obtain r1 where "retireOldest (pe_publish env h) (rq_status front) r = Some r1" "r' = r1"
        "h' = h @ [PublishIdx ch peer True]"
      using assms(2) old by (auto simp: publish_one_def)
    moreover have "outstanding (ch, peer) depth (h @ [PublishIdx ch peer True]) = outstanding (ch, peer) depth h"
      using o by simp
    ultimately show ?thesis
      using link_retire [OF assms(1) \<open>r_shadow r \<noteq> r_submit r\<close> front_def, of r] False by metis
  next
    case prog: True
    let ?tok = "rq_token front" let ?st = "pe_check env h ch peer ?tok" let ?h = "h @ [Check ch peer ?tok ?st]"
    have t: "outstanding (ch, peer) depth ?h =
        Some (if ?st = NIXL_IN_PROG then pending_tokens (inflight_list r) else tl (pending_tokens (inflight_list r)))"
      using o prog l by simp
    show ?thesis
    proof (cases "?st = NIXL_IN_PROG")
      case True
      then have "r' = r" "h' = ?h" using assms(2) old prog by (auto simp: publish_one_def)
      then show ?thesis using link_same [OF assms(1)] t True o by simp
    next
      case False
      then have rt: "retireOldest (pe_publish env ?h) ?st
            (recordInflight (slot_of r (r_shadow r)) (front\<lparr>rq_status := ?st\<rparr>) r) = Some r'"
          "h' = ?h @ [PublishIdx ch peer True]"
        using assms(2) old prog by (auto simp: publish_one_def Let_def)
      have "outstanding (ch, peer) depth h' = Some (tl (pending_tokens (inflight_list r)))"
        unfolding rt(2) outstanding_snoc [of _ _ ?h] using t False by simp
      then show ?thesis
        by (intro link_retire [OF assms(1) \<open>r_shadow r \<noteq> r_submit r\<close> front_def _ rt(1)]) (use prog in auto)
    qed
  qed
qed

lemma publish_ring_link:
  "ring_link ch peer depth r h \<Longrightarrow> publish_ring env ch peer r h = Some (r', h') \<Longrightarrow> ring_link ch peer depth r' h'"
proof (induction env ch peer r h rule: publish_ring.induct)
  case (1 env ch peer r h)
  from "1.prems"(2) obtain b r1 h1 where p: "publish_one env ch peer r h = Some (b, r1, h1)"
    by (subst (asm) publish_ring.simps) (auto split: option.splits prod.splits)
  note l = publish_one_link [OF "1.prems"(1) p]
  show ?case
  proof (cases b)
    case True
    then have "publish_ring env ch peer r1 h1 = Some (r', h')"
      using "1.prems"(2) p by (subst (asm) publish_ring.simps) simp
    then show ?thesis using "1.IH" [OF p] True l by simp
  next
    case False
    then show ?thesis using "1.prems"(2) p l by (subst (asm) publish_ring.simps) simp
  qed
qed

definition ring_fresh :: "proxyRing \<Rightarrow> bool" where
  "ring_fresh r \<longleftrightarrow>
     r_submit r = 0 \<and> r_shadow r = 0 \<and> r_consumer r = 0 \<and> r_producer r = 0 \<and> r_cache r = 0 \<and>
     r_commands r = replicate (unat (r_depth r)) nixlProxyCommand_init \<and>
     r_inflight r = replicate (unat (r_depth r)) proxyRequestState_init \<and> r_slot r = slot_init"

lemma rearm_fresh:
  "rearm env r = (NIXL_SUCCESS, r') \<Longrightarrow>
     ring_fresh r' \<and> r_depth r' = r_depth r \<and> r_allocated r' = r_allocated r \<and> r_control r' = r_control r"
  by (auto simp: rearm_def publishConsumerIdx_def ring_fresh_def Let_def split: if_splits)

lemma drained_idle: "ring_drained r \<Longrightarrow> r_depth r \<noteq> 0 \<Longrightarrow> r_submit r = r_shadow r"
  by (auto simp: ring_drained_def split: if_splits)

lemma rearm_ring_result:
  assumes "rearm_ring env ch peer r h = Some (r', h')" "r_allocated r"
  shows "ring_drained r" "ring_fresh r'" "r_depth r' = r_depth r" "r_allocated r'" "r_control r' = r_control r"
    "r_producer r = r_submit r" "h' = h @ [Quiesce ch peer NIXL_SUCCESS]"
  using assms by (auto simp: rearm_ring_def assertDrained_def Let_def dest!: rearm_fresh
      split: if_splits prod.splits nixl_status_t.splits)

lemma rearm_ring_link:
  assumes "ring_link ch peer depth r h" "rearm_ring env ch peer r h = Some (r', h')"
  shows "ring_link ch peer depth r' h'"
proof (cases "r_allocated r")
  case True
  note q = rearm_ring_result [OF assms(2) True]
  have wf: "ring_wf r" and d: "unat (r_depth r) = depth" using assms(1) by (auto simp: ring_link_def)
  have "r_depth r \<noteq> 0" using ring_wf_depth [OF wf] by auto
  then have "outstanding (ch, peer) depth h = Some []" using link_idle [OF assms(1)] drained_idle q(1) by blast
  then show ?thesis
    using q wf d by (intro link_empty) (auto simp: ring_wf_def ring_fresh_def inflight_count_def)
next
  case False
  then show ?thesis using assms by (simp add: rearm_ring_def)
qed

lemma skip_ring_result:
  assumes "skip_ring env ch peer r h = Some (b, r', h')"
  shows "h' = h @ [PublishIdx ch peer b]" "r_inflight r' = r_inflight r" "r_depth r' = r_depth r"
    "r_allocated r' = r_allocated r" "r_control r' = r_control r" "r_commands r' = r_commands r" "r_producer r' = r_producer r"
    "r' = r \<or> ring_drained r \<and> r_submit r' = r_shadow r'"
  using assms by (auto simp: skip_ring_def skipAbandonedTickets_ring_def publishConsumerIdx_def Let_def split: if_splits)

lemma skip_ring_link:
  assumes "ring_link ch peer depth r h" "skip_ring env ch peer r h = Some (b, r', h')"
  shows "ring_link ch peer depth r' h'"
proof -
  note q = skip_ring_result [OF assms(2)]
  have o: "outstanding (ch, peer) depth h' = outstanding (ch, peer) depth h"
    using assms(1) q(1) by (simp add: ring_link_def)
  have wf: "ring_wf r" and d: "unat (r_depth r) = depth" using assms(1) by (auto simp: ring_link_def)
  have "r_depth r \<noteq> 0" using ring_wf_depth [OF wf] by auto
  show ?thesis
  proof (cases "r' = r")
    case True
    then show ?thesis using link_same [OF assms(1)] o by simp
  next
    case False
    then have "ring_drained r" "r_submit r' = r_shadow r'" using q(8) by auto
    then show ?thesis
      using q wf d o link_idle [OF assms(1)] drained_idle \<open>r_depth r \<noteq> 0\<close>
      by (intro link_empty) (auto simp: ring_wf_def inflight_count_def)
  qed
qed

lemma progress_ring_link:
  "ring_link ch peer depth r h \<Longrightarrow> progress_ring ch peer r h = Some (r', h') \<Longrightarrow> ring_link ch peer depth r' h'"
  by (auto simp: progress_ring_def ring_link_def)

subsection \<open>Operations on a ring call only for that ring\<close>

definition own_calls :: "u32 \<Rightarrow> u32 \<Rightarrow> proxy_call list \<Rightarrow> proxy_call list \<Rightarrow> bool" where
  "own_calls ch peer h h' \<longleftrightarrow> (\<exists>cs. h' = h @ cs \<and> (\<forall>c \<in> set cs. call_ring c = (ch, peer)))"

lemma own_calls_refl [simp]: "own_calls ch peer h h"
  by (simp add: own_calls_def)

lemma own_calls_snoc: "own_calls ch peer h h' \<Longrightarrow> call_ring c = (ch, peer) \<Longrightarrow> own_calls ch peer h (h' @ [c])"
  by (auto simp: own_calls_def)

lemma own_calls_trans: "own_calls ch peer h h' \<Longrightarrow> own_calls ch peer h' h'' \<Longrightarrow> own_calls ch peer h h''"
  by (auto simp: own_calls_def)

lemma own_calls_other:
  "own_calls ch peer h h' \<Longrightarrow> ring \<noteq> (ch, peer) \<Longrightarrow> outstanding ring depth h' = outstanding ring depth h"
  by (auto simp: own_calls_def intro!: outstanding_other)

lemma submit_ring_own: "submit_ring env hv ch peer r h = Some (r', h') \<Longrightarrow> own_calls ch peer h h'"
  by (auto simp: submit_ring_def submitRecord_def own_calls_def Let_def dest: resolve_ring
      split: prod.splits option.splits if_splits)

lemma publish_one_own: "publish_one env ch peer r h = Some (b, r', h') \<Longrightarrow> own_calls ch peer h h'"
  by (auto simp: publish_one_def Let_def own_calls_def split: prod.splits option.splits if_splits)

lemma publish_ring_own: "publish_ring env ch peer r h = Some (r', h') \<Longrightarrow> own_calls ch peer h h'"
proof (induction env ch peer r h rule: publish_ring.induct)
  case (1 env ch peer r h)
  from "1.prems" obtain b r1 h1 where p: "publish_one env ch peer r h = Some (b, r1, h1)"
    by (subst (asm) publish_ring.simps) (auto split: option.splits prod.splits)
  then show ?case using "1.prems" "1.IH" [OF p] publish_one_own [OF p]
    by (cases b) (auto simp: publish_ring.simps [of env ch peer r h] intro: own_calls_trans)
qed

lemma rearm_ring_own: "rearm_ring env ch peer r h = Some (r', h') \<Longrightarrow> own_calls ch peer h h'"
  by (auto simp: rearm_ring_def Let_def own_calls_def split: prod.splits if_splits nixl_status_t.splits)

subsection \<open>Passes keep the contract\<close>

text \<open>What a pass relies on of the operation it applies to each ring: it keeps the ring in step with the
  transport and makes calls for that ring only.\<close>

definition rings_linked :: "u32 \<Rightarrow> nat \<Rightarrow> proxyRing list \<Rightarrow> proxy_call list \<Rightarrow> bool" where
  "rings_linked ch depth rings h \<longleftrightarrow>
     length rings < 2 ^ 32 \<and> (\<forall>p < length rings. ring_link ch (word_of_nat p) depth (rings ! p) h)"

definition device_ok :: "proxy_env \<Rightarrow> bool" where
  "device_ok env \<longleftrightarrow> (\<forall>h ch peer r. device_only r (pe_device env h ch peer r))"

definition channel_calls :: "u32 \<Rightarrow> proxy_call list \<Rightarrow> proxy_call list \<Rightarrow> bool" where
  "channel_calls ch h h' \<longleftrightarrow> (\<exists>cs. h' = h @ cs \<and> (\<forall>c \<in> set cs. fst (call_ring c) = ch))"

lemma channel_calls_refl [simp]: "channel_calls ch h h"
  by (simp add: channel_calls_def)

lemma channel_calls_trans: "channel_calls ch h h' \<Longrightarrow> channel_calls ch h' h'' \<Longrightarrow> channel_calls ch h h''"
  by (auto simp: channel_calls_def)

lemma own_channel: "own_calls ch peer h h' \<Longrightarrow> channel_calls ch h h'"
  by (auto simp: own_calls_def channel_calls_def)

lemma channel_calls_other:
  "channel_calls ch h h' \<Longrightarrow> fst ring \<noteq> ch \<Longrightarrow> outstanding ring depth h' = outstanding ring depth h"
  by (auto simp: channel_calls_def intro!: outstanding_other)

lemma peer_inject: "p < 2 ^ 32 \<Longrightarrow> q < 2 ^ 32 \<Longrightarrow> (word_of_nat p :: u32) = word_of_nat q \<longleftrightarrow> p = q"
  by (auto dest!: arg_cong [of _ _ unat] simp: unat_of_nat)

lemma look_links:
  assumes "device_ok env" "ring_link ch peer depth r h"
  shows "ring_link ch peer depth (pe_device env h ch peer r) (h @ [Look ch peer])"
proof -
  have "device_only r (pe_device env h ch peer r)" using assms(1) by (simp add: device_ok_def)
  then show ?thesis
    using assms(2) by (intro link_same [OF assms(2)]) (simp_all add: device_only_sel ring_link_def)
qed

lemma rings_linked_update:
  assumes "rings_linked ch depth rings h" "p < length rings" "ring_link ch (word_of_nat p) depth r h'"
    "own_calls ch (word_of_nat p) h h'"
  shows "rings_linked ch depth (rings[p := r]) h'"
  unfolding rings_linked_def
proof (intro conjI allI impI)
  show "length (rings[p := r]) < 2 ^ 32" using assms(1) by (simp add: rings_linked_def)
  fix q assume q: "q < length (rings[p := r])"
  show "ring_link ch (word_of_nat q) depth (rings[p := r] ! q) h'"
  proof (cases "q = p")
    case False
    then have "(word_of_nat q :: u32) \<noteq> word_of_nat p"
      using q assms(1,2) peer_inject [of q p] by (simp add: rings_linked_def)
    then have "outstanding (ch, word_of_nat q) depth h' = outstanding (ch, word_of_nat q) depth h"
      using own_calls_other [OF assms(4)] by simp
    then show ?thesis using False q assms(1) by (simp add: rings_linked_def ring_link_def)
  qed (use assms in simp)
qed

lemma own_look: "own_calls ch peer (h @ [Look ch peer]) h' \<Longrightarrow> own_calls ch peer h h'"
  by (auto simp: own_calls_def)

locale ring_operation =
  fixes f :: "u32 \<Rightarrow> u32 \<Rightarrow> proxyRing \<Rightarrow> proxy_call list \<Rightarrow> (proxyRing \<times> proxy_call list) option"
  assumes keeps_link: "ring_link ch peer depth r h \<Longrightarrow> f ch peer r h = Some (r', h') \<Longrightarrow> ring_link ch peer depth r' h'"
    and calls_own: "f ch peer r h = Some (r', h') \<Longrightarrow> own_calls ch peer h h'"
begin

lemma for_peers_links:
  "device_ok env \<Longrightarrow> rings_linked ch depth rings h \<Longrightarrow> set ps \<subseteq> {..<length rings} \<Longrightarrow>
     for_peers env ch (f ch) ps rings h = Some (rings', h') \<Longrightarrow>
     rings_linked ch depth rings' h' \<and> length rings' = length rings \<and> channel_calls ch h h'"
proof (induction ps arbitrary: rings h)
  case (Cons p ps)
  let ?peer = "word_of_nat p :: u32" let ?r = "pe_device env h ch ?peer (rings ! p)"
  obtain r1 h1 where f: "f ch ?peer ?r (h @ [Look ch ?peer]) = Some (r1, h1)"
      "for_peers env ch (f ch) ps (rings[p := r1]) h1 = Some (rings', h')"
    using Cons.prems(4) by (auto simp: Let_def split: option.splits)
  have l: "ring_link ch ?peer depth (rings ! p) h" using Cons.prems by (simp add: rings_linked_def)
  have o: "own_calls ch ?peer h h1" using own_look calls_own f(1) by blast
  have "rings_linked ch depth (rings[p := r1]) h1"
    using rings_linked_update [OF Cons.prems(2) _ _ o] keeps_link [OF look_links [OF Cons.prems(1) l] f(1)] Cons.prems(3)
    by simp
  then show ?case
    using Cons.IH [OF Cons.prems(1) _ _ f(2)] Cons.prems(3) own_channel [OF o] channel_calls_trans by fastforce
qed simp

lemma on_peers_links:
  assumes "device_ok env" "rings_linked (pc_id c) depth (pc_rings c) h" "on_peers env f peers c h = Some (c', h')"
    "set (slice_peers peers (length (pc_rings c))) \<subseteq> {..<length (pc_rings c)}"
  shows "rings_linked (pc_id c) depth (pc_rings c') h' \<and> pc_id c' = pc_id c \<and>
    length (pc_rings c') = length (pc_rings c) \<and> channel_calls (pc_id c) h h'"
  using assms for_peers_links [OF assms(1,2,4)] by (auto simp: on_peers_def)

end

interpretation submitting: ring_operation "submit_ring env hv" for env hv
  by unfold_locales (fact submit_ring_link submit_ring_own)+

interpretation progressing: ring_operation progress_ring
  by unfold_locales (fact progress_ring_link, auto simp: progress_ring_def intro: own_calls_snoc)

interpretation publishing: ring_operation "publish_ring env" for env
  by unfold_locales (fact publish_ring_link publish_ring_own)+

interpretation rearming: ring_operation "rearm_ring env" for env
  by unfold_locales (fact rearm_ring_link rearm_ring_own)+

lemma slice_inside: "set (slice_from p d n) \<subseteq> {..<n}"
proof (induction p d n rule: slice_from.induct)
  case (1 p d n)
  then show ?case by (subst slice_from.simps) auto
qed

lemma slice_peers_inside: "set (slice_peers peers n) \<subseteq> {..<n}"
  by (simp add: slice_peers_def slice_inside)

lemma drained_peers_links:
  "device_ok env \<Longrightarrow> rings_linked ch depth rings h \<Longrightarrow> set ps \<subseteq> {..<length rings} \<Longrightarrow>
     drained_peers env ch ps rings h = (b, rings', h') \<Longrightarrow>
     rings_linked ch depth rings' h' \<and> length rings' = length rings \<and> channel_calls ch h h'"
proof (induction ps arbitrary: rings h)
  case (Cons p ps)
  let ?peer = "word_of_nat p :: u32" let ?r = "pe_device env h ch ?peer (rings ! p)" let ?h = "h @ [Look ch ?peer]"
  have o: "own_calls ch ?peer h ?h" by (intro own_calls_snoc) simp_all
  have l: "ring_link ch ?peer depth ?r ?h" using Cons.prems by (intro look_links) (simp_all add: rings_linked_def)
  have u: "rings_linked ch depth (rings[p := ?r]) ?h"
    using rings_linked_update [OF Cons.prems(2) _ l o] Cons.prems(3) by simp
  show ?case
  proof (cases "ring_drained ?r")
    case True
    then have "drained_peers env ch ps (rings[p := ?r]) ?h = (b, rings', h')" using Cons.prems(4) by (simp add: Let_def)
    then show ?thesis
      using Cons.IH [OF Cons.prems(1) u] Cons.prems(3) own_channel [OF o] channel_calls_trans by fastforce
  next
    case False
    then show ?thesis using Cons.prems(4) u own_channel [OF o] by (auto simp: Let_def)
  qed
qed simp

lemma skip_peers_links:
  "device_ok env \<Longrightarrow> rings_linked ch depth rings h \<Longrightarrow> set ps \<subseteq> {..<length rings} \<Longrightarrow>
     skip_peers env ch ps skipped rings h = Some (b, rings', h') \<Longrightarrow>
     rings_linked ch depth rings' h' \<and> length rings' = length rings \<and> channel_calls ch h h'"
proof (induction ps arbitrary: rings h skipped)
  case (Cons p ps)
  let ?peer = "word_of_nat p :: u32" let ?r = "pe_device env h ch ?peer (rings ! p)"
  obtain b1 r1 h1 where f: "skip_ring env ch ?peer ?r (h @ [Look ch ?peer]) = Some (b1, r1, h1)"
      "skip_peers env ch ps (b1 \<or> skipped) (rings[p := r1]) h1 = Some (b, rings', h')"
    using Cons.prems(4) by (auto simp: Let_def split: option.splits)
  have l: "ring_link ch ?peer depth (rings ! p) h" using Cons.prems by (simp add: rings_linked_def)
  have o: "own_calls ch ?peer h h1" using skip_ring_result(1) [OF f(1)] by (simp add: own_calls_def)
  have "rings_linked ch depth (rings[p := r1]) h1"
    using rings_linked_update [OF Cons.prems(2) _ _ o] skip_ring_link [OF look_links [OF Cons.prems(1) l] f(1)] Cons.prems(3)
    by simp
  then show ?case
    using Cons.IH [OF Cons.prems(1) _ _ f(2)] Cons.prems(3) own_channel [OF o] channel_calls_trans by fastforce
qed simp

subsection \<open>Visits are steps of the ring protocol\<close>

text \<open>What a visit does to a ring, the ring protocol allows: device threads and visits together only take
  steps of that protocol, so all it guarantees holds of the rings of a channel.\<close>

lemma reach_host: "reach ring_start ring_step s \<Longrightarrow> host_step s t \<Longrightarrow> reach ring_start ring_step t"
  by (blast intro: reach_step ring_step_def [THEN iffD2])

lemma submit_ring_steps:
  assumes "reach ring_start ring_step s" "submit_ring env hv ch peer (rs_ring s) h = Some (r', h')"
  shows "\<exists>t. reach ring_start ring_step t \<and> rs_ring t = r' \<and> rs_threads t = rs_threads s"
proof (cases "tryDequeue (rs_ring s)")
  case (Pair got r0)
  show ?thesis
  proof (cases got)
    case None
    then show ?thesis using assms Pair tryDequeue_none by (auto simp: submit_ring_def)
  next
    case (Some sc)
    then obtain slot c where t: "tryDequeue (rs_ring s) = (Some (slot, c), r0)" using Pair by (cases sc) auto
    then have e: "submitRecord env hv ch peer slot c r0 h = Some (r', h')" using assms(2) by (simp add: submit_ring_def)
    obtain rq where q: "r' = recordInflight slot rq r0" "rq_op_idx rq = op_idx c"
      using e by (auto simp: submitRecord_def Let_def split: option.splits if_splits prod.splits)
    show ?thesis using reach_host [OF assms(1) host_take [OF t q(2)]] q(1)
      by (intro exI [of _ "s\<lparr>rs_ring := r', rs_taken := rs_taken s @ [(unat (r_submit (rs_ring s)), c)]\<rparr>"]) simp
  qed
qed

lemma retire_ignores_status:
  assumes "length (r_inflight r) = unat (r_depth r)" "0 < unat (r_depth r)"
    and "front = r_inflight r ! slot_of r (r_shadow r)"
  shows "retireOldest ok st (recordInflight (slot_of r (r_shadow r)) (front\<lparr>rq_status := st'\<rparr>) r) = retireOldest ok st r"
  using assms
  by (simp add: retireOldest_def recordInflight_def publishConsumerIdx_def slot_of_nat Let_def)

lemma publish_one_steps:
  assumes "reach ring_start ring_step s" "publish_one env ch peer (rs_ring s) h = Some (b, r', h')"
  shows "\<exists>t. reach ring_start ring_step t \<and> rs_ring t = r' \<and> rs_threads t = rs_threads s"
proof (cases b)
  case False
  then have "r' = rs_ring s"
    using assms(2) by (auto simp: publish_one_def Let_def split: option.splits if_splits prod.splits)
  then show ?thesis using assms(1) by blast
next
  case True
  have sh: "length (r_inflight (rs_ring s)) = Dn s" "0 < Dn s"
    using proxy_ring.reach_inv [OF assms(1)] by (auto simp: ring_inv_def shape_ok_def)
  obtain front where o: "oldestInflight (rs_ring s) = Some front"
    using assms(2) True by (auto simp: publish_one_def split: option.splits)
  then have f: "front = r_inflight (rs_ring s) ! slot_of (rs_ring s) (r_shadow (rs_ring s))"
    by (auto simp: oldestInflight_def split: if_splits)
  obtain ok st where r: "retireOldest ok st (rs_ring s) = Some r'" "st \<noteq> NIXL_IN_PROG"
    using assms(2) True o retire_ignores_status [OF sh f]
    by (auto simp: publish_one_def Let_def split: if_splits)
  then have "retireOldest True st (rs_ring s) = Some r'"
    by (cases ok) (auto simp: retireOldest_def publishConsumerIdx_def Let_def split: if_splits)
  from reach_host [OF assms(1) host_retire [OF o r(2) this]] show ?thesis
    by (intro exI [of _ "s\<lparr>rs_ring := r', rs_retired := rs_retired s @ [(unat (r_shadow (rs_ring s)), st)]\<rparr>"]) simp
qed

lemma publish_ring_steps:
  "reach ring_start ring_step s \<Longrightarrow> publish_ring env ch peer (rs_ring s) h = Some (r', h') \<Longrightarrow>
     \<exists>t. reach ring_start ring_step t \<and> rs_ring t = r' \<and> rs_threads t = rs_threads s"
proof (induction env ch peer "rs_ring s" h arbitrary: s rule: publish_ring.induct)
  case (1 env ch peer h)
  from "1.prems"(2) obtain b r1 h1 where p: "publish_one env ch peer (rs_ring s) h = Some (b, r1, h1)"
    by (subst (asm) publish_ring.simps) (auto split: option.splits prod.splits)
  obtain t where t: "reach ring_start ring_step t" "rs_ring t = r1" "rs_threads t = rs_threads s"
    using publish_one_steps [OF "1.prems"(1) p] by blast
  show ?case
  proof (cases b)
    case True
    then have "publish_ring env ch peer (rs_ring t) h1 = Some (r', h')"
      using "1.prems"(2) p t(2) by (subst (asm) publish_ring.simps) simp
    then show ?thesis using "1.hyps" [OF p] True t by metis
  next
    case False
    then show ?thesis using "1.prems"(2) p t by (subst (asm) publish_ring.simps) auto
  qed
qed

lemma rearm_ring_steps:
  assumes "reach ring_start ring_step s" "rearm_ring env ch peer (rs_ring s) h = Some (r', h')"
  shows "\<exists>t. reach ring_start ring_step t \<and> rs_ring t = r' \<and> rs_threads t = rs_threads s"
proof -
  have a: "r_allocated (rs_ring s)"
    using proxy_ring.reach_inv [OF assms(1)] by (simp add: ring_inv_def shape_ok_def)
  obtain env' where "assertDrained True (rs_ring s)" "rearm env' (rs_ring s) = (NIXL_SUCCESS, r')"
    using assms(2) a
    by (auto simp: rearm_ring_def assertDrained_def Let_def split: if_splits prod.splits nixl_status_t.splits)
  from reach_host [OF assms(1) host_rearm [OF this(1) a this(2)]] show ?thesis
    by (intro exI [of _ "s\<lparr>rs_ring := r', rs_tickets := [], rs_given_up := {}, rs_taken := [], rs_retired := []\<rparr>"]) simp
qed

end
