(* ===== verification/Spec2Isabelle.thy ===== *)
theory Spec2Isabelle
  imports Nixl_DescSerial Nixl_SecDescList Nixl_Merge Nixl_AgentLife Nixl_MDWorker Nixl_MDManager Nixl_Ring
    Nixl_BlockingQueue Nixl_Trace Nixl_ProxyChannel
begin

text \<open>
  A verification development for the core of NIXL, the library that moves data between the memory and
  storage of different agents. All file names below are relative to \<open>src/\<close> of the repository.

  \<^bold>\<open>The program.\<close> An agent (\<open>core/nixl_agent.cpp\<close>) owns backend engines (\<open>api/cpp/backend\<close>), a section
  with the memory the application registered with them, and one section per known peer
  (\<open>infra/nixl_memory_section.cpp\<close>). Sections hold sorted descriptor lists (\<open>infra/nixl_descriptors.cpp\<close>).
  Agents exchange their sections as bytes (\<open>utils/serdes\<close>) over one of three transports, chosen per call
  by a manager (\<open>core/nixl_md_manager.cpp\<close>) and run by a worker thread each. A transfer request resolves
  descriptors against a local and a remote section and is then driven through one engine. Device threads
  reach an engine through the device proxy (\<open>utils/device/proxy\<close>): they put commands into rings that host
  threads empty, resolve against memory views and submit.

  \<^bold>\<open>The theories,\<close> in the order of their imports:

  \<^item> \<open>Nixl_Prelude\<close>: bytes of words, association lists for \<open>std::map\<close> and \<open>std::unordered_map\<close>, binary search,
    and two interfaces: \<open>fixed_codec\<close> for values of fixed width on the wire and \<open>invariant_system\<close> for
    step relations.
  \<^item> \<open>Nixl_Types\<close>, \<open>Nixl_SerDes\<close>, \<open>Nixl_Descriptors\<close>, \<open>Nixl_DescSerial\<close>, \<open>Nixl_SecDescList\<close>, \<open>Nixl_Strides\<close>: the
    enumerations, the serializer, the descriptor types and lists, their wire form, the sorted list of
    registered regions, and compressed lists of runs.
  \<^item> \<open>Nixl_Merge\<close>: \<open>mergeIndices\<close> with its bitmap of continuations.
  \<^item> \<open>Nixl_Backend\<close>, \<open>Nixl_MemSection\<close>, \<open>Nixl_Sections\<close>: engines as response functions over the history of
    calls, the three populate functions, local and remote sections.
  \<^item> \<open>Nixl_Agent\<close>, \<open>Nixl_AgentMD\<close>, \<open>Nixl_AgentXfer\<close>, \<open>Nixl_AgentLife\<close>: the agent's state and methods, grouped
    as registration, metadata and transfers, and its life as a step relation with one rule per method.
  \<^item> \<open>Nixl_MDWorker\<close>: the worker thread (\<open>core/nixl_metadata_worker.cpp\<close>) as a step system.
  \<^item> \<open>Nixl_Wire\<close>, \<open>Nixl_P2P\<close>: frames on a socket, and the peer-to-peer transport with its listener
    (\<open>core/nixl_p2p_metadata_backend.cpp\<close>, \<open>utils/stream/metadata_stream.cpp\<close>). The interface
    \<open>metadata_transport\<close> is what the agent relies on; all transports and the manager are instances.
  \<^item> \<open>Nixl_TcpStore\<close>, \<open>Nixl_Etcd\<close>: the two stores (\<open>core/nixl_tcpstore_*\<close>, \<open>core/nixl_etcd_metadata_backend.cpp\<close>).
  \<^item> \<open>Nixl_MDManager\<close>: the manager, the interleaving of all workers' jobs, and the agent's lock (\<open>core/sync.h\<close>).
  \<^item> \<open>Nixl_Ring\<close>: the shared-memory ring through which telemetry leaves (\<open>utils/common/cyclic_buffer.tpp\<close>).
  \<^item> \<open>Nixl_Config\<close>, \<open>Nixl_BlockingQueue\<close>: settings from environment, file and defaults (\<open>utils/common/configuration.*\<close>,
    \<open>config_traits.h\<close>, \<open>toml_traits.h\<close>, \<open>backend.h\<close>), and the intrusive queue (\<open>utils/common/blocking_queue.h\<close>).
  \<^item> \<open>Nixl_Trace\<close>: trace contexts (\<open>core/tracing/trace_context.cpp\<close>, \<open>random_buffer.h\<close>) and UUIDs.
  \<^item> \<open>Nixl_ProxyConfig\<close>, \<open>Nixl_ProxyViews\<close>, \<open>Nixl_ProxyRing\<close>: the device proxy's settings, its memory views and
    the resolution of commands, and its ring with the device's side (\<open>device_proxy_ring.cuh\<close>).

  \<^bold>\<open>Conventions.\<close> A class is a record with the source's fields, a method a function that returns its status and
  the new object. \<open>size_t\<close> and addresses are 64-bit words with their wrap-around; strings and blobs are
  lists of bytes. A thrown error or a dereferenced null pointer is the value \<open>None\<close>, in the transports
  \<open>Crash\<close>, and a loop that does not end is \<open>Hang\<close>. A weak pointer is the generation number of the object
  it was made from. Code outside the repository is an argument: engines (\<open>benv\<close>), etcd (\<open>etcd_env\<close>),
  sockets and files (scripts and records of results).

  \<^bold>\<open>What is shown.\<close> Every reachable agent satisfies an invariant in which the engines' accounts of registrations
  and loaded metadata balance; requests only use registered memory; handles to a forgotten peer are
  refused; posts do not overlap, polling ends, handles are returned once. The optimised routines (populate
  with compression, index merging, run search) agree with their reference definitions. Metadata written
  by one agent and loaded by another makes exactly the registered regions visible, and arbitrary bytes
  from a peer neither crash an agent nor break its invariant. Of the worker: no task is lost or run
  twice and shutdown ends. Of the transports: framing survives fragmentation and failures, delivery
  between peers, announcement before publication, expiry of pending fetches, routing; in any interleaving
  of their jobs the agent only takes steps of its own. Of the ring: first in, first out, without a race on
  a slot. Of the device proxy: commands leave a ring in ticket order with the contents that were enqueued,
  whatever the interleaving of device threads and host; a poll reports a command complete exactly when
  it is retired, with its status; a submission stays inside registered descriptors; every ring has
  one owner among the threads. Settings come from the first source that has them; trace contexts survive
  text and wire, and sampling decisions agree along a trace. Some theorems state where the code does less than it means to, such as a wrapping
  length that \<open>getStr\<close> accepts or a message cut at a tag inside its blob.

  \<^bold>\<open>Bounds.\<close> No definition takes fuel. Loops whose end depends on the outside are given a script and their
  result says when it is used up: a read or a store operation then has passed its deadline, the send loop
  of the peer-to-peer transport, which has none, still runs. Round trips assume blobs shorter than \<open>2 ^ 64\<close>
  bytes (\<open>fits\<close>) or than the frame limit. Positions in the ring are words; its capacity is a power of
  two below \<open>2 ^ 64\<close>, as the constructor demands. A ring of the device proxy takes fewer than \<open>2 ^ 64 - 1\<close>
  commands between two resets, since the number 0 marks an empty slot, and its host skips tickets at
  shutdown only when no device thread still holds one; \<open>skip_overtakes_publisher\<close> shows why.

  \<^bold>\<open>Not modelled.\<close> Engines behind the interface, among them all plugins, GPU code and the libraries they wrap;
  loading of plugins; the export of telemetry and of trace spans, beyond which events the agent records;
  channels, threads and start-up of the device proxy; logging and other utilities; the C, Python and Rust interfaces; benchmarks. A public
  method is one step of the agent, since it runs under the agent's lock; exceptions for lack of memory
  are left out.
\<close>

end
